(* ===== verification/Prelude.thy ===== *)
theory Prelude
  imports Main "HOL-Library.Word"
begin

text \<open>
  What every component shares: machine integer types, the result type of fallible code,
  checked machine arithmetic, and bit lemmas.

  \<^item> \<open>fault\<close> lists the ways the kernel's Rust code stops being ordinary code: a panic
    (with the static part of its message), an arithmetic overflow caught by the compiler's
    overflow checks, an index outside a slice or array, an access through a raw pointer outside
    the memory its owner set aside (undefined behaviour in Rust), and a loop that never ends.
  \<^item> \<open>'a res\<close> is \<open>fault + 'a\<close>; \<open>andThen\<close> runs the rest of a function body on a
    normal result and stops at the first fault; \<open>ensure\<close> is \<open>assert!\<close>/\<open>expect\<close>.
  \<^item> \<open>usize\<close> values are natural numbers below \<open>usize_lim\<close> (\<open>2 ^ 64\<close>). The operators
    \<open>uadd\<close>, \<open>usub\<close>, \<open>umul\<close> take the build profile: \<open>Dev\<close> is a cargo dev build,
    where an overflow panics; \<open>Release\<close> is a release build, where it wraps.
\<close>

unbundle bit_operations_syntax

type_synonym u8 = "8 word"
type_synonym u16 = "16 word"
type_synonym u32 = "32 word"
type_synonym u64 = "64 word"

section \<open>Faults and results\<close>

datatype fault =
    Panic string
  | Overflow
  | OutOfBounds
  | WildAccess nat
  | Hang

type_synonym 'a res = "fault + 'a"

fun andThen :: "'a res \<Rightarrow> ('a \<Rightarrow> 'b res) \<Rightarrow> 'b res" where
  "andThen (Inl e) f = Inl e"
| "andThen (Inr x) f = f x"

definition ensure :: "bool \<Rightarrow> string \<Rightarrow> unit res" where
  "ensure b msg = (if b then Inr () else Inl (Panic msg))"

lemma ensure_simps [simp]:
  "ensure True msg = Inr ()" "ensure False msg = Inl (Panic msg)"
  by (simp_all add: ensure_def)

lemma ensure_Inr_iff [simp]: "ensure b msg = Inr u \<longleftrightarrow> b"
  by (simp add: ensure_def)

lemma andThen_Inr_iff: "andThen m f = Inr y \<longleftrightarrow> (\<exists>x. m = Inr x \<and> f x = Inr y)"
  by (cases m) auto

lemma andThen_InrE [elim]:
  assumes "andThen m f = Inr y"
  obtains x where "m = Inr x" and "f x = Inr y"
  using assms by (auto simp: andThen_Inr_iff)

lemma andThen_Inr_right [simp]: "andThen m Inr = m"
  by (cases m) simp_all

lemma andThen_assoc: "andThen (andThen m f) g = andThen m (\<lambda>x. andThen (f x) g)"
  by (cases m) auto

lemma andThen_cong [fundef_cong]:
  "m = m' \<Longrightarrow> (\<And>x. m' = Inr x \<Longrightarrow> f x = f' x) \<Longrightarrow> andThen m f = andThen m' f'"
  by (cases m') auto

section \<open>Machine arithmetic on usize\<close>

datatype profile = Dev | Release

abbreviation usize_lim :: nat where
  "usize_lim \<equiv> 18446744073709551616"

definition uadd :: "profile \<Rightarrow> nat \<Rightarrow> nat \<Rightarrow> nat res" where
  "uadd pr a b =
     (if a + b < usize_lim then Inr (a + b)
      else case pr of Dev \<Rightarrow> Inl Overflow | Release \<Rightarrow> Inr ((a + b) mod usize_lim))"

definition usub :: "profile \<Rightarrow> nat \<Rightarrow> nat \<Rightarrow> nat res" where
  "usub pr a b =
     (if b \<le> a then Inr (a - b)
      else case pr of Dev \<Rightarrow> Inl Overflow | Release \<Rightarrow> Inr (a + usize_lim - b))"

definition umul :: "profile \<Rightarrow> nat \<Rightarrow> nat \<Rightarrow> nat res" where
  "umul pr a b =
     (if a * b < usize_lim then Inr (a * b)
      else case pr of Dev \<Rightarrow> Inl Overflow | Release \<Rightarrow> Inr ((a * b) mod usize_lim))"

lemma uadd_ok [simp]: "a + b < usize_lim \<Longrightarrow> uadd pr a b = Inr (a + b)"
  by (simp add: uadd_def)

lemma usub_ok [simp]: "b \<le> a \<Longrightarrow> usub pr a b = Inr (a - b)"
  by (simp add: usub_def)

lemma umul_ok [simp]: "a * b < usize_lim \<Longrightarrow> umul pr a b = Inr (a * b)"
  by (simp add: umul_def)

text \<open>The same on the fixed-width unsigned types, kept as words.\<close>

definition wadd :: "profile \<Rightarrow> 'w::len word \<Rightarrow> 'w word \<Rightarrow> 'w word res" where
  "wadd pr a b = (if pr = Dev \<and> 2 ^ LENGTH('w) \<le> unat a + unat b then Inl Overflow else Inr (a + b))"

definition wmul :: "profile \<Rightarrow> 'w::len word \<Rightarrow> 'w word \<Rightarrow> 'w word res" where
  "wmul pr a b = (if pr = Dev \<and> 2 ^ LENGTH('w) \<le> unat a * unat b then Inl Overflow else Inr (a * b))"

lemma wadd_Release [simp]: "wadd Release a b = Inr (a + b)"
  by (simp add: wadd_def)

lemma wmul_Release [simp]: "wmul Release a b = Inr (a * b)"
  by (simp add: wmul_def)

text \<open>\<open>a & !m\<close> on usize, and its value when \<open>m\<close> is a power of two less one.\<close>

definition and_not :: "nat \<Rightarrow> nat \<Rightarrow> nat" where
  "and_not a m = unat ((word_of_nat a :: u64) AND NOT (word_of_nat m))"

lemma and_not_mask:
  assumes a: "a < usize_lim" and k: "k < 64"
  shows "and_not a (2 ^ k - 1) = a div 2 ^ k * 2 ^ k"
proof -
  have m: "(word_of_nat (2 ^ k - 1) :: u64) = mask k"
    by (simp add: mask_eq_exp_minus_1 of_nat_diff)
  have "(word_of_nat a :: u64) AND NOT (mask k) = push_bit k (drop_bit k (word_of_nat a))"
    by (rule bit_word_eqI) (auto simp: bit_simps)
  also have "unat \<dots> = a div 2 ^ k * 2 ^ k"
  proof -
    have "unat (drop_bit k (word_of_nat a :: u64)) = a div 2 ^ k"
      using a by (simp only: unsigned_drop_bit_eq unsigned_of_nat)
         (simp add: take_bit_nat_eq_self drop_bit_eq_div)
    moreover have "a div 2 ^ k * 2 ^ k < 2 ^ 64"
      using a by (auto intro: le_less_trans [OF div_times_less_eq_dividend])
    ultimately show ?thesis
      by (simp only: unsigned_push_bit_eq) (simp add: push_bit_eq_mult take_bit_nat_eq_self)
  qed
  finally show ?thesis by (simp only: and_not_def m)
qed

lemma and_not_15: "a < usize_lim \<Longrightarrow> and_not a 15 = a div 16 * 16"
  using and_not_mask [of a 4] by simp

lemma and_not_4095: "a < usize_lim \<Longrightarrow> and_not a 4095 = a div 4096 * 4096"
  using and_not_mask [of a 12] by simp

section \<open>Bits of a word\<close>

text \<open>
  \<open>1 << n\<close> is \<open>push_bit n 1\<close> in the definitions, which the simplifier rewrites to
  \<open>2 ^ n\<close>; the lemmas are about that form.
\<close>

lemma and_exp_neq_0: "(w AND 2 ^ n \<noteq> 0) \<longleftrightarrow> bit w n" for w :: "'a::len word"
proof -
  have "w AND 2 ^ n = of_bool (bit w n) * 2 ^ n"
    by (rule bit_word_eqI) (auto simp: bit_simps)
  moreover have "(2 ^ n :: 'a word) \<noteq> 0" if "bit w n"
    using bit_imp_le_length [OF that] by (simp add: exp_eq_zero_iff)
  ultimately show ?thesis by auto
qed

lemma bit_or_exp:
  "bit (w OR 2 ^ n) i \<longleftrightarrow> bit w i \<or> (i = n \<and> n < LENGTH('a))" for w :: "'a::len word"
  by (auto simp: bit_simps)

lemma bit_and_not_exp:
  "bit (w AND NOT (2 ^ n)) i \<longleftrightarrow> bit w i \<and> i \<noteq> n" for w :: "'a::len word"
  by (auto simp: bit_simps dest: bit_imp_le_length)

lemma bit_0xff: "j < 8 \<Longrightarrow> bit (0xff :: u8) j"
proof -
  have "(0xff :: u8) = mask 8" by (simp add: mask_eq_exp_minus_1)
  then show "j < 8 \<Longrightarrow> bit (0xff :: u8) j" by (simp only: bit_mask_iff) simp
qed

section \<open>Lists\<close>

lemma nth_list_update_if:
  "i < length xs \<Longrightarrow> xs[i := x] ! j = (if j = i then x else xs ! j)"
  by (simp add: nth_list_update)

end
