(* ===== verification/Format.thy ===== *)
theory Format
  imports Prelude
begin

text \<open>
  Number formatting. The same two loops stand in \<open>device/serial.rs\<close>, \<open>ui/terminal.rs\<close>,
  \<open>shell/simple_shell.rs\<close>, \<open>memory/heap.rs\<close> and \<open>multitask/demo_tasks.rs\<close>: decimal digits
  are written from the end of a fixed buffer downwards, hexadecimal digits into a buffer of
  sixteen, and the used part of the buffer is sent byte by byte to a \<open>putc\<close>. They are modelled
  once here, over the \<open>putc\<close> they are used with.

  The locale \<open>byte_sink\<close> is what the loops rely on of \<open>putc\<close>: it accepts every byte in every
  good state and stays good; \<open>logged_sink\<close> adds that the bytes come out in order.
\<close>

section \<open>The loops\<close>

text \<open>
  \<open>while n > 0 { i -= 1; buf[i] = b'0' + (n % 10) as u8; n /= 10 }\<close>: the index may underflow
  and the store may be out of range, both are results of the model.
\<close>

function dec_fill :: "profile \<Rightarrow> nat \<Rightarrow> nat \<Rightarrow> u8 list \<Rightarrow> (nat \<times> u8 list) res" where
  "dec_fill pr n i buf =
     (if n = 0 then Inr (i, buf)
      else andThen (usub pr i 1) (\<lambda>i.
             if i < length buf
             then dec_fill pr (n div 10) i (buf[i := 48 + word_of_nat (n mod 10)])
             else Inl OutOfBounds))"
  by pat_completeness auto
termination
  by (relation "measure (\<lambda>(pr, n, i, buf). n)") auto

declare dec_fill.simps [simp del]

definition hex_digit :: "u8 \<Rightarrow> u8" where
  "hex_digit nib = (if nib < 10 then 48 + nib else 97 + nib - 10)"

text \<open>\<open>for i in (0..16).rev()\<close>: the first argument is one more than the index written.\<close>

fun hex_fill :: "nat \<Rightarrow> u64 \<Rightarrow> u8 list \<Rightarrow> u8 list" where
  "hex_fill 0 v buf = buf"
| "hex_fill (Suc i) v buf =
     hex_fill i (drop_bit 4 v) (buf[i := hex_digit (ucast (v AND 0xf))])"

text \<open>\<open>for &b in bytes { putc(b) }\<close>\<close>

fun emit :: "(u8 \<Rightarrow> 's \<Rightarrow> 's res) \<Rightarrow> u8 list \<Rightarrow> 's \<Rightarrow> 's res" where
  "emit putc [] s = Inr s"
| "emit putc (b # bs) s = andThen (putc b s) (emit putc bs)"

definition put_dec :: "profile \<Rightarrow> nat \<Rightarrow> (u8 \<Rightarrow> 's \<Rightarrow> 's res) \<Rightarrow> nat \<Rightarrow> 's \<Rightarrow> 's res" where
  "put_dec pr cap putc n s =
     (if n = 0 then putc 48 s
      else andThen (dec_fill pr n cap (replicate cap 48)) (\<lambda>(i, buf).
             emit putc (drop i buf) s))"

definition put_hex64 :: "(u8 \<Rightarrow> 's \<Rightarrow> 's res) \<Rightarrow> u64 \<Rightarrow> 's \<Rightarrow> 's res" where
  "put_hex64 putc v s = emit putc (hex_fill 16 v (replicate 16 48)) s"

section \<open>What the loops compute\<close>

fun dec_text :: "nat \<Rightarrow> u8 list" where
  "dec_text n =
     (if n div 10 = 0 then [48 + word_of_nat n] else dec_text (n div 10) @ [48 + word_of_nat (n mod 10)])"

declare dec_text.simps [simp del]

definition hex_text :: "u64 \<Rightarrow> u8 list" where
  "hex_text v = map (\<lambda>i. hex_digit (ucast (drop_bit (4 * (15 - i)) v AND 0xf))) [0..<16]"

lemma dec_fill_spec:
  "n < 10 ^ i \<Longrightarrow> i \<le> length buf \<Longrightarrow>
     \<exists>i' buf'. dec_fill pr n i buf = Inr (i', buf') \<and> i' \<le> i \<and> length buf' = length buf \<and>
       drop i' buf' = (if n = 0 then [] else dec_text n) @ drop i buf"
proof (induction i arbitrary: n buf)
  case 0
  then show ?case by (simp add: dec_fill.simps)
next
  case (Suc i)
  show ?case
  proof (cases "n = 0")
    case True
    then show ?thesis by (simp add: dec_fill.simps)
  next
    case False
    let ?d = "48 + word_of_nat (n mod 10) :: u8"
    let ?buf = "buf[i := ?d]"
    have "n div 10 < 10 ^ i" and "i \<le> length ?buf"
      using Suc.prems by (auto simp: less_mult_imp_div_less)
    from Suc.IH [OF this] obtain i' buf' where
      r: "dec_fill pr (n div 10) i ?buf = Inr (i', buf')" "i' \<le> i" "length buf' = length buf"
        "drop i' buf' = (if n div 10 = 0 then [] else dec_text (n div 10)) @ drop i ?buf"
      by auto
    have "drop i ?buf = ?d # drop (Suc i) buf"
      using Suc.prems by (simp add: Cons_nth_drop_Suc [symmetric])
    moreover have "dec_text n = (if n div 10 = 0 then [] else dec_text (n div 10)) @ [?d]"
      by (subst dec_text.simps) (auto simp: div_eq_0_iff)
    ultimately have "drop i' buf' = dec_text n @ drop (Suc i) buf"
      using r(4) by simp
    moreover have "dec_fill pr n (Suc i) buf = Inr (i', buf')"
      using False Suc.prems r(1) by (subst dec_fill.simps) simp
    ultimately show ?thesis using False r(2,3) by auto
  qed
qed

lemma put_dec_eq:
  assumes "n < 10 ^ cap"
  shows "put_dec pr cap putc n s = emit putc (dec_text n) s"
proof (cases "n = 0")
  case True
  then show ?thesis
    by (cases "putc 48 s") (simp_all add: put_dec_def dec_text.simps)
next
  case False
  from dec_fill_spec [of n cap "replicate cap 48" pr] assms obtain i' buf' where
    "dec_fill pr n cap (replicate cap 48) = Inr (i', buf')" "drop i' buf' = dec_text n"
    using False by auto
  with False show ?thesis by (simp add: put_dec_def)
qed

lemma length_hex_fill [simp]: "length (hex_fill n v buf) = length buf"
  by (induction n v buf rule: hex_fill.induct) auto

lemma nth_hex_fill:
  "n \<le> length buf \<Longrightarrow> i < length buf \<Longrightarrow>
     hex_fill n v buf ! i =
       (if i < n then hex_digit (ucast (drop_bit (4 * (n - 1 - i)) v AND 0xf)) else buf ! i)"
proof (induction n arbitrary: v buf)
  case 0
  then show ?case by simp
next
  case (Suc n)
  have e: "4 * (n - Suc i) + 4 = 4 * (n - i)" if "i < n"
    using that by simp
  show ?case
    using Suc.prems by (auto simp: Suc.IH nth_list_update_if e less_Suc_eq)
qed

lemma hex_fill_eq: "hex_fill 16 v (replicate 16 48) = hex_text v"
  by (rule nth_equalityI) (simp_all add: hex_text_def nth_hex_fill)

lemma put_hex64_eq: "put_hex64 putc v s = emit putc (hex_text v) s"
  by (simp add: put_hex64_def hex_fill_eq)

lemma emit_append: "emit putc (as @ bs) s = andThen (emit putc as s) (emit putc bs)"
  by (induction as arbitrary: s) (simp_all add: andThen_assoc cong: andThen_cong)

section \<open>The text is the number\<close>

definition dec_value :: "u8 list \<Rightarrow> nat" where
  "dec_value bs = foldl (\<lambda>a b. a * 10 + unat (b - 48)) 0 bs"

lemma unat_digit: "d < 10 \<Longrightarrow> unat (48 + word_of_nat d :: u8) = 48 + d"
  by (simp add: unat_word_ariths unat_of_nat)

lemma dec_text_digits: "b \<in> set (dec_text n) \<Longrightarrow> 48 \<le> unat b \<and> unat b \<le> 57"
proof (induction n rule: dec_text.induct)
  case (1 n)
  show ?case
  proof (cases "n div 10 = 0")
    case True
    then show ?thesis
      using "1.prems" unat_digit [of n] by (subst (asm) dec_text.simps) (auto simp: div_eq_0_iff)
  next
    case False
    then show ?thesis
      using "1.prems" "1.IH" unat_digit [of "n mod 10"] by (subst (asm) dec_text.simps) auto
  qed
qed

lemma dec_value_dec_text: "dec_value (dec_text n) = n"
proof (induction n rule: dec_text.induct)
  case (1 n)
  show ?case
  proof (cases "n div 10 = 0")
    case True
    then show ?thesis
      by (subst dec_text.simps) (auto simp: dec_value_def div_eq_0_iff unat_of_nat)
  next
    case False
    then show ?thesis
      using "1.IH" by (subst dec_text.simps) (auto simp: dec_value_def unat_of_nat)
  qed
qed

lemma dec_text_not_Nil [simp]: "dec_text n \<noteq> []"
  by (subst dec_text.simps) simp

lemma dec_text_hd: "0 < n \<Longrightarrow> hd (dec_text n) \<noteq> 48"
proof (induction n rule: dec_text.induct)
  case (1 n)
  show ?case
  proof (cases "n div 10 = 0")
    case True
    then have "unat (48 + word_of_nat n :: u8) = 48 + n"
      by (intro unat_digit) (simp add: div_eq_0_iff)
    then have "(48 + word_of_nat n :: u8) \<noteq> 48"
      using "1.prems" by auto
    with True show ?thesis by (subst dec_text.simps) simp
  next
    case False
    then show ?thesis using "1.IH" by (subst dec_text.simps) simp
  qed
qed

section \<open>Sinks\<close>

locale byte_sink =
  fixes putc :: "u8 \<Rightarrow> 's \<Rightarrow> 's res" and good :: "'s \<Rightarrow> bool"
  assumes putc_total: "good s \<Longrightarrow> \<exists>s'. putc b s = Inr s' \<and> good s'"
begin

lemma emit_total: "good s \<Longrightarrow> \<exists>s'. emit putc bs s = Inr s' \<and> good s'"
proof (induction bs arbitrary: s)
  case Nil
  then show ?case by simp
next
  case (Cons b bs)
  from putc_total [OF Cons.prems] obtain s' where "putc b s = Inr s'" "good s'" by blast
  with Cons.IH [of s'] show ?case by simp
qed

lemma put_dec_total:
  "good s \<Longrightarrow> n < 10 ^ cap \<Longrightarrow> \<exists>s'. put_dec pr cap putc n s = Inr s' \<and> good s'"
  by (simp add: put_dec_eq emit_total)

lemma put_hex64_total: "good s \<Longrightarrow> \<exists>s'. put_hex64 putc v s = Inr s' \<and> good s'"
  by (simp add: put_hex64_eq emit_total)

end

locale logged_sink = byte_sink +
  fixes log :: "'s \<Rightarrow> u8 list"
  assumes putc_log: "good s \<Longrightarrow> putc b s = Inr s' \<Longrightarrow> log s' = log s @ [b]"
begin

lemma emit_log: "good s \<Longrightarrow> \<exists>s'. emit putc bs s = Inr s' \<and> good s' \<and> log s' = log s @ bs"
proof (induction bs arbitrary: s)
  case Nil
  then show ?case by simp
next
  case (Cons b bs)
  from putc_total [OF Cons.prems] obtain s' where s': "putc b s = Inr s'" "good s'" by blast
  with putc_log [OF Cons.prems] have "log s' = log s @ [b]" by blast
  with s' Cons.IH [of s'] show ?case by auto
qed

lemma put_dec_log:
  "good s \<Longrightarrow> n < 10 ^ cap \<Longrightarrow>
     \<exists>s'. put_dec pr cap putc n s = Inr s' \<and> good s' \<and> log s' = log s @ dec_text n"
  by (simp add: put_dec_eq emit_log)

lemma put_hex64_log:
  "good s \<Longrightarrow> \<exists>s'. put_hex64 putc v s = Inr s' \<and> good s' \<and> log s' = log s @ hex_text v"
  by (simp add: put_hex64_eq emit_log)

end

end
