(* ===== verification/Serial.thy ===== *)
theory Serial
  imports Format
begin

text \<open>
  Port I/O (\<open>inb\<close>, \<open>outb\<close> of \<open>device/keyboard.rs\<close>) and the serial port driver
  (\<open>device/serial.rs\<close>).

  The record \<open>machine\<close> is the root of the kernel's global state: each component extends it with
  its own \<open>static mut\<close> variables. Its fields are the history of port accesses and the device
  behind the ports, a parameter: the byte a read returns is some function of the port and of
  everything that happened on the bus before. The driver's busy-wait may therefore never end;
  \<open>uart_ready\<close> says that the UART's transmit buffer always drains in the end.
\<close>

section \<open>Ports\<close>

datatype io_event = In u16 u8 | Out u16 u8

record machine =
  dev_in :: "io_event list \<Rightarrow> u16 \<Rightarrow> u8"
  io_log :: "io_event list"

definition inb :: "u16 \<Rightarrow> 'a machine_scheme \<Rightarrow> u8 \<times> 'a machine_scheme" where
  "inb port s = (let v = dev_in s (io_log s) port in (v, s\<lparr>io_log := io_log s @ [In port v]\<rparr>))"

definition outb :: "u16 \<Rightarrow> u8 \<Rightarrow> 'a machine_scheme \<Rightarrow> 'a machine_scheme" where
  "outb port v s = s\<lparr>io_log := io_log s @ [Out port v]\<rparr>"

section \<open>The driver\<close>

definition COM1 :: u16 where
  "COM1 = 0x3F8"

definition serial_init :: "'a machine_scheme \<Rightarrow> 'a machine_scheme" where
  "serial_init s =
     outb (COM1 + 4) 0x0B (outb (COM1 + 2) 0xC7 (outb (COM1 + 3) 0x03 (outb (COM1 + 1) 0x00
       (outb (COM1 + 0) 0x03 (outb (COM1 + 3) 0x80 (outb (COM1 + 1) 0x00 s))))))"

partial_function (option) wait_ready :: "'a machine_scheme \<Rightarrow> 'a machine_scheme option" where
  "wait_ready s =
     (case inb (COM1 + 5) s of (v, s) \<Rightarrow> if v AND 0x20 = 0 then wait_ready s else Some s)"

definition serial_putc :: "u8 \<Rightarrow> 'a machine_scheme \<Rightarrow> 'a machine_scheme res" where
  "serial_putc c s = (case wait_ready s of None \<Rightarrow> Inl Hang | Some s \<Rightarrow> Inr (outb COM1 c s))"

fun serial_print_bytes :: "u8 list \<Rightarrow> 'a machine_scheme \<Rightarrow> 'a machine_scheme res" where
  "serial_print_bytes [] s = Inr s"
| "serial_print_bytes (b # bs) s =
     andThen (if b = 10 then serial_putc 13 s else Inr s) (\<lambda>s.
     andThen (serial_putc b s) (\<lambda>s. serial_print_bytes bs s))"

definition serial_print :: "string \<Rightarrow> 'a machine_scheme \<Rightarrow> 'a machine_scheme res" where
  "serial_print str s = serial_print_bytes (map of_char str) s"

definition serial_print_hex64 :: "u64 \<Rightarrow> 'a machine_scheme \<Rightarrow> 'a machine_scheme res" where
  "serial_print_hex64 v s = andThen (serial_print ''0x'' s) (put_hex64 serial_putc v)"

definition serial_print_usize :: "profile \<Rightarrow> nat \<Rightarrow> 'a machine_scheme \<Rightarrow> 'a machine_scheme res" where
  "serial_print_usize pr v s = put_dec pr 20 serial_putc v s"

section \<open>The busy-wait\<close>

text \<open>The bus history after \<open>k\<close> polls of the line status register that saw a full buffer.\<close>

fun polls :: "(io_event list \<Rightarrow> u16 \<Rightarrow> u8) \<Rightarrow> io_event list \<Rightarrow> nat \<Rightarrow> io_event list" where
  "polls d l 0 = l"
| "polls d l (Suc k) = polls d (l @ [In (COM1 + 5) (d l (COM1 + 5))]) k"

definition uart_ready :: "(io_event list \<Rightarrow> u16 \<Rightarrow> u8) \<Rightarrow> bool" where
  "uart_ready d \<longleftrightarrow> (\<forall>l. \<exists>k. d (polls d l k) (COM1 + 5) AND 0x20 \<noteq> 0)"

definition wait_log :: "(io_event list \<Rightarrow> u16 \<Rightarrow> u8) \<Rightarrow> io_event list \<Rightarrow> io_event list" where
  "wait_log d l = polls d l (Suc (LEAST k. d (polls d l k) (COM1 + 5) AND 0x20 \<noteq> 0))"

fun tx_log ::
    "(io_event list \<Rightarrow> u16 \<Rightarrow> u8) \<Rightarrow> io_event list \<Rightarrow> u8 list \<Rightarrow> io_event list" where
  "tx_log d l [] = l"
| "tx_log d l (b # bs) = tx_log d (wait_log d l @ [Out COM1 b]) bs"

abbreviation serial_good :: "'a machine_scheme \<Rightarrow> bool" where
  "serial_good s \<equiv> uart_ready (dev_in s)"

lemma wait_ready_first:
  assumes "d (polls d (io_log s) k) (COM1 + 5) AND 0x20 \<noteq> 0"
    and "\<forall>j<k. d (polls d (io_log s) j) (COM1 + 5) AND 0x20 = 0"
    and "dev_in s = d"
  shows "wait_ready s = Some (s\<lparr>io_log := polls d (io_log s) (Suc k)\<rparr>)"
  using assms
proof (induction k arbitrary: s)
  case 0
  then show ?case by (subst wait_ready.simps) (simp add: inb_def Let_def)
next
  case (Suc k)
  let ?s = "s\<lparr>io_log := io_log s @ [In (COM1 + 5) (d (io_log s) (COM1 + 5))]\<rparr>"
  have "d (polls d (io_log ?s) k) (COM1 + 5) AND 0x20 \<noteq> 0"
    using Suc.prems(1) by simp
  moreover have "\<forall>j<k. d (polls d (io_log ?s) j) (COM1 + 5) AND 0x20 = 0"
  proof (intro allI impI)
    fix j assume "j < k"
    then show "d (polls d (io_log ?s) j) (COM1 + 5) AND 0x20 = 0"
      using Suc.prems(2) [rule_format, of "Suc j"] by simp
  qed
  ultimately have "wait_ready ?s = Some (?s\<lparr>io_log := polls d (io_log ?s) (Suc k)\<rparr>)"
    using Suc.prems(3) by (intro Suc.IH) simp_all
  moreover have "d (io_log s) (COM1 + 5) AND 0x20 = 0"
    using Suc.prems(2) [rule_format, of 0] by simp
  ultimately show ?case
    using Suc.prems(3) by (subst wait_ready.simps) (simp add: inb_def Let_def)
qed

lemma wait_ready_eq:
  assumes "serial_good s"
  shows "wait_ready s = Some (s\<lparr>io_log := wait_log (dev_in s) (io_log s)\<rparr>)"
proof -
  let ?P = "\<lambda>k. dev_in s (polls (dev_in s) (io_log s) k) (COM1 + 5) AND 0x20 \<noteq> 0"
  from assms obtain k where k: "?P k" by (auto simp: uart_ready_def)
  show ?thesis
    unfolding wait_log_def
  proof (rule wait_ready_first [OF LeastI [of ?P, OF k] _ refl])
    show "\<forall>j<LEAST k. ?P k. dev_in s (polls (dev_in s) (io_log s) j) (COM1 + 5) AND 0x20 = 0"
      using not_less_Least [of _ ?P] by blast
  qed
qed

lemma wait_ready_returns:
  assumes "wait_ready s = Some s'"
  shows "\<exists>k. dev_in s (polls (dev_in s) (io_log s) k) (COM1 + 5) AND 0x20 \<noteq> 0"
proof (rule wait_ready.raw_induct [OF _ assms,
      where P = "\<lambda>s s'. \<exists>k. dev_in s (polls (dev_in s) (io_log s) k) (COM1 + 5) AND 0x20 \<noteq> 0"])
  fix f and s s' :: "'a machine_scheme"
  assume IH: "\<And>s s'. f s = Some s' \<Longrightarrow>
      \<exists>k. dev_in s (polls (dev_in s) (io_log s) k) (COM1 + 5) AND 0x20 \<noteq> 0"
    and eq: "(case inb (COM1 + 5) s of (v, s) \<Rightarrow> if v AND 0x20 = 0 then f s else Some s) = Some s'"
  let ?l = "io_log s" and ?d = "dev_in s"
  show "\<exists>k. ?d (polls ?d ?l k) (COM1 + 5) AND 0x20 \<noteq> 0"
  proof (cases "?d ?l (COM1 + 5) AND 0x20 = 0")
    case True
    with eq have "f (s\<lparr>io_log := ?l @ [In (COM1 + 5) (?d ?l (COM1 + 5))]\<rparr>) = Some s'"
      by (simp add: inb_def Let_def)
    from IH [OF this] obtain k where
      "?d (polls ?d (?l @ [In (COM1 + 5) (?d ?l (COM1 + 5))]) k) (COM1 + 5) AND 0x20 \<noteq> 0"
      by auto
    then show ?thesis by (intro exI [of _ "Suc k"]) simp
  next
    case False
    then show ?thesis by (intro exI [of _ 0]) simp
  qed
qed

section \<open>What the driver sends\<close>

definition crlf :: "u8 list \<Rightarrow> u8 list" where
  "crlf bs = concat (map (\<lambda>b. if b = 10 then [13, 10] else [b]) bs)"

text \<open>The bytes written to the transmit register, in order.\<close>

definition com1_out :: "io_event list \<Rightarrow> u8 list" where
  "com1_out l = concat (map (\<lambda>e. case e of Out p v \<Rightarrow> if p = COM1 then [v] else [] | In p v \<Rightarrow> []) l)"

lemma com1_out_simps [simp]:
  "com1_out [] = []"
  "com1_out (l @ l') = com1_out l @ com1_out l'"
  "com1_out [In p v] = []"
  "com1_out [Out COM1 v] = [v]"
  by (simp_all add: com1_out_def)

lemma com1_out_polls [simp]: "com1_out (polls d l k) = com1_out l"
  by (induction d l k rule: polls.induct) simp_all

lemma com1_out_wait_log [simp]: "com1_out (wait_log d l) = com1_out l"
  by (simp add: wait_log_def del: polls.simps)

lemma com1_out_tx_log [simp]: "com1_out (tx_log d l bs) = com1_out l @ bs"
  by (induction d l bs rule: tx_log.induct) simp_all

lemma tx_log_append: "tx_log d l (as @ bs) = tx_log d (tx_log d l as) bs"
  by (induction d l as rule: tx_log.induct) simp_all

lemma serial_putc_eq:
  "serial_good s \<Longrightarrow> serial_putc b s = Inr (s\<lparr>io_log := tx_log (dev_in s) (io_log s) [b]\<rparr>)"
  by (simp add: serial_putc_def wait_ready_eq outb_def)

lemma emit_serial_eq:
  "serial_good s \<Longrightarrow>
     emit serial_putc bs s = Inr (s\<lparr>io_log := tx_log (dev_in s) (io_log s) bs\<rparr>)"
  by (induction bs arbitrary: s) (simp_all add: serial_putc_eq)

lemma serial_print_bytes_eq:
  "serial_good s \<Longrightarrow>
     serial_print_bytes bs s = Inr (s\<lparr>io_log := tx_log (dev_in s) (io_log s) (crlf bs)\<rparr>)"
  by (induction bs arbitrary: s) (simp_all add: serial_putc_eq crlf_def)

lemma serial_print_eq:
  "serial_good s \<Longrightarrow>
     serial_print str s = Inr (s\<lparr>io_log := tx_log (dev_in s) (io_log s) (crlf (map of_char str))\<rparr>)"
  by (simp add: serial_print_def serial_print_bytes_eq)

lemma serial_print_usize_eq:
  "serial_good s \<Longrightarrow> v < usize_lim \<Longrightarrow>
     serial_print_usize pr v s = Inr (s\<lparr>io_log := tx_log (dev_in s) (io_log s) (dec_text v)\<rparr>)"
  by (simp add: serial_print_usize_def put_dec_eq emit_serial_eq)

lemma serial_print_hex64_eq:
  "serial_good s \<Longrightarrow>
     serial_print_hex64 v s =
       Inr (s\<lparr>io_log := tx_log (dev_in s) (io_log s) (crlf (map of_char ''0x'') @ hex_text v)\<rparr>)"
  by (simp add: serial_print_hex64_def serial_print_eq put_hex64_eq emit_serial_eq
      tx_log_append del: list.map)

text \<open>The text of a message sent by several calls; the other fields are untouched.\<close>

lemmas serial_eqs = serial_putc_eq emit_serial_eq serial_print_eq serial_print_usize_eq
  serial_print_hex64_eq

interpretation com1: logged_sink serial_putc serial_good "\<lambda>s. com1_out (io_log s)"
  by unfold_locales (auto simp: serial_putc_eq)

end
