(* ===== verification/Pmm.thy ===== *)
theory Pmm
  imports Serial
begin

text \<open>
  The physical page allocator (\<open>memory/pmm.rs\<close>): a bitmap with one bit per page frame, set
  when the frame is in use. Its \<open>static mut\<close> variables are the fields \<open>pmm_state\<close> adds to
  the machine; \<open>bitmap\<close> is the memory behind \<open>BITMAP_PTR\<close>, \<open>BITMAP_LEN\<close> bytes once
  \<open>init_pmm\<close> has run. A bitmap access outside it is \<open>WildAccess\<close>.

  The Limine memory map is a parameter (\<open>memmap_entry\<close> has the fields the code reads, the
  number of the usable type is an argument). The abstract view is \<open>free_pages\<close>, the set of
  frames whose bit is clear; the locale \<open>frame_allocator\<close> is what the page-table code, the
  heap and the task table rely on, interpreted here on the bitmap allocator.
\<close>

section \<open>State\<close>

definition PAGE_SIZE :: nat where
  [simp]: "PAGE_SIZE = 4096"

record pmm_state = machine +
  bitmap_ptr :: nat
  bitmap :: "u8 list"
  bitmap_len :: nat
  total_pages :: nat
  free_count :: nat
  usable_page :: nat

record memmap_entry =
  base :: nat
  len_bytes :: nat
  entry_type :: nat

section \<open>The bitmap\<close>

definition bm_read :: "nat \<Rightarrow> 'a pmm_state_scheme \<Rightarrow> u8 res" where
  "bm_read i s =
     (if i < length (bitmap s) then Inr (bitmap s ! i) else Inl (WildAccess (bitmap_ptr s + i)))"

definition bm_write :: "nat \<Rightarrow> u8 \<Rightarrow> 'a pmm_state_scheme \<Rightarrow> 'a pmm_state_scheme res" where
  "bm_write i b s =
     (if i < length (bitmap s) then Inr (s\<lparr>bitmap := (bitmap s)[i := b]\<rparr>)
      else Inl (WildAccess (bitmap_ptr s + i)))"

definition set_used :: "nat \<Rightarrow> 'a pmm_state_scheme \<Rightarrow> 'a pmm_state_scheme res" where
  "set_used page s =
     (let byte = page div 8; bt = page mod 8
      in andThen (bm_read byte s) (\<lambda>b. bm_write byte (b OR push_bit bt 1) s))"

definition set_free :: "nat \<Rightarrow> 'a pmm_state_scheme \<Rightarrow> 'a pmm_state_scheme res" where
  "set_free page s =
     (let byte = page div 8; bt = page mod 8
      in andThen (bm_read byte s) (\<lambda>b. bm_write byte (b AND NOT (push_bit bt 1)) s))"

definition is_used :: "nat \<Rightarrow> 'a pmm_state_scheme \<Rightarrow> bool res" where
  "is_used page s =
     (let byte = page div 8; bt = page mod 8
      in andThen (bm_read byte s) (\<lambda>b. Inr (b AND push_bit bt 1 \<noteq> 0)))"

section \<open>Initialisation from the memory map\<close>

fun highest_end :: "profile \<Rightarrow> memmap_entry list \<Rightarrow> nat \<Rightarrow> nat res" where
  "highest_end pr [] highest = Inr highest"
| "highest_end pr (e # es) highest =
     andThen (uadd pr (base e) (len_bytes e)) (\<lambda>reg_end.
       highest_end pr es (if highest < reg_end then reg_end else highest))"

text \<open>The loop that places the bitmap; 0 when no region fits.\<close>

fun find_bitmap_region :: "profile \<Rightarrow> nat \<Rightarrow> nat \<Rightarrow> memmap_entry list \<Rightarrow> nat res" where
  "find_bitmap_region pr memmap_usable bytes [] = Inr 0"
| "find_bitmap_region pr memmap_usable bytes (e # es) =
     (if entry_type e \<noteq> memmap_usable then find_bitmap_region pr memmap_usable bytes es
      else if bytes \<le> len_bytes e then
        andThen (uadd pr (base e) PAGE_SIZE) (\<lambda>x. andThen (usub pr x 1) (\<lambda>x.
        let aligned = and_not x (PAGE_SIZE - 1) in
        andThen (uadd pr (base e) (len_bytes e)) (\<lambda>reg_end.
        andThen (uadd pr aligned bytes) (\<lambda>need.
          if need \<le> reg_end then Inr aligned
          else find_bitmap_region pr memmap_usable bytes es))))
      else find_bitmap_region pr memmap_usable bytes es)"

text \<open>\<open>for page in first_page..last_page\<close>: the first argument counts the pages left.\<close>

fun free_range ::
    "profile \<Rightarrow> nat \<Rightarrow> nat \<Rightarrow> nat \<Rightarrow> nat \<Rightarrow> 'a pmm_state_scheme \<Rightarrow> 'a pmm_state_scheme res" where
  "free_range pr bitmap_phys bitmap_end 0 page s = Inr s"
| "free_range pr bitmap_phys bitmap_end (Suc n) page s =
     andThen (umul pr page PAGE_SIZE) (\<lambda>phys.
       if phys = 0 then free_range pr bitmap_phys bitmap_end n (Suc page) s
       else if phys < 0x100000 then free_range pr bitmap_phys bitmap_end n (Suc page) s
       else if bitmap_phys \<le> phys \<and> phys < bitmap_end
       then free_range pr bitmap_phys bitmap_end n (Suc page) s
       else if page < total_pages s then
         andThen (set_free page s) (\<lambda>s.
         andThen (uadd pr (free_count s) 1) (\<lambda>fc.
         andThen (uadd pr (usable_page s) 1) (\<lambda>up.
           free_range pr bitmap_phys bitmap_end n (Suc page)
             (s\<lparr>free_count := fc, usable_page := up\<rparr>))))
       else free_range pr bitmap_phys bitmap_end n (Suc page) s)"

fun free_regions ::
    "profile \<Rightarrow> nat \<Rightarrow> nat \<Rightarrow> nat \<Rightarrow> memmap_entry list \<Rightarrow> 'a pmm_state_scheme \<Rightarrow>
       'a pmm_state_scheme res" where
  "free_regions pr memmap_usable bitmap_phys bitmap_end [] s = Inr s"
| "free_regions pr memmap_usable bitmap_phys bitmap_end (e # es) s =
     (if entry_type e \<noteq> memmap_usable
      then free_regions pr memmap_usable bitmap_phys bitmap_end es s
      else
        andThen (uadd pr (base e) (len_bytes e)) (\<lambda>region_end.
        andThen (uadd pr (base e) PAGE_SIZE) (\<lambda>x. andThen (usub pr x 1) (\<lambda>x.
        let first_page = x div PAGE_SIZE; last_page = region_end div PAGE_SIZE in
        andThen (free_range pr bitmap_phys bitmap_end (last_page - first_page) first_page s)
          (free_regions pr memmap_usable bitmap_phys bitmap_end es)))))"

definition init_pmm ::
    "profile \<Rightarrow> nat \<Rightarrow> memmap_entry list option \<Rightarrow> nat \<Rightarrow> 'a pmm_state_scheme \<Rightarrow>
       'a pmm_state_scheme res" where
  "init_pmm pr memmap_usable resp hhdm s =
     (case resp of
        None \<Rightarrow> Inl (Panic ''PMM: Limine did not provide a memory map'')
      | Some entries \<Rightarrow>
          andThen (highest_end pr entries 0) (\<lambda>highest.
          andThen (ensure (0 < highest) ''PMM: memory map is empty'') (\<lambda>_.
          andThen (uadd pr highest PAGE_SIZE) (\<lambda>x. andThen (usub pr x 1) (\<lambda>x.
          let total = x div PAGE_SIZE;
              bytes = (total + 7) div 8;
              pages = (bytes + PAGE_SIZE - 1) div PAGE_SIZE in
          andThen (find_bitmap_region pr memmap_usable bytes entries) (\<lambda>bitmap_phys.
          andThen (ensure (bitmap_phys \<noteq> 0)
            ''PMM: no single usable region is large enough for the bitmap'') (\<lambda>_.
          andThen (uadd pr bitmap_phys hhdm) (\<lambda>bitmap_virt.
          let s = s\<lparr>bitmap_ptr := bitmap_virt, bitmap_len := bytes, total_pages := total,
                    bitmap := replicate bytes 0xff\<rparr> in
          andThen (umul pr pages PAGE_SIZE) (\<lambda>sz.
          andThen (uadd pr bitmap_phys sz) (\<lambda>bitmap_end.
            free_regions pr memmap_usable bitmap_phys bitmap_end entries s))))))))))"

section \<open>Allocation and release\<close>

fun ones_from :: "nat \<Rightarrow> nat \<Rightarrow> u8 \<Rightarrow> nat" where
  "ones_from 0 i b = i"
| "ones_from (Suc n) i b = (if bit b i then ones_from n (Suc i) b else i)"

definition trailing_ones :: "u8 \<Rightarrow> nat" where
  "trailing_ones b = ones_from 8 0 b"

fun alloc_scan ::
    "profile \<Rightarrow> nat \<Rightarrow> nat \<Rightarrow> 'a pmm_state_scheme \<Rightarrow> (nat option \<times> 'a pmm_state_scheme) res" where
  "alloc_scan pr 0 byte_idx s = Inr (None, s)"
| "alloc_scan pr (Suc n) byte_idx s =
     andThen (bm_read byte_idx s) (\<lambda>byte.
       if byte = 0xff then alloc_scan pr n (Suc byte_idx) s
       else
         let page = byte_idx * 8 + trailing_ones byte in
         if total_pages s \<le> page then Inr (None, s)
         else andThen (set_used page s) (\<lambda>s.
              andThen (usub pr (free_count s) 1) (\<lambda>fc.
              andThen (umul pr page PAGE_SIZE) (\<lambda>phys.
                Inr (Some phys, s\<lparr>free_count := fc\<rparr>)))))"

definition alloc_page ::
    "profile \<Rightarrow> 'a pmm_state_scheme \<Rightarrow> (nat option \<times> 'a pmm_state_scheme) res" where
  "alloc_page pr s = alloc_scan pr (bitmap_len s) 0 s"

definition free_page :: "profile \<Rightarrow> nat \<Rightarrow> 'a pmm_state_scheme \<Rightarrow> 'a pmm_state_scheme res" where
  "free_page pr phys s =
     andThen (ensure (phys mod PAGE_SIZE = 0) ''free_page: Address is not page-aligned'') (\<lambda>_.
     let page = phys div PAGE_SIZE in
     andThen (ensure (page < total_pages s) ''free_page: address is beyond tracked range'') (\<lambda>_.
     andThen (is_used page s) (\<lambda>u.
     andThen (ensure u ''free_page: double-free detected at physical address'') (\<lambda>_.
     andThen (set_free page s) (\<lambda>s.
     andThen (uadd pr (free_count s) 1) (\<lambda>fc.
       Inr (s\<lparr>free_count := fc\<rparr>)))))))"

definition get_free_page_count :: "'a pmm_state_scheme \<Rightarrow> nat" where
  "get_free_page_count s = free_count s"

definition get_usable_page_count :: "'a pmm_state_scheme \<Rightarrow> nat" where
  "get_usable_page_count s = usable_page s"

definition get_total_page_count :: "'a pmm_state_scheme \<Rightarrow> nat" where
  "get_total_page_count s = total_pages s"

definition get_free_memory :: "profile \<Rightarrow> 'a pmm_state_scheme \<Rightarrow> nat res" where
  "get_free_memory pr s = umul pr (free_count s) PAGE_SIZE"

definition get_usable_memory :: "profile \<Rightarrow> 'a pmm_state_scheme \<Rightarrow> nat res" where
  "get_usable_memory pr s = umul pr (usable_page s) PAGE_SIZE"

section \<open>Invariant and abstract view\<close>

definition page_bit :: "u8 list \<Rightarrow> nat \<Rightarrow> bool" where
  "page_bit bm p = bit (bm ! (p div 8)) (p mod 8)"

definition free_pages :: "'a pmm_state_scheme \<Rightarrow> nat set" where
  "free_pages s = {p. p < total_pages s \<and> \<not> page_bit (bitmap s) p}"

definition pmm_inv :: "'a pmm_state_scheme \<Rightarrow> bool" where
  "pmm_inv s \<longleftrightarrow>
     length (bitmap s) = bitmap_len s \<and>
     total_pages s \<le> 8 * bitmap_len s \<and>
     (\<forall>p. total_pages s \<le> p \<and> p < 8 * bitmap_len s \<longrightarrow> page_bit (bitmap s) p) \<and>
     free_count s = card (free_pages s) \<and>
     total_pages s * PAGE_SIZE \<le> usize_lim"

definition mark_used :: "nat \<Rightarrow> u8 list \<Rightarrow> u8 list" where
  "mark_used p bm = bm[p div 8 := bm ! (p div 8) OR push_bit (p mod 8) 1]"

definition mark_free :: "nat \<Rightarrow> u8 list \<Rightarrow> u8 list" where
  "mark_free p bm = bm[p div 8 := bm ! (p div 8) AND NOT (push_bit (p mod 8) 1)]"

lemma length_mark [simp]: "length (mark_used p bm) = length bm" "length (mark_free p bm) = length bm"
  by (simp_all add: mark_used_def mark_free_def)

lemma div_mod_8_eq: "p div 8 = q div 8 \<Longrightarrow> p mod 8 = q mod 8 \<longleftrightarrow> p = q" for p q :: nat
  by (metis div_mult_mod_eq)

lemma page_bit_mark_used:
  "p div 8 < length bm \<Longrightarrow> page_bit (mark_used p bm) q \<longleftrightarrow> q = p \<or> page_bit bm q"
  using div_mod_8_eq [of q p]
  by (auto simp: page_bit_def mark_used_def nth_list_update_if bit_or_exp)

lemma page_bit_mark_free:
  "p div 8 < length bm \<Longrightarrow> page_bit (mark_free p bm) q \<longleftrightarrow> q \<noteq> p \<and> page_bit bm q"
  using div_mod_8_eq [of q p]
  by (auto simp: page_bit_def mark_free_def nth_list_update_if bit_and_not_exp)

lemma set_used_eq:
  "p div 8 < length (bitmap s) \<Longrightarrow> set_used p s = Inr (s\<lparr>bitmap := mark_used p (bitmap s)\<rparr>)"
  by (simp add: set_used_def Let_def bm_read_def bm_write_def mark_used_def)

lemma set_free_eq:
  "p div 8 < length (bitmap s) \<Longrightarrow> set_free p s = Inr (s\<lparr>bitmap := mark_free p (bitmap s)\<rparr>)"
  by (simp add: set_free_def Let_def bm_read_def bm_write_def mark_free_def)

lemma is_used_eq:
  "p div 8 < length (bitmap s) \<Longrightarrow> is_used p s = Inr (page_bit (bitmap s) p)"
  by (simp add: is_used_def Let_def bm_read_def page_bit_def and_exp_neq_0)

lemma finite_free_pages [simp]: "finite (free_pages s)"
  by (rule finite_subset [of _ "{..<total_pages s}"]) (auto simp: free_pages_def)

lemma free_pages_lt: "p \<in> free_pages s \<Longrightarrow> p < total_pages s"
  by (simp add: free_pages_def)

lemma pmm_inv_byte:
  "pmm_inv s \<Longrightarrow> p < total_pages s \<Longrightarrow> p div 8 < length (bitmap s)"
  by (auto simp: pmm_inv_def)

lemma pmm_inv_phys: "pmm_inv s \<Longrightarrow> p < total_pages s \<Longrightarrow> p * PAGE_SIZE < usize_lim"
  by (auto simp: pmm_inv_def)

lemma free_pages_lim:
  assumes "pmm_inv s"
  shows "card (free_pages s) * PAGE_SIZE \<le> usize_lim"
proof -
  have "card (free_pages s) \<le> total_pages s"
    using card_mono [of "{..<total_pages s}" "free_pages s"] by (auto simp: free_pages_def)
  with assms show ?thesis by (auto simp: pmm_inv_def)
qed

lemma page_bit_iff_free:
  "p < total_pages s \<Longrightarrow> page_bit (bitmap s) p \<longleftrightarrow> p \<notin> free_pages s"
  by (simp add: free_pages_def)

text \<open>Taking a frame out of the free set and putting one back, with the counter.\<close>

definition take_page :: "nat \<Rightarrow> 'a pmm_state_scheme \<Rightarrow> 'a pmm_state_scheme" where
  "take_page p s = s\<lparr>bitmap := mark_used p (bitmap s), free_count := free_count s - 1\<rparr>"

definition put_page :: "nat \<Rightarrow> 'a pmm_state_scheme \<Rightarrow> 'a pmm_state_scheme" where
  "put_page p s = s\<lparr>bitmap := mark_free p (bitmap s), free_count := free_count s + 1\<rparr>"

lemma free_pages_take:
  "pmm_inv s \<Longrightarrow> p < total_pages s \<Longrightarrow> free_pages (take_page p s) = free_pages s - {p}"
  by (auto simp: free_pages_def take_page_def page_bit_mark_used pmm_inv_byte)

lemma free_pages_put:
  "pmm_inv s \<Longrightarrow> p < total_pages s \<Longrightarrow> free_pages (put_page p s) = insert p (free_pages s)"
  by (auto simp: free_pages_def put_page_def page_bit_mark_free pmm_inv_byte)

lemma pmm_inv_take:
  assumes "pmm_inv s" "p \<in> free_pages s"
  shows "pmm_inv (take_page p s)"
proof -
  have p: "p < total_pages s" using assms(2) by (rule free_pages_lt)
  have "card (free_pages (take_page p s)) = free_count s - 1"
    using assms by (simp add: free_pages_take p pmm_inv_def)
  moreover have "page_bit (mark_used p (bitmap s)) q" if "page_bit (bitmap s) q" for q
    using that pmm_inv_byte [OF assms(1) p] by (simp add: page_bit_mark_used)
  ultimately show ?thesis
    using assms(1) by (auto simp: pmm_inv_def take_page_def)
qed

lemma pmm_inv_put:
  assumes "pmm_inv s" "p < total_pages s" "p \<notin> free_pages s"
  shows "pmm_inv (put_page p s)"
proof -
  have "card (free_pages (put_page p s)) = free_count s + 1"
    using assms by (simp add: free_pages_put pmm_inv_def)
  moreover have "page_bit (mark_free p (bitmap s)) q"
    if "page_bit (bitmap s) q" "total_pages s \<le> q" for q
    using that assms(2) pmm_inv_byte [OF assms(1,2)] by (simp add: page_bit_mark_free)
  ultimately show ?thesis
    using assms(1) by (auto simp: pmm_inv_def put_page_def)
qed

section \<open>What allocation and release do\<close>

lemma ones_from_spec:
  "i \<le> ones_from n i b \<and> ones_from n i b \<le> i + n \<and>
   (\<forall>j. i \<le> j \<and> j < ones_from n i b \<longrightarrow> bit b j) \<and>
   (ones_from n i b < i + n \<longrightarrow> \<not> bit b (ones_from n i b))"
proof (induction n i b rule: ones_from.induct)
  case (2 n i b)
  show ?case
  proof (cases "bit b i")
    case True
    with "2.IH" have *: "Suc i \<le> ones_from n (Suc i) b" "ones_from n (Suc i) b \<le> Suc i + n"
      "\<And>j. Suc i \<le> j \<Longrightarrow> j < ones_from n (Suc i) b \<Longrightarrow> bit b j"
      "ones_from n (Suc i) b < Suc i + n \<Longrightarrow> \<not> bit b (ones_from n (Suc i) b)"
      by auto
    have "bit b j" if "i \<le> j" "j < ones_from n (Suc i) b" for j
      using True *(3) [of j] that by (cases "j = i") auto
    with True * show ?thesis by auto
  next
    case False
    then show ?thesis by auto
  qed
qed auto

lemma trailing_ones_spec:
  assumes "b \<noteq> 0xff"
  shows "trailing_ones b < 8" "\<not> bit b (trailing_ones b)" "j < trailing_ones b \<Longrightarrow> bit b j"
proof -
  have *: "trailing_ones b < 8"
  proof (rule ccontr)
    assume "\<not> trailing_ones b < 8"
    then have all: "bit b j" if "j < 8" for j
      using ones_from_spec [of 0 8 b] that by (auto simp: trailing_ones_def)
    then have "b = 0xff"
      using bit_0xff by (auto intro!: bit_word_eqI)
    with assms show False by simp
  qed
  show "trailing_ones b < 8" by (rule *)
  show "\<not> bit b (trailing_ones b)" and "j < trailing_ones b \<Longrightarrow> bit b j"
    using * ones_from_spec [of 0 8 b] by (auto simp: trailing_ones_def)
qed

lemma alloc_scan_eq:
  assumes "pmm_inv s" "i + n = bitmap_len s" "\<forall>p < 8 * i. page_bit (bitmap s) p"
  shows "alloc_scan pr n i s =
    (if free_pages s = {} then Inr (None, s)
     else Inr (Some (Min (free_pages s) * PAGE_SIZE), take_page (Min (free_pages s)) s))"
  using assms
proof (induction n arbitrary: i)
  case 0
  then have "free_pages s = {}"
    by (auto simp: free_pages_def pmm_inv_def)
  then show ?case by simp
next
  case (Suc n)
  let ?b = "bitmap s ! i"
  have i: "i < length (bitmap s)" using Suc.prems by (auto simp: pmm_inv_def)
  have bits: "page_bit (bitmap s) (8 * i + j) \<longleftrightarrow> bit ?b j" if "j < 8" for j
    using that by (simp add: page_bit_def)
  show ?case
  proof (cases "?b = 0xff")
    case True
    have "page_bit (bitmap s) p" if "p < 8 * Suc i" for p
    proof (cases "p < 8 * i")
      case False
      with that bits [of "p - 8 * i"] True bit_0xff show ?thesis by auto
    qed (use Suc.prems in blast)
    with Suc.IH [of "Suc i"] Suc.prems True i show ?thesis by (simp add: bm_read_def)
  next
    case False
    let ?p = "i * 8 + trailing_ones ?b"
    note t = trailing_ones_spec [OF False]
    have np: "\<not> page_bit (bitmap s) ?p"
      using bits [OF t(1)] t(2) by (simp add: mult.commute)
    have lt: "?p < total_pages s"
    proof (rule ccontr)
      assume "\<not> ?p < total_pages s"
      moreover have "?p < 8 * bitmap_len s" using i t(1) Suc.prems(1) by (auto simp: pmm_inv_def)
      ultimately show False using np Suc.prems(1) by (auto simp: pmm_inv_def)
    qed
    have fp: "?p \<in> free_pages s" using np lt by (simp add: free_pages_def)
    have mn: "Min (free_pages s) = ?p"
    proof (rule Min_eqI [OF finite_free_pages _ fp])
      fix q assume q: "q \<in> free_pages s"
      show "?p \<le> q"
      proof (rule ccontr)
        assume "\<not> ?p \<le> q"
        moreover have "\<not> q < 8 * i" using q Suc.prems(3) by (auto simp: free_pages_def)
        ultimately have "q - 8 * i < trailing_ones ?b" "8 * i + (q - 8 * i) = q" by auto
        then show False
          using q bits [of "q - 8 * i"] t(1) t(3) [of "q - 8 * i"] by (auto simp: free_pages_def)
      qed
    qed
    have "0 < free_count s"
      using fp Suc.prems(1) by (auto simp: pmm_inv_def card_gt_0_iff)
    moreover have "?p * PAGE_SIZE < usize_lim" by (rule pmm_inv_phys [OF Suc.prems(1) lt])
    ultimately show ?thesis
      using False i lt fp mn pmm_inv_byte [OF Suc.prems(1) lt]
      by (auto simp: bm_read_def Let_def set_used_eq take_page_def)
  qed
qed

text \<open>The allocator hands out the lowest free frame, and \<open>None\<close> when there is none.\<close>

lemma alloc_page_eq:
  "pmm_inv s \<Longrightarrow>
     alloc_page pr s =
       (if free_pages s = {} then Inr (None, s)
        else Inr (Some (Min (free_pages s) * PAGE_SIZE), take_page (Min (free_pages s)) s))"
  by (simp add: alloc_page_def alloc_scan_eq)

lemma free_page_eq:
  assumes "pmm_inv s"
  shows "free_page pr phys s =
    (if phys mod PAGE_SIZE \<noteq> 0
     then Inl (Panic ''free_page: Address is not page-aligned'')
     else if total_pages s \<le> phys div PAGE_SIZE
     then Inl (Panic ''free_page: address is beyond tracked range'')
     else if phys div PAGE_SIZE \<in> free_pages s
     then Inl (Panic ''free_page: double-free detected at physical address'')
     else Inr (put_page (phys div PAGE_SIZE) s))"
proof -
  have "free_count s + 1 < usize_lim"
    using assms free_pages_lim [OF assms] by (auto simp: pmm_inv_def)
  then show ?thesis
    using assms pmm_inv_byte [OF assms, of "phys div PAGE_SIZE"]
    by (auto simp: free_page_def ensure_def Let_def is_used_eq set_free_eq put_page_def
        page_bit_iff_free)
qed

lemma put_take_page:
  assumes "pmm_inv s" "p \<in> free_pages s"
  shows "put_page p (take_page p s) = s"
proof -
  have p: "p div 8 < length (bitmap s)"
    using assms by (intro pmm_inv_byte free_pages_lt)
  have nb: "\<not> bit (bitmap s ! (p div 8)) (p mod 8)"
    using assms(2) by (simp add: free_pages_def page_bit_def)
  have "mark_free p (mark_used p (bitmap s)) = bitmap s"
  proof (rule nth_equalityI)
    fix i assume "i < length (mark_free p (mark_used p (bitmap s)))"
    moreover have "(bitmap s ! (p div 8) OR push_bit (p mod 8) 1) AND NOT (push_bit (p mod 8) 1) =
        bitmap s ! (p div 8)"
      using nb by (auto intro!: bit_word_eqI simp: bit_simps)
    ultimately show "mark_free p (mark_used p (bitmap s)) ! i = bitmap s ! i"
      using p by (auto simp: mark_free_def mark_used_def nth_list_update_if)
  qed simp
  moreover have "0 < free_count s"
    using assms by (auto simp: pmm_inv_def card_gt_0_iff)
  ultimately show ?thesis by (simp add: put_page_def take_page_def)
qed

section \<open>The interface: a frame allocator\<close>

text \<open>
  What the page tables, the heap and the task table rely on. \<open>avail s\<close> is the set of physical
  addresses the allocator may still hand out.
\<close>

text \<open>
  A client history: frames are taken from the allocator and given back; \<open>held\<close> is what the
  clients hold.
\<close>

inductive alloc_run ::
    "('s \<Rightarrow> (nat option \<times> 's) res) \<Rightarrow> (nat \<Rightarrow> 's \<Rightarrow> 's res) \<Rightarrow> 's \<Rightarrow> 's \<Rightarrow> nat set \<Rightarrow> bool"
  for alloc release s0 where
  start: "alloc_run alloc release s0 s0 {}"
| take: "alloc_run alloc release s0 s held \<Longrightarrow> alloc s = Inr (Some a, s') \<Longrightarrow>
    alloc_run alloc release s0 s' (insert a held)"
| fail: "alloc_run alloc release s0 s held \<Longrightarrow> alloc s = Inr (None, s') \<Longrightarrow>
    alloc_run alloc release s0 s' held"
| give: "alloc_run alloc release s0 s held \<Longrightarrow> a \<in> held \<Longrightarrow> release a s = Inr s' \<Longrightarrow>
    alloc_run alloc release s0 s' (held - {a})"

locale frame_allocator =
  fixes alloc :: "'s \<Rightarrow> (nat option \<times> 's) res"
    and release :: "nat \<Rightarrow> 's \<Rightarrow> 's res"
    and avail :: "'s \<Rightarrow> nat set"
    and frames :: "'s \<Rightarrow> nat set"
    and good :: "'s \<Rightarrow> bool"
  assumes avail_frames: "good s \<Longrightarrow> avail s \<subseteq> frames s"
    and alloc_some: "good s \<Longrightarrow> avail s \<noteq> {} \<Longrightarrow>
      \<exists>a s'. alloc s = Inr (Some a, s') \<and> a \<in> avail s \<and> avail s' = avail s - {a} \<and>
          frames s' = frames s \<and> good s'"
    and alloc_none: "good s \<Longrightarrow> avail s = {} \<Longrightarrow> alloc s = Inr (None, s)"
    and release_undo: "good s \<Longrightarrow> alloc s = Inr (Some a, s') \<Longrightarrow> release a s' = Inr s"
    and release_taken: "good s \<Longrightarrow> a \<in> frames s \<Longrightarrow> a \<notin> avail s \<Longrightarrow>
      \<exists>s'. release a s = Inr s' \<and> avail s' = insert a (avail s) \<and> frames s' = frames s \<and> good s'"
begin

lemma alloc_cases:
  assumes "good s"
  obtains (oom) "avail s = {}" "alloc s = Inr (None, s)"
  | (frame) a s' where "alloc s = Inr (Some a, s')" "a \<in> avail s" "avail s' = avail s - {a}"
      "frames s' = frames s" "good s'"
  using assms alloc_some alloc_none by (cases "avail s = {}") blast+

lemma alloc_SomeD:
  assumes "good s" "alloc s = Inr (Some a, s')"
  shows "a \<in> avail s" "avail s' = avail s - {a}" "frames s' = frames s" "good s'"
  using assms(2) by (cases rule: alloc_cases [OF assms(1)]; simp)+

lemma alloc_twice_distinct:
  "good s \<Longrightarrow> alloc s = Inr (Some a, s') \<Longrightarrow> alloc s' = Inr (Some b, s'') \<Longrightarrow> a \<noteq> b"
  using alloc_SomeD [of s a s'] alloc_SomeD [of s' b s''] by auto

lemma second_alloc_fails:
  assumes "good s" "alloc s = Inr (Some a, s')" "avail s' = {}"
  shows "alloc s' = Inr (None, s')" "release a s' = Inr s"
  using assms alloc_SomeD [OF assms(1,2)] alloc_none release_undo by blast+

text \<open>Held and available frames always partition what was available at the start.\<close>

lemma alloc_run_partition:
  assumes "alloc_run alloc release s0 s held" "good s0"
  shows "good s \<and> frames s = frames s0 \<and> held \<inter> avail s = {} \<and> held \<union> avail s = avail s0"
  using assms
proof (induction rule: alloc_run.induct)
  case start
  then show ?case by simp
next
  case (take s held a s')
  then have g: "good s" by simp
  from take alloc_SomeD [OF g take.hyps(2)] show ?case by auto
next
  case (fail s held s')
  then have g: "good s" by simp
  from fail show ?case by (cases rule: alloc_cases [OF g]) auto
next
  case (give s held a s')
  then have IH: "good s" "frames s = frames s0" "held \<inter> avail s = {}" "held \<union> avail s = avail s0"
    by auto
  then have "a \<in> frames s" "a \<notin> avail s"
    using give.hyps(2) avail_frames [OF give.prems] by auto
  from release_taken [OF IH(1) this] give.hyps(3) IH show ?case using give.hyps(2) by auto
qed

end

definition avail_frames :: "'a pmm_state_scheme \<Rightarrow> nat set" where
  "avail_frames s = (\<lambda>p. p * PAGE_SIZE) ` free_pages s"

definition all_frames :: "'a pmm_state_scheme \<Rightarrow> nat set" where
  "all_frames s = (\<lambda>p. p * PAGE_SIZE) ` {..<total_pages s}"

lemma avail_frames_empty [simp]: "avail_frames s = {} \<longleftrightarrow> free_pages s = {}"
  by (simp add: avail_frames_def)

lemma avail_frames_take:
  "pmm_inv s \<Longrightarrow> p < total_pages s \<Longrightarrow>
     avail_frames (take_page p s) = avail_frames s - {p * PAGE_SIZE}"
  by (auto simp: avail_frames_def free_pages_take)

lemma Min_free_pages: "free_pages s \<noteq> {} \<Longrightarrow> Min (free_pages s) \<in> free_pages s"
  by (rule Min_in) simp_all

lemma free_page_take:
  assumes "pmm_inv s" "p \<in> free_pages s"
  shows "free_page pr (p * PAGE_SIZE) (take_page p s) = Inr s"
proof -
  have p: "p < total_pages s" using assms(2) by (rule free_pages_lt)
  then have "p < total_pages (take_page p s)" by (simp add: take_page_def)
  moreover have "p \<notin> free_pages (take_page p s)" by (simp add: free_pages_take assms(1) p)
  ultimately show ?thesis
    using put_take_page [OF assms] by (simp add: free_page_eq pmm_inv_take assms)
qed

interpretation pmm: frame_allocator "alloc_page pr" "free_page pr" avail_frames all_frames pmm_inv for pr
proof unfold_locales
  fix s :: "'a pmm_state_scheme"
  show "avail_frames s \<subseteq> all_frames s"
    by (auto simp: avail_frames_def all_frames_def free_pages_def)
next
  fix s :: "'a pmm_state_scheme"
  assume s: "pmm_inv s" "avail_frames s \<noteq> {}"
  let ?p = "Min (free_pages s)"
  have "?p \<in> free_pages s" using s(2) by (intro Min_free_pages) simp
  then show "\<exists>a s'. alloc_page pr s = Inr (Some a, s') \<and> a \<in> avail_frames s \<and>
      avail_frames s' = avail_frames s - {a} \<and> all_frames s' = all_frames s \<and> pmm_inv s'"
    using s by (simp add: alloc_page_eq pmm_inv_take avail_frames_take free_pages_lt)
      (simp add: avail_frames_def all_frames_def take_page_def)
next
  fix s :: "'a pmm_state_scheme"
  assume "pmm_inv s" "avail_frames s = {}"
  then show "alloc_page pr s = Inr (None, s)" by (simp add: alloc_page_eq)
next
  fix s s' :: "'a pmm_state_scheme" and a
  assume "pmm_inv s" "alloc_page pr s = Inr (Some a, s')"
  then show "free_page pr a s' = Inr s"
    using free_page_take [OF _ Min_free_pages] by (auto simp: alloc_page_eq split: if_splits)
next
  fix s :: "'a pmm_state_scheme" and a
  assume s: "pmm_inv s" "a \<in> all_frames s" "a \<notin> avail_frames s"
  then obtain p where p: "a = p * PAGE_SIZE" "p < total_pages s" "p \<notin> free_pages s"
    by (auto simp: all_frames_def avail_frames_def)
  then show "\<exists>s'. free_page pr a s = Inr s' \<and> avail_frames s' = insert a (avail_frames s) \<and>
      all_frames s' = all_frames s \<and> pmm_inv s'"
    using s(1) by (simp add: free_page_eq pmm_inv_put free_pages_put avail_frames_def)
      (simp add: all_frames_def put_page_def)
qed

section \<open>Initialisation is correct\<close>

definition region_pages :: "memmap_entry \<Rightarrow> nat set" where
  "region_pages e =
     {(base e + (PAGE_SIZE - 1)) div PAGE_SIZE ..< (base e + len_bytes e) div PAGE_SIZE}"

definition usable_pages :: "nat \<Rightarrow> memmap_entry list \<Rightarrow> nat set" where
  "usable_pages memmap_usable es =
     (\<Union>e \<in> {e \<in> set es. entry_type e = memmap_usable}. region_pages e)"

text \<open>
  What the Limine protocol says of the memory map: no entry reaches the last page of the
  64-bit space, and usable entries do not overlap.
\<close>

fun memmap_ok :: "nat \<Rightarrow> memmap_entry list \<Rightarrow> bool" where
  "memmap_ok memmap_usable [] \<longleftrightarrow> True"
| "memmap_ok memmap_usable (e # es) \<longleftrightarrow>
     base e + len_bytes e + PAGE_SIZE < usize_lim \<and>
     (entry_type e = memmap_usable \<longrightarrow>
        (\<forall>e' \<in> set es. entry_type e' = memmap_usable \<longrightarrow>
           base e + len_bytes e \<le> base e' \<or> base e' + len_bytes e' \<le> base e)) \<and>
     memmap_ok memmap_usable es"

definition memmap_end :: "memmap_entry list \<Rightarrow> nat" where
  "memmap_end es = foldl max 0 (map (\<lambda>e. base e + len_bytes e) es)"

definition releasable :: "nat \<Rightarrow> nat \<Rightarrow> nat \<Rightarrow> nat \<Rightarrow> bool" where
  "releasable bitmap_phys bitmap_end tot p \<longleftrightarrow>
     0x100000 \<le> p * PAGE_SIZE \<and> \<not> (bitmap_phys \<le> p * PAGE_SIZE \<and> p * PAGE_SIZE < bitmap_end) \<and>
     p < tot"

lemma highest_end_eq:
  "memmap_ok u es \<Longrightarrow>
     highest_end pr es h = Inr (foldl max h (map (\<lambda>e. base e + len_bytes e) es))"
  by (induction es arbitrary: h) (auto simp: max_def)

lemma foldl_max_lim:
  "memmap_ok u es \<Longrightarrow> h + PAGE_SIZE < usize_lim \<Longrightarrow>
     foldl max h (map (\<lambda>e. base e + len_bytes e) es) + PAGE_SIZE < usize_lim"
  by (induction es arbitrary: h) auto

lemma foldl_max_ge: "x \<in> set xs \<or> x \<le> h \<Longrightarrow> x \<le> foldl max h xs" for x h :: nat
proof (induction xs arbitrary: h)
  case (Cons y ys)
  from Cons.prems have "x \<in> set ys \<or> x \<le> max h y" by (auto simp: max_def)
  then have "x \<le> foldl max (max h y) ys" by (rule Cons.IH)
  then show ?case by (simp only: foldl_Cons)
qed simp

lemma memmap_end_ge: "e \<in> set es \<Longrightarrow> base e + len_bytes e \<le> memmap_end es"
  by (auto simp: memmap_end_def intro: foldl_max_ge)

lemma region_pages_disjoint:
  "base e + len_bytes e \<le> base e' \<or> base e' + len_bytes e' \<le> base e \<Longrightarrow>
     region_pages e \<inter> region_pages e' = {}"
  unfolding region_pages_def by auto

lemma put_page_more:
  "total_pages (put_page p s) = total_pages s" "usable_page (put_page p s) = usable_page s"
  "bitmap_ptr (put_page p s) = bitmap_ptr s" "bitmap_len (put_page p s) = bitmap_len s"
  by (simp_all add: put_page_def)

lemma pmm_inv_usable [simp]:
  "pmm_inv (s\<lparr>usable_page := u\<rparr>) = pmm_inv s" "free_pages (s\<lparr>usable_page := u\<rparr>) = free_pages s"
  by (simp_all add: pmm_inv_def free_pages_def)

text \<open>The two release loops: each releasable page of the range joins the free set.\<close>

definition released ::
    "nat set \<Rightarrow> 'a pmm_state_scheme \<Rightarrow> 'a pmm_state_scheme \<Rightarrow> bool" where
  "released P s s' \<longleftrightarrow>
     pmm_inv s' \<and> usable_page s' = free_count s' \<and> free_pages s' = free_pages s \<union> P \<and>
     total_pages s' = total_pages s \<and> bitmap_len s' = bitmap_len s \<and>
     bitmap_ptr s' = bitmap_ptr s"

lemma free_range_released:
  assumes "pmm_inv s" "usable_page s = free_count s" "(page + n) * PAGE_SIZE \<le> usize_lim"
    "{page..<page + n} \<inter> free_pages s = {}"
  shows "\<exists>s'. free_range pr bp be n page s = Inr s' \<and>
     released {p \<in> {page..<page + n}. releasable bp be (total_pages s) p} s s'"
  using assms
proof (induction n arbitrary: page s)
  case 0
  then show ?case by (auto simp: released_def)
next
  case (Suc n)
  let ?R = "\<lambda>page n. {p \<in> {page..<page + n}. releasable bp be (total_pages s) p}"
  have split: "{page..<page + Suc n} = insert page {Suc page..<Suc page + n}" by auto
  have lim: "page * PAGE_SIZE < usize_lim" using Suc.prems(3) by simp
  show ?case
  proof (cases "releasable bp be (total_pages s) page")
    case True
    then have p: "page < total_pages s" by (simp add: releasable_def)
    have nf: "page \<notin> free_pages s" using Suc.prems(4) by (auto simp: disjoint_iff)
    let ?s = "(put_page page s)\<lparr>usable_page := usable_page s + 1\<rparr>"
    have s': "pmm_inv ?s" "free_pages ?s = insert page (free_pages s)"
      "usable_page ?s = free_count ?s" "total_pages ?s = total_pages s"
      "bitmap_len ?s = bitmap_len s" "bitmap_ptr ?s = bitmap_ptr s"
      using Suc.prems(1,2) p nf by (simp_all add: pmm_inv_put free_pages_put put_page_more)
        (simp add: put_page_def)
    have "\<exists>s'. free_range pr bp be n (Suc page) ?s = Inr s' \<and>
        released {q \<in> {Suc page..<Suc page + n}. releasable bp be (total_pages ?s) q} ?s s'"
      using Suc.prems s' by (intro Suc.IH) (auto simp: disjoint_iff)
    then obtain s'' where s'': "free_range pr bp be n (Suc page) ?s = Inr s''"
      "released (?R (Suc page) n) ?s s''"
      using s'(4) by auto
    have fc: "free_count s + 1 < usize_lim"
      using free_pages_lim [OF Suc.prems(1)] Suc.prems(1) by (auto simp: pmm_inv_def)
    have "free_range pr bp be (Suc n) page s = Inr s''"
      using True lim fc Suc.prems(2) s''(1) set_free_eq [OF pmm_inv_byte [OF Suc.prems(1) p]]
      by (auto simp: releasable_def put_page_def)
    moreover have "released (?R page (Suc n)) s s''"
      using s''(2) s' True unfolding released_def split by auto
    ultimately show ?thesis by blast
  next
    case False
    have "\<exists>s'. free_range pr bp be n (Suc page) s = Inr s' \<and> released (?R (Suc page) n) s s'"
      using Suc.prems by (intro Suc.IH) (auto simp: disjoint_iff)
    moreover have "?R page (Suc n) = ?R (Suc page) n" using False unfolding split by auto
    moreover have "free_range pr bp be (Suc n) page s = free_range pr bp be n (Suc page) s"
      using False lim by (auto simp: releasable_def)
    ultimately show ?thesis by simp
  qed
qed

lemma free_regions_released:
  assumes "pmm_inv s" "usable_page s = free_count s" "memmap_ok u es"
    "usable_pages u es \<inter> free_pages s = {}"
  shows "\<exists>s'. free_regions pr u bp be es s = Inr s' \<and>
     released {p \<in> usable_pages u es. releasable bp be (total_pages s) p} s s'"
  using assms
proof (induction es arbitrary: s)
  case Nil
  then show ?case by (auto simp: released_def usable_pages_def)
next
  case (Cons e es)
  let ?R = "\<lambda>P. {p \<in> P. releasable bp be (total_pages s) p}"
  show ?case
  proof (cases "entry_type e = u")
    case False
    then have "usable_pages u (e # es) = usable_pages u es" by (auto simp: usable_pages_def)
    then show ?thesis using False Cons.IH [of s] Cons.prems by simp
  next
    case True
    then have up: "usable_pages u (e # es) = region_pages e \<union> usable_pages u es"
      by (auto simp: usable_pages_def)
    let ?first = "(base e + (PAGE_SIZE - 1)) div PAGE_SIZE"
    let ?last = "(base e + len_bytes e) div PAGE_SIZE"
    have reg: "{?first..<?first + (?last - ?first)} = region_pages e"
      by (auto simp: region_pages_def)
    have lim: "base e + len_bytes e + PAGE_SIZE < usize_lim" using Cons.prems(3) by simp
    then have "(?first + (?last - ?first)) * PAGE_SIZE \<le> usize_lim" by simp
    from free_range_released [OF Cons.prems(1,2) this] obtain s1 where
      s1: "free_range pr bp be (?last - ?first) ?first s = Inr s1"
        "released (?R (region_pages e)) s s1"
      using Cons.prems(4) unfolding reg up by fastforce
    have dis: "usable_pages u es \<inter> region_pages e = {}"
      using Cons.prems(3) True region_pages_disjoint [of _ e] by (fastforce simp: usable_pages_def)
    have "usable_pages u es \<inter> free_pages s1 = {}"
      using s1(2) dis Cons.prems(4) unfolding up released_def by blast
    then obtain s2 where
      s2: "free_regions pr u bp be es s1 = Inr s2" "released (?R (usable_pages u es)) s1 s2"
      using Cons.IH [of s1] Cons.prems(3) s1(2) by (auto simp: released_def)
    have "free_regions pr u bp be (e # es) s = Inr s2"
      using True lim s1(1) s2(1) by (simp add: Let_def add.commute)
    moreover have "released (?R (usable_pages u (e # es))) s s2"
      using s1(2) s2(2) unfolding released_def up by auto
    ultimately show ?thesis by blast
  qed
qed

text \<open>A page-aligned place for the bitmap inside a usable region.\<close>

definition bitmap_fits :: "nat \<Rightarrow> nat \<Rightarrow> memmap_entry list \<Rightarrow> nat \<Rightarrow> bool" where
  "bitmap_fits u bytes es a \<longleftrightarrow> a mod PAGE_SIZE = 0 \<and>
     (\<exists>e \<in> set es. entry_type e = u \<and> base e \<le> a \<and> a + bytes \<le> base e + len_bytes e)"

lemma find_bitmap_region_spec:
  assumes "memmap_ok u es" "bytes + PAGE_SIZE < usize_lim"
  obtains a where "find_bitmap_region pr u bytes es = Inr a" "a = 0 \<or> bitmap_fits u bytes es a"
  using assms(1)
proof (induction es arbitrary: thesis)
  case Nil
  then show ?case by simp
next
  case (Cons e es)
  let ?a = "(4095 + base e) div 4096 * 4096"
  have lim: "base e + len_bytes e + 4096 < usize_lim" using Cons.prems by simp
  then have al: "and_not (4095 + base e) 4095 = ?a" by (simp add: and_not_4095)
  obtain r where r: "find_bitmap_region pr u bytes es = Inr r" "r = 0 \<or> bitmap_fits u bytes es r"
    using Cons.IH Cons.prems(2) by auto
  then have r': "r = 0 \<or> bitmap_fits u bytes (e # es) r" by (auto simp: bitmap_fits_def)
  show ?case
  proof (cases "entry_type e = u \<and> bytes \<le> len_bytes e")
    case True
    have a: "?a \<le> 4095 + base e" "base e \<le> ?a" by linarith+
    with True lim have "?a + bytes < usize_lim" by linarith
    with True lim have *: "find_bitmap_region pr u bytes (e # es) =
        (if ?a + bytes \<le> base e + len_bytes e then Inr ?a else find_bitmap_region pr u bytes es)"
      by (simp add: Let_def al)
    show ?thesis
    proof (cases "?a + bytes \<le> base e + len_bytes e")
      case fits: True
      then have "bitmap_fits u bytes (e # es) ?a" using True a(2) by (auto simp: bitmap_fits_def)
      with * fits show ?thesis by (intro Cons.prems(1) [of ?a]) simp_all
    next
      case False
      show ?thesis by (rule Cons.prems(1) [of r]) (use * False r(1) r' in simp_all)
    qed
  next
    case False
    show ?thesis by (rule Cons.prems(1) [of r]) (use False r(1) r' in simp_all)
  qed
qed

text \<open>The state right after the bitmap is filled with ones.\<close>

definition blank_bitmap :: "nat \<Rightarrow> nat \<Rightarrow> 'a pmm_state_scheme \<Rightarrow> 'a pmm_state_scheme" where
  "blank_bitmap tot virt s =
     s\<lparr>bitmap_ptr := virt, bitmap_len := (tot + 7) div 8, total_pages := tot,
       bitmap := replicate ((tot + 7) div 8) 0xff\<rparr>"

lemma page_bit_replicate:
  assumes "p < 8 * n"
  shows "page_bit (replicate n 0xff) p"
proof -
  have "replicate n (0xff :: u8) ! (p div 8) = 0xff" using assms by (intro nth_replicate) auto
  moreover have "bit (0xff :: u8) (p mod 8)" by (rule bit_0xff) simp
  ultimately show ?thesis by (simp only: page_bit_def)
qed

lemma blank_bitmap_inv:
  assumes "free_count s = 0" "tot * PAGE_SIZE \<le> usize_lim"
  shows "pmm_inv (blank_bitmap tot virt s)" "free_pages (blank_bitmap tot virt s) = {}"
proof -
  have "tot \<le> 8 * ((tot + 7) div 8)" by linarith
  then show *: "free_pages (blank_bitmap tot virt s) = {}"
    by (auto simp: free_pages_def blank_bitmap_def page_bit_replicate)
  show "pmm_inv (blank_bitmap tot virt s)"
    using assms \<open>tot \<le> 8 * ((tot + 7) div 8)\<close> *
    by (auto simp: pmm_inv_def) (auto simp: blank_bitmap_def page_bit_replicate)
qed

definition init_total :: "memmap_entry list \<Rightarrow> nat" where
  "init_total es = (memmap_end es + (PAGE_SIZE - 1)) div PAGE_SIZE"

definition init_bytes :: "memmap_entry list \<Rightarrow> nat" where
  "init_bytes es = (init_total es + 7) div 8"

text \<open>
  A good initial state for a bitmap placed at \<open>bp\<close>: the free frames are exactly the whole
  frames of usable regions at or above 1 MiB that hold no byte of the bitmap's own pages.
\<close>

definition init_good :: "nat \<Rightarrow> memmap_entry list \<Rightarrow> nat \<Rightarrow> 'a pmm_state_scheme \<Rightarrow> bool" where
  "init_good u es bp s \<longleftrightarrow>
     pmm_inv s \<and> usable_page s = free_count s \<and> total_pages s = init_total es \<and>
     bitmap_fits u (bitmap_len s) es bp \<and>
     free_pages s =
       {p \<in> usable_pages u es. 0x100000 \<le> p * PAGE_SIZE \<and>
          \<not> (bp div PAGE_SIZE \<le> p \<and> p * PAGE_SIZE < bp + bitmap_len s)}"

lemma usable_pages_lt:
  assumes "p \<in> usable_pages u es"
  shows "p < init_total es"
proof -
  from assms obtain e where e: "e \<in> set es" "p < (base e + len_bytes e) div PAGE_SIZE"
    by (auto simp: usable_pages_def region_pages_def)
  with memmap_end_ge [OF e(1)] show ?thesis unfolding init_total_def PAGE_SIZE_def by linarith
qed

lemma init_pmm_unfold:
  assumes mm: "memmap_ok u es" "memmap_end es + PAGE_SIZE < usize_lim"
    and bp: "find_bitmap_region pr u (init_bytes es) es = Inr bp"
  shows "init_pmm pr u (Some es) hhdm s =
    andThen (ensure (0 < memmap_end es) ''PMM: memory map is empty'') (\<lambda>_.
    andThen (ensure (bp \<noteq> 0)
      ''PMM: no single usable region is large enough for the bitmap'') (\<lambda>_.
    andThen (uadd pr bp hhdm) (\<lambda>virt.
    andThen (uadd pr bp ((init_bytes es + (PAGE_SIZE - 1)) div PAGE_SIZE * PAGE_SIZE)) (\<lambda>be.
      free_regions pr u bp be es (blank_bitmap (init_total es) virt s)))))"
proof -
  have t: "(4095 + memmap_end es) div 4096 = init_total es" "(init_total es + 7) div 8 = init_bytes es"
    by (simp_all add: init_total_def init_bytes_def add.commute)
  have lim: "(4095 + init_bytes es) div 4096 * 4096 < usize_lim"
    using mm(2) by (simp add: init_bytes_def init_total_def)
  have "init_pmm pr u (Some es) hhdm s =
    andThen (ensure (0 < memmap_end es) ''PMM: memory map is empty'') (\<lambda>_.
    andThen (find_bitmap_region pr u (init_bytes es) es) (\<lambda>bp.
    andThen (ensure (bp \<noteq> 0)
      ''PMM: no single usable region is large enough for the bitmap'') (\<lambda>_.
    andThen (uadd pr bp hhdm) (\<lambda>virt.
    andThen (umul pr ((4095 + init_bytes es) div 4096) 4096) (\<lambda>sz.
    andThen (uadd pr bp sz) (\<lambda>be.
      free_regions pr u bp be es (blank_bitmap (init_total es) virt s)))))))"
    using mm highest_end_eq [OF mm(1), of pr 0]
    by (simp add: init_pmm_def Let_def t blank_bitmap_def flip: memmap_end_def)
  with lim bp show ?thesis by (simp add: add.commute)
qed

lemma round_up_page:
  "p * 4096 < k * 4096 + (b + 4095) div 4096 * 4096 \<longleftrightarrow> p * 4096 < k * 4096 + b" for p k b :: nat
proof -
  let ?c = "(b + 4095) div 4096"
  have c: "b \<le> ?c * 4096" "?c * 4096 \<le> b + 4095" by linarith+
  have "p * 4096 < k * 4096 + ?c * 4096 \<longleftrightarrow> p < k + ?c" by linarith
  moreover have "p * 4096 < k * 4096 + b \<longleftrightarrow> p < k + ?c" using c by linarith
  ultimately show ?thesis by simp
qed

lemma init_pmm_result:
  assumes mm: "memmap_ok u es" and z: "free_count s = 0" "usable_page s = 0"
    and hh: "memmap_end es + hhdm + PAGE_SIZE < usize_lim"
  shows "case init_pmm pr u (Some es) hhdm s of
      Inl e \<Rightarrow> e = Panic ''PMM: memory map is empty'' \<and> memmap_end es = 0 \<or>
              e = Panic ''PMM: no single usable region is large enough for the bitmap'' \<and>
              find_bitmap_region pr u (init_bytes es) es = Inr 0
    | Inr s' \<Rightarrow> \<exists>bp. find_bitmap_region pr u (init_bytes es) es = Inr bp \<and> init_good u es bp s'"
proof -
  let ?h = "memmap_end es" and ?tot = "init_total es" and ?bytes = "init_bytes es"
  have "?tot * 4096 \<le> ?h + 4095" by (simp add: init_total_def)
  moreover have "?bytes \<le> ?tot + 7" unfolding init_bytes_def by (rule div_le_dividend)
  ultimately have tot: "?tot * PAGE_SIZE \<le> usize_lim" "?bytes + PAGE_SIZE < usize_lim"
    using hh by simp_all
  from find_bitmap_region_spec [OF mm tot(2)] obtain bp where
    bp: "find_bitmap_region pr u ?bytes es = Inr bp" "bp = 0 \<or> bitmap_fits u ?bytes es bp" .
  have hl: "?h + PAGE_SIZE < usize_lim" using hh by simp
  note unf = init_pmm_unfold [OF mm hl bp(1), of hhdm s]
  show ?thesis
  proof (cases "?h = 0 \<or> bp = 0")
    case True
    then show ?thesis unfolding unf using bp(1) by (auto simp: ensure_def)
  next
    case False
    then have fits: "bitmap_fits u ?bytes es bp" using bp(2) by simp
    then obtain e where e: "e \<in> set es" "bp + ?bytes \<le> base e + len_bytes e"
      by (auto simp: bitmap_fits_def)
    let ?pages = "(?bytes + (PAGE_SIZE - 1)) div PAGE_SIZE"
    let ?be = "bp + ?pages * PAGE_SIZE"
    let ?s = "blank_bitmap ?tot (bp + hhdm) s"
    have bplim: "bp + ?bytes \<le> ?h" using memmap_end_ge [OF e(1)] e(2) by simp
    have s0: "pmm_inv ?s" "free_pages ?s = {}" by (rule blank_bitmap_inv [OF z(1) tot(1)])+
    moreover have "usable_page ?s = free_count ?s" using z by (simp add: blank_bitmap_def)
    ultimately obtain s' where s': "free_regions pr u bp ?be es ?s = Inr s'"
      "released {p \<in> usable_pages u es. releasable bp ?be (total_pages ?s) p} ?s s'"
      using free_regions_released [of ?s u es pr bp ?be] mm by auto
    have "init_pmm pr u (Some es) hhdm s = Inr s'"
      unfolding unf using False hh bplim s'(1) by simp
    moreover have "init_good u es bp s'"
    proof -
      have bl: "bitmap_len s' = ?bytes" "total_pages s' = ?tot"
        using s'(2) by (simp_all add: released_def blank_bitmap_def init_bytes_def)
      obtain k where k: "bp = k * 4096" using fits by (auto simp: bitmap_fits_def)
      have "p * PAGE_SIZE < ?be \<longleftrightarrow> p * PAGE_SIZE < bp + ?bytes" for p
        unfolding k using round_up_page [of p k ?bytes] by simp
      moreover have "bp \<le> p * PAGE_SIZE \<longleftrightarrow> bp div PAGE_SIZE \<le> p" for p
        unfolding k by simp
      ultimately have "{p \<in> usable_pages u es. releasable bp ?be (total_pages ?s) p} =
          {p \<in> usable_pages u es. 0x100000 \<le> p * PAGE_SIZE \<and>
            \<not> (bp div PAGE_SIZE \<le> p \<and> p * PAGE_SIZE < bp + ?bytes)}"
        using usable_pages_lt [of _ u es] by (auto simp: releasable_def blank_bitmap_def)
      then show ?thesis
        using s'(2) s0(2) fits bl by (simp add: released_def init_good_def)
    qed
    ultimately show ?thesis using bp(1) by simp
  qed
qed

section \<open>Properties\<close>

lemma free_pages_list:
  "free_pages s = set (filter (\<lambda>p. \<not> page_bit (bitmap s) p) [0..<total_pages s])"
  by (auto simp: free_pages_def)

text \<open>A machine of 16 frames, of which 10 and 11 are free, for the witnesses.\<close>

definition small_pmm :: pmm_state where
  "small_pmm = \<lparr>dev_in = (\<lambda>l p. 0xff), io_log = [], bitmap_ptr = 0x8000, bitmap = [0xff, 0xf3],
     bitmap_len = 2, total_pages = 16, free_count = 2, usable_page = 2\<rparr>"

lemma small_pmm_free: "free_pages small_pmm = {10, 11}"
  by (simp add: free_pages_list small_pmm_def page_bit_def upt_rec) (simp add: numeral_eq_Suc)

lemma small_pmm_total: "total_pages small_pmm = 16"
  by (simp add: small_pmm_def)

lemma small_pmm_inv: "pmm_inv small_pmm"
  unfolding pmm_inv_def by (simp add: small_pmm_free) (auto simp: small_pmm_def)

text \<open>
  \<open>alloc_page\<close> never faults on a consistent bitmap. It returns \<open>None\<close>, changing nothing,
  exactly when no frame is free; otherwise it returns the address of the lowest free frame,
  removes exactly that frame from the free set, decrements \<open>FREE_COUNT\<close> and keeps the bitmap
  and its counters consistent.
\<close>

theorem alloc_page_correct:
  assumes "pmm_inv s"
  shows "case alloc_page pr s of
      Inl e \<Rightarrow> False
    | Inr (None, s') \<Rightarrow> free_pages s = {} \<and> s' = s
    | Inr (Some a, s') \<Rightarrow>
        \<exists>p \<in> free_pages s. a = p * PAGE_SIZE \<and> p = Min (free_pages s) \<and>
          free_pages s' = free_pages s - {p} \<and> free_count s = free_count s' + 1 \<and> pmm_inv s'"
proof (cases "free_pages s = {}")
  case True
  with assms show ?thesis by (simp add: alloc_page_eq)
next
  case False
  let ?p = "Min (free_pages s)"
  have p: "?p \<in> free_pages s" using False by (rule Min_free_pages)
  moreover have "0 < free_count s"
    using p assms by (auto simp: pmm_inv_def card_gt_0_iff)
  ultimately show ?thesis
    using assms False
    by (simp add: alloc_page_eq pmm_inv_take free_pages_take free_pages_lt)
      (simp add: take_page_def)
qed

theorem alloc_page_correct_witness:
  "pmm_inv small_pmm \<and>
   (case alloc_page Dev small_pmm of
      Inl e \<Rightarrow> False
    | Inr (None, s') \<Rightarrow> False
    | Inr (Some a, s') \<Rightarrow> a = 40960 \<and> free_pages s' = {11})"
  using alloc_page_correct [OF small_pmm_inv, where pr = Dev]
  by (auto simp: small_pmm_inv small_pmm_free split: sum.splits option.splits prod.splits)

text \<open>
  \<open>free_page\<close> on every branch. An address that is not page aligned, an address beyond the
  tracked range and a frame that is already free are panics, in this order of checks; otherwise
  exactly that frame joins the free set, \<open>FREE_COUNT\<close> grows by one and the bitmap stays
  consistent.
\<close>

theorem free_page_correct:
  assumes "pmm_inv s"
  shows "case free_page pr phys s of
      Inl e \<Rightarrow>
        (if phys mod PAGE_SIZE \<noteq> 0 then e = Panic ''free_page: Address is not page-aligned''
         else if total_pages s \<le> phys div PAGE_SIZE
         then e = Panic ''free_page: address is beyond tracked range''
         else phys div PAGE_SIZE \<in> free_pages s \<and>
           e = Panic ''free_page: double-free detected at physical address'')
    | Inr s' \<Rightarrow>
        phys mod PAGE_SIZE = 0 \<and> phys div PAGE_SIZE < total_pages s \<and>
        phys div PAGE_SIZE \<notin> free_pages s \<and>
        free_pages s' = insert (phys div PAGE_SIZE) (free_pages s) \<and>
        free_count s' = free_count s + 1 \<and> pmm_inv s'"
  using assms
  by (auto simp: free_page_eq free_pages_put pmm_inv_put) (simp add: put_page_def)

theorem free_page_correct_witness:
  "pmm_inv small_pmm \<and>
   free_page Dev 0xa000 small_pmm = Inl (Panic ''free_page: double-free detected at physical address'') \<and>
   (\<exists>s'. free_page Dev 0x9000 small_pmm = Inr s' \<and> free_pages s' = {9, 10, 11})"
  using free_page_correct [OF small_pmm_inv, where pr = Dev and phys = "0xa000"]
    free_page_correct [OF small_pmm_inv, where pr = Dev and phys = "0x9000"]
  by (auto simp: small_pmm_inv small_pmm_free small_pmm_total split: sum.splits)

text \<open>
  Giving back the frame just allocated restores the allocator's state, bit for bit and
  counter for counter.
\<close>

theorem alloc_free_roundtrip:
  "pmm_inv s \<Longrightarrow> alloc_page pr s = Inr (Some a, s') \<Longrightarrow> free_page pr a s' = Inr s"
  by (rule pmm.release_undo)

theorem alloc_free_roundtrip_witness:
  "\<exists>s'. alloc_page Release small_pmm = Inr (Some 40960, s') \<and> free_page Release 40960 s' = Inr small_pmm"
proof -
  have "alloc_page Release small_pmm = Inr (Some 40960, take_page 10 small_pmm)"
    by (simp add: alloc_page_eq small_pmm_inv small_pmm_free)
  with alloc_free_roundtrip [OF small_pmm_inv this] show ?thesis by blast
qed

text \<open>
  C3: in any history of allocations and of frees of held frames, starting from a consistent
  bitmap, a frame that some client holds is never handed out again: what is held and what is
  available partition what was available at the start.
\<close>

theorem held_frames_never_reused:
  assumes "pmm_inv s0" "alloc_run (alloc_page pr) (free_page pr) s0 s held"
    "alloc_page pr s = Inr (Some a, s')"
  shows "a \<notin> held \<and> held \<inter> avail_frames s = {} \<and> held \<union> avail_frames s = avail_frames s0"
proof -
  have *: "pmm_inv s" "held \<inter> avail_frames s = {}" "held \<union> avail_frames s = avail_frames s0"
    using pmm.alloc_run_partition [OF assms(2,1)] by auto
  then show ?thesis using pmm.alloc_SomeD(1) [OF *(1) assms(3)] by auto
qed

theorem held_frames_never_reused_witness:
  "\<exists>s s'. alloc_run (alloc_page Dev) (free_page Dev) small_pmm s {40960} \<and>
     alloc_page Dev s = Inr (Some 45056, s') \<and> 45056 \<notin> ({40960} :: nat set)"
proof -
  let ?s = "take_page 10 small_pmm"
  have a: "alloc_page Dev small_pmm = Inr (Some 40960, ?s)"
    by (simp add: alloc_page_eq small_pmm_inv small_pmm_free)
  have st: "alloc_run (alloc_page Dev) (free_page Dev) small_pmm small_pmm {}"
    by (rule alloc_run.start)
  have run: "alloc_run (alloc_page Dev) (free_page Dev) small_pmm ?s {40960}"
    using alloc_run.take [OF st a] by simp
  have inv: "pmm_inv ?s" by (simp add: pmm_inv_take small_pmm_inv small_pmm_free)
  have "free_pages ?s = {11}"
    using free_pages_take [OF small_pmm_inv, of 10] small_pmm_free by (simp add: small_pmm_def)
  then have b: "alloc_page Dev ?s = Inr (Some 45056, take_page 11 ?s)"
    by (simp add: alloc_page_eq inv)
  from held_frames_never_reused [OF small_pmm_inv run b] a b run show ?thesis by blast
qed

text \<open>
  C16: on a memory map that keeps the Limine protocol's promises, \<open>init_pmm\<close> only fails with one
  of its two documented panics (an empty map, or no place found for the bitmap). Otherwise the
  bitmap lies page-aligned inside a usable region, the counters agree with it, and the free
  frames are exactly the whole frames of usable regions at or above 1 MiB that do not hold the
  bitmap itself: neither low memory, nor reserved memory, nor the bitmap is ever handed out.
\<close>

theorem init_pmm_correct:
  assumes "memmap_ok u es" "free_count s = 0" "usable_page s = 0"
    and "memmap_end es + hhdm + PAGE_SIZE < usize_lim"
  shows "case init_pmm pr u (Some es) hhdm s of
      Inl e \<Rightarrow> e = Panic ''PMM: memory map is empty'' \<and> memmap_end es = 0 \<or>
              e = Panic ''PMM: no single usable region is large enough for the bitmap'' \<and>
              find_bitmap_region pr u (init_bytes es) es = Inr 0
    | Inr s' \<Rightarrow> \<exists>bp. find_bitmap_region pr u (init_bytes es) es = Inr bp \<and> init_good u es bp s'"
  using assms by (rule init_pmm_result)

definition blank_pmm :: pmm_state where
  "blank_pmm = \<lparr>dev_in = (\<lambda>l p. 0xff), io_log = [], bitmap_ptr = 0, bitmap = [],
     bitmap_len = 0, total_pages = 0, free_count = 0, usable_page = 0\<rparr>"

definition small_memmap :: "memmap_entry list" where
  "small_memmap = [\<lparr>base = 0x1000, len_bytes = 0x9e000, entry_type = 0\<rparr>,
     \<lparr>base = 0x9f000, len_bytes = 0x61000, entry_type = 1\<rparr>,
     \<lparr>base = 0x100000, len_bytes = 0x3000, entry_type = 0\<rparr>]"

theorem init_pmm_correct_witness:
  "memmap_ok 0 small_memmap \<and>
   (\<exists>s'. init_pmm Dev 0 (Some small_memmap) 0xffff800000000000 blank_pmm = Inr s' \<and>
      init_good 0 small_memmap 0x1000 s')"
proof -
  have h: "memmap_ok 0 small_memmap" "memmap_end small_memmap = 0x103000"
    by (simp_all add: small_memmap_def memmap_end_def)
  have "init_bytes small_memmap = 33" by (simp add: init_bytes_def init_total_def h(2))
  then have "find_bitmap_region Dev 0 (init_bytes small_memmap) small_memmap = Inr 0x1000"
    by (simp add: small_memmap_def Let_def and_not_4095)
  with init_pmm_correct [OF h(1), of blank_pmm "0xffff800000000000" Dev] h show ?thesis
    by (simp add: blank_pmm_def split: sum.splits)
qed

end
