(* ===== verification/Vmm.thy ===== *)
theory Vmm
  imports Pmm
begin

text \<open>
  Four-level page tables (\<open>memory/vmm.rs\<close>). \<open>cells\<close> is memory as the kernel reads and writes
  page tables: 64-bit cells by virtual address, reached through the higher-half direct map
  (\<open>phys_to_virt\<close>). \<open>cr3\<close> is the register, \<open>invlpg_log\<close> the TLB invalidations issued. Table
  frames come from the frame allocator.

  The abstract view is \<open>pte_of\<close>: what the four indices of a virtual address map to, and \<open>large_of\<close>:
  the large pages (page-size bit, bit 7, set in an upper entry), at which the tree of tables ends. The
  invariant \<open>vm_inv\<close> says the tables form a tree (no table is reached by two paths) of frames
  the allocator does not consider free; under it \<open>map_page\<close> and \<open>unmap_page\<close> are single-point
  updates of the abstract map. The code does not look at the page-size bit: its walk is right for the
  addresses whose walk meets no large page (\<open>small_path\<close>), and only those are claimed.
\<close>

section \<open>State and constants\<close>

record vmm_state = pmm_state +
  hhdm_offset :: nat
  cr3 :: u64
  cells :: "nat \<Rightarrow> u64"
  invlpg_log :: "nat list"

definition PTE_PRESENT :: u64 where "PTE_PRESENT = push_bit 0 1"
definition PTE_WRITABLE :: u64 where "PTE_WRITABLE = push_bit 1 1"
definition PTE_USER :: u64 where "PTE_USER = push_bit 2 1"
definition PTE_NO_EXEC :: u64 where "PTE_NO_EXEC = push_bit 63 1"
definition PTE_NO_CACHE :: u64 where "PTE_NO_CACHE = push_bit 4 1"

definition ADDR_MASK :: u64 where
  "ADDR_MASK = 0x000ffffffffff000"

section \<open>Operations\<close>

definition init_vmm :: "nat option \<Rightarrow> 'a vmm_state_scheme \<Rightarrow> 'a vmm_state_scheme res" where
  "init_vmm resp s =
     (case resp of
        None \<Rightarrow> Inl (Panic ''Limine did not provide HHDM offset'')
      | Some offset \<Rightarrow> Inr (s\<lparr>hhdm_offset := offset\<rparr>))"

definition phys_to_virt :: "profile \<Rightarrow> nat \<Rightarrow> 'a vmm_state_scheme \<Rightarrow> nat res" where
  "phys_to_virt pr phys s = uadd pr phys (hhdm_offset s)"

definition read_cell :: "nat \<Rightarrow> nat \<Rightarrow> 'a vmm_state_scheme \<Rightarrow> u64" where
  "read_cell table idx s = cells s (table + 8 * idx)"

definition write_cell ::
    "nat \<Rightarrow> nat \<Rightarrow> u64 \<Rightarrow> 'a vmm_state_scheme \<Rightarrow> 'a vmm_state_scheme" where
  "write_cell table idx e s = s\<lparr>cells := (cells s)(table + 8 * idx := e)\<rparr>"

text \<open>\<open>write_bytes(virt, 0, PAGE_SIZE / 8)\<close> on a \<open>*mut u64\<close>: that many zero cells.\<close>

definition zero_table :: "nat \<Rightarrow> 'a vmm_state_scheme \<Rightarrow> 'a vmm_state_scheme" where
  "zero_table virt s =
     s\<lparr>cells := (\<lambda>a. if virt \<le> a \<and> a < virt + 8 * (PAGE_SIZE div 8) then 0 else cells s a)\<rparr>"

definition invlpg :: "nat \<Rightarrow> 'a vmm_state_scheme \<Rightarrow> 'a vmm_state_scheme" where
  "invlpg virt s = s\<lparr>invlpg_log := invlpg_log s @ [virt]\<rparr>"

definition next_table_or_create ::
    "profile \<Rightarrow> nat \<Rightarrow> nat \<Rightarrow> 'a vmm_state_scheme \<Rightarrow> (nat \<times> 'a vmm_state_scheme) res" where
  "next_table_or_create pr table idx s =
     (let entry = read_cell table idx s in
      if entry AND PTE_PRESENT \<noteq> 0 then
        andThen (phys_to_virt pr (unat (entry AND ADDR_MASK)) s) (\<lambda>virt. Inr (virt, s))
      else
        andThen (alloc_page pr s) (\<lambda>(r, s).
          case r of
            None \<Rightarrow> Inl (Panic ''VMM:OOM allocating page table'')
          | Some phys \<Rightarrow>
              andThen (phys_to_virt pr phys s) (\<lambda>virt.
              let s = zero_table virt s;
                  s = write_cell table idx (word_of_nat phys OR PTE_PRESENT OR PTE_WRITABLE) s
              in Inr (virt, s))))"

definition split_indices :: "nat \<Rightarrow> nat \<times> nat \<times> nat \<times> nat" where
  "split_indices virt =
     (drop_bit 39 virt AND 0x1ff, drop_bit 30 virt AND 0x1ff,
      drop_bit 21 virt AND 0x1ff, drop_bit 12 virt AND 0x1ff)"

definition map_page ::
    "profile \<Rightarrow> nat \<Rightarrow> nat \<Rightarrow> u64 \<Rightarrow> 'a vmm_state_scheme \<Rightarrow> 'a vmm_state_scheme res" where
  "map_page pr virt phys flags s =
     andThen (ensure (virt mod PAGE_SIZE = 0) ''map_page: virt not aligned'') (\<lambda>_.
     andThen (ensure (phys mod PAGE_SIZE = 0) ''map_page: phys not aligned'') (\<lambda>_.
     let (pml4_idx, pdpt_idx, pd_idx, pt_idx) = split_indices virt;
         pml4_phys = unat (cr3 s AND ADDR_MASK) in
     andThen (phys_to_virt pr pml4_phys s) (\<lambda>pml4.
     andThen (next_table_or_create pr pml4 pml4_idx s) (\<lambda>(pdpt, s).
     andThen (next_table_or_create pr pdpt pdpt_idx s) (\<lambda>(pd, s).
     andThen (next_table_or_create pr pd pd_idx s) (\<lambda>(pt, s).
       Inr (invlpg virt
         (write_cell pt pt_idx (word_of_nat phys OR flags OR PTE_PRESENT) s))))))))"

definition walk_existing ::
    "profile \<Rightarrow> nat \<Rightarrow> 'a vmm_state_scheme \<Rightarrow> (nat \<times> nat \<times> u64) option res" where
  "walk_existing pr virt s =
     (let (pml4_idx, pdpt_idx, pd_idx, pt_idx) = split_indices virt;
          pml4_phys = unat (cr3 s AND ADDR_MASK) in
      andThen (phys_to_virt pr pml4_phys s) (\<lambda>pml4.
      let e4 = read_cell pml4 pml4_idx s in
      if e4 AND PTE_PRESENT = 0 then Inr None
      else andThen (phys_to_virt pr (unat (e4 AND ADDR_MASK)) s) (\<lambda>pdpt.
      let e3 = read_cell pdpt pdpt_idx s in
      if e3 AND PTE_PRESENT = 0 then Inr None
      else andThen (phys_to_virt pr (unat (e3 AND ADDR_MASK)) s) (\<lambda>pd.
      let e2 = read_cell pd pd_idx s in
      if e2 AND PTE_PRESENT = 0 then Inr None
      else andThen (phys_to_virt pr (unat (e2 AND ADDR_MASK)) s) (\<lambda>pt.
      let e1 = read_cell pt pt_idx s in
      Inr (Some (pt, pt_idx, e1)))))))"

definition unmap_page ::
    "profile \<Rightarrow> nat \<Rightarrow> 'a vmm_state_scheme \<Rightarrow> 'a vmm_state_scheme res" where
  "unmap_page pr virt s =
     andThen (ensure (virt mod PAGE_SIZE = 0) ''unmap_page: vitr not aligned'') (\<lambda>_.
     andThen (walk_existing pr virt s) (\<lambda>r.
       case r of
         None \<Rightarrow> Inr s
       | Some (pt, pt_idx, e1) \<Rightarrow> Inr (invlpg virt (write_cell pt pt_idx 0 s))))"

definition get_phys_addr :: "profile \<Rightarrow> nat \<Rightarrow> 'a vmm_state_scheme \<Rightarrow> nat option res" where
  "get_phys_addr pr virt s =
     andThen (walk_existing pr virt s) (\<lambda>r.
       case r of
         None \<Rightarrow> Inr None
       | Some (pt, pt_idx, e1) \<Rightarrow>
           if e1 AND PTE_PRESENT = 0 then Inr None
           else Inr (Some (unat (e1 AND ADDR_MASK) OR (virt AND 0xfff))))"

section \<open>The abstract view\<close>

definition present :: "u64 \<Rightarrow> bool" where
  "present e \<longleftrightarrow> bit e 0"

definition frame_of :: "u64 \<Rightarrow> nat" where
  "frame_of e = unat (e AND ADDR_MASK)"

definition root :: "'a vmm_state_scheme \<Rightarrow> nat" where
  "root s = frame_of (cr3 s)"

definition ent :: "'a vmm_state_scheme \<Rightarrow> nat \<Rightarrow> nat \<Rightarrow> u64" where
  "ent s t i = read_cell (t + hhdm_offset s) i s"

text \<open>An upper entry points to a table, unless it is absent or maps a large page.\<close>

definition large :: "u64 \<Rightarrow> bool" where
  "large e \<longleftrightarrow> present e \<and> bit e 7"

definition links :: "u64 \<Rightarrow> bool" where
  "links e \<longleftrightarrow> present e \<and> \<not> bit e 7"

text \<open>The table frame reached from the root along a list of indices.\<close>

fun descend :: "'a vmm_state_scheme \<Rightarrow> nat \<Rightarrow> nat list \<Rightarrow> nat option" where
  "descend s t [] = Some t"
| "descend s t (i # is) = (if links (ent s t i) then descend s (frame_of (ent s t i)) is else None)"

definition tab :: "'a vmm_state_scheme \<Rightarrow> nat list \<Rightarrow> nat option" where
  "tab s is = descend s (root s) is"

definition table_path :: "nat list \<Rightarrow> bool" where
  "table_path is \<longleftrightarrow> length is \<le> 3 \<and> (\<forall>i \<in> set is. i < 512)"

fun pte_of :: "'a vmm_state_scheme \<Rightarrow> nat \<times> nat \<times> nat \<times> nat \<Rightarrow> u64 option" where
  "pte_of s (i4, i3, i2, i1) =
     (case tab s [i4, i3, i2] of
        None \<Rightarrow> None
      | Some t \<Rightarrow> if present (ent s t i1) then Some (ent s t i1) else None)"

text \<open>The large page mapped by entry \<open>i\<close> of the table at path \<open>ps\<close>.\<close>

definition large_of :: "'a vmm_state_scheme \<Rightarrow> nat list \<Rightarrow> nat \<Rightarrow> u64 option" where
  "large_of s ps i =
     (case tab s ps of
        None \<Rightarrow> None
      | Some t \<Rightarrow> if large (ent s t i) then Some (ent s t i) else None)"

text \<open>The walk to the last table of an address meets no large page.\<close>

fun small_path :: "'a vmm_state_scheme \<Rightarrow> nat \<times> nat \<times> nat \<times> nat \<Rightarrow> bool" where
  "small_path s (i4, i3, i2, i1) \<longleftrightarrow>
     large_of s [] i4 = None \<and> large_of s [i4] i3 = None \<and> large_of s [i4, i3] i2 = None"

definition same_large :: "'a vmm_state_scheme \<Rightarrow> 'a vmm_state_scheme \<Rightarrow> bool" where
  "same_large s s' \<longleftrightarrow>
     (\<forall>ps i. table_path (ps @ [i]) \<longrightarrow> large_of s' ps i = large_of s ps i)"

definition vm_inv :: "'a vmm_state_scheme \<Rightarrow> bool" where
  "vm_inv s \<longleftrightarrow>
     pmm_inv s \<and> hhdm_offset s + total_pages s * PAGE_SIZE < usize_lim \<and> total_pages s \<le> 2 ^ 40 \<and>
     (\<forall>is t. table_path is \<and> tab s is = Some t \<longrightarrow>
        t \<notin> avail_frames s \<and> t + PAGE_SIZE + hhdm_offset s \<le> usize_lim) \<and>
     (\<forall>is js t. table_path is \<and> table_path js \<and> tab s is = Some t \<and> tab s js = Some t \<longrightarrow> is = js)"

text \<open>The processor finds a page at an address, a small or a large one.\<close>

definition mmu_maps :: "'a vmm_state_scheme \<Rightarrow> nat \<Rightarrow> bool" where
  "mmu_maps s v \<longleftrightarrow> \<not> small_path s (split_indices v) \<or> pte_of s (split_indices v) \<noteq> None"

section \<open>Bits of addresses and entries\<close>

lemma present_iff [simp]: "(e AND PTE_PRESENT \<noteq> 0) = present e" "(e AND PTE_PRESENT = 0) = (\<not> present e)"
  using and_exp_neq_0 [of e 0] by (auto simp: PTE_PRESENT_def present_def)

lemma present_0 [simp]: "\<not> present 0"
  by (simp add: present_def)

lemma links_0 [simp]: "\<not> links 0" "\<not> large 0"
  by (simp_all add: links_def large_def)

lemma links_present: "links e \<longleftrightarrow> present e \<and> \<not> large e"
  by (auto simp: links_def large_def)

lemma bit_ADDR_MASK: "bit ADDR_MASK n \<longleftrightarrow> 12 \<le> n \<and> n < 52"
proof -
  have "bit (push_bit 12 (mask 40) :: u64) n \<longleftrightarrow> 12 \<le> n \<and> n < 52"
    by (auto simp: bit_simps)
  moreover have "ADDR_MASK = push_bit 12 (mask 40)"
    by (simp add: ADDR_MASK_def mask_eq_exp_minus_1)
  ultimately show ?thesis by (simp only:)
qed

lemma bit_PTE_flags:
  "bit PTE_PRESENT n \<longleftrightarrow> n = 0" "bit PTE_WRITABLE n \<longleftrightarrow> n = 1"
  by (auto simp: PTE_PRESENT_def PTE_WRITABLE_def bit_simps bit_1_iff)

lemma and_ADDR_MASK: "e AND ADDR_MASK = push_bit 12 (take_bit 40 (drop_bit 12 e))"
  by (rule bit_word_eqI) (auto simp: bit_simps bit_ADDR_MASK)

lemma frame_of_eq: "frame_of e = 4096 * take_bit 40 (drop_bit 12 (unat e))"
proof -
  have "unat (push_bit 12 (take_bit 40 (drop_bit 12 e))) =
      push_bit 12 (take_bit 40 (drop_bit 12 (unat e)))"
    by (rule bit_eqI) (auto simp: bit_simps)
  then show ?thesis by (simp add: frame_of_def and_ADDR_MASK push_bit_eq_mult)
qed

lemma frame_of_aligned [simp]: "frame_of e mod 4096 = 0"
  by (simp add: frame_of_eq)

lemma frame_of_lim: "frame_of e < 2 ^ 52"
proof -
  have "take_bit 40 (drop_bit 12 (unat e)) < 2 ^ 40" by (rule take_bit_nat_less_exp)
  then show ?thesis by (simp add: frame_of_eq)
qed

lemma ADDR_MASK_id:
  assumes "f mod 4096 = 0" "f < 2 ^ 52"
  shows "(word_of_nat f :: u64) AND ADDR_MASK = word_of_nat f"
proof -
  obtain p where p: "f = push_bit 12 p" using assms(1) by (auto simp: push_bit_eq_mult mult.commute)
  then have "p < 2 ^ 40" using assms(2) by (simp add: push_bit_eq_mult)
  then have "take_bit 40 p = p" by (simp add: take_bit_nat_eq_self_iff)
  then have "bit p n \<Longrightarrow> n < 40" for n by (metis bit_take_bit_iff)
  then show ?thesis
    by (intro bit_word_eqI) (force simp: bit_simps bit_ADDR_MASK p)
qed

lemma frame_of_word:
  assumes "f mod 4096 = 0" "f < 2 ^ 52" "flags AND ADDR_MASK = 0"
  shows "frame_of (word_of_nat f OR flags) = f"
proof -
  have "(word_of_nat f OR flags) AND ADDR_MASK = word_of_nat f"
    using assms by (simp add: bit.conj_disj_distrib2 ADDR_MASK_id)
  then show ?thesis
    using assms(2) by (simp add: frame_of_def unsigned_of_nat take_bit_nat_eq_self)
qed

lemma table_entry:
  assumes "f mod 4096 = 0" "f < 2 ^ 52"
  shows "frame_of (word_of_nat f OR PTE_PRESENT OR PTE_WRITABLE) = f"
    "links (word_of_nat f OR PTE_PRESENT OR PTE_WRITABLE)"
    "\<not> large (word_of_nat f OR PTE_PRESENT OR PTE_WRITABLE)"
proof -
  have "(PTE_PRESENT OR PTE_WRITABLE) AND ADDR_MASK = 0"
    by (rule bit_word_eqI) (auto simp: bit_and_iff bit_or_iff bit_ADDR_MASK bit_PTE_flags)
  from frame_of_word [OF assms this]
  show "frame_of (word_of_nat f OR PTE_PRESENT OR PTE_WRITABLE) = f" by (simp add: or.assoc)
  obtain p where "f = push_bit 12 p" using assms(1) by (auto simp: push_bit_eq_mult mult.commute)
  then have "\<not> bit (word_of_nat f :: u64) 7" by (simp add: bit_simps)
  then show "links (word_of_nat f OR PTE_PRESENT OR PTE_WRITABLE)"
    "\<not> large (word_of_nat f OR PTE_PRESENT OR PTE_WRITABLE)"
    by (simp_all add: links_def large_def present_def bit_or_iff bit_PTE_flags)
qed

lemma and_511: "n AND 511 < (512::nat)"
proof -
  have "n AND 511 = take_bit 9 n" using take_bit_eq_mask [of 9 n] by (simp add: mask_eq_exp_minus_1)
  then show ?thesis using take_bit_nat_less_exp [of 9 n] by simp
qed

lemma split_indices_lt:
  assumes "split_indices v = (i4, i3, i2, i1)"
  shows "i4 < 512" "i3 < 512" "i2 < 512" "i1 < 512"
  using assms by (auto simp: split_indices_def and_511)

section \<open>Paths\<close>

lemma tab_Nil [simp]: "tab s [] = Some (root s)"
  by (simp add: tab_def)

lemma descend_snoc:
  "descend s t (is @ [i]) =
     (case descend s t is of None \<Rightarrow> None
      | Some t' \<Rightarrow> if links (ent s t' i) then Some (frame_of (ent s t' i)) else None)"
  by (induction "is" arbitrary: t) auto

lemma tab_snoc:
  "tab s (is @ [i]) =
     (case tab s is of None \<Rightarrow> None
      | Some t \<Rightarrow> if links (ent s t i) then Some (frame_of (ent s t i)) else None)"
  by (simp add: tab_def descend_snoc)

lemma tab_snoc_Some:
  "tab s (is @ [i]) = Some f \<longleftrightarrow>
     (\<exists>t. tab s is = Some t \<and> links (ent s t i) \<and> f = frame_of (ent s t i))"
  by (auto simp: tab_snoc split: option.splits)

lemma tab_frame:
  assumes "tab s is = Some t"
  shows "t mod 4096 = 0" "t < 2 ^ 52"
proof -
  have "\<exists>e. t = frame_of e"
    using assms by (cases "is" rule: rev_cases) (auto simp: tab_snoc_Some root_def)
  then show "t mod 4096 = 0" "t < 2 ^ 52" using frame_of_lim by auto
qed

lemma table_path_snoc:
  "table_path (is @ [i]) \<Longrightarrow> table_path is \<and> i < 512 \<and> length is < 3"
  by (auto simp: table_path_def)

lemma table_path_Nil [simp]: "table_path []"
  by (simp add: table_path_def)

text \<open>Two tables at different page-aligned frames share no cell.\<close>

lemma cell_inj:
  fixes t t' i j h :: nat
  assumes "t mod 4096 = 0" "t' mod 4096 = 0" "i < 512" "j < 512"
  shows "t + h + 8 * i = t' + h + 8 * j \<longleftrightarrow> t = t' \<and> i = j"
proof
  assume e: "t + h + 8 * i = t' + h + 8 * j"
  have "4096 dvd t" "4096 dvd t'" using assms(1,2) by auto
  then obtain p q where "t = 4096 * p" "t' = 4096 * q" by (auto elim!: dvdE)
  moreover from this e have "512 * p + i = 512 * q + j" by simp
  with assms(3,4) have "p = q" by linarith
  ultimately show "t = t' \<and> i = j" using e by simp
qed simp

lemma cell_outside:
  fixes t f h j :: nat
  assumes "t mod 4096 = 0" "f mod 4096 = 0" "j < 512"
  shows "f + h \<le> t + h + 8 * j \<and> t + h + 8 * j < f + h + 4096 \<longleftrightarrow> t = f"
proof
  assume e: "f + h \<le> t + h + 8 * j \<and> t + h + 8 * j < f + h + 4096"
  have "4096 dvd t" "4096 dvd f" using assms(1,2) by auto
  then obtain p q where "t = 4096 * p" "f = 4096 * q" by (auto elim!: dvdE)
  with e assms(3) show "t = f" by simp
qed (use assms in auto)

lemma vm_invD:
  assumes "vm_inv s"
  shows "pmm_inv s" "hhdm_offset s + total_pages s * PAGE_SIZE < usize_lim" "total_pages s \<le> 2 ^ 40"
    "table_path is \<Longrightarrow> tab s is = Some t \<Longrightarrow> t \<notin> avail_frames s"
    "table_path is \<Longrightarrow> table_path js \<Longrightarrow> tab s is = Some t \<Longrightarrow> tab s js = Some t \<Longrightarrow> is = js"
    "table_path is \<Longrightarrow> tab s is = Some t \<Longrightarrow> t + PAGE_SIZE + hhdm_offset s \<le> usize_lim"
  using assms unfolding vm_inv_def by blast+

lemma table_virt:
  "vm_inv s \<Longrightarrow> table_path is \<Longrightarrow> tab s is = Some t \<Longrightarrow> phys_to_virt pr t s = Inr (t + hhdm_offset s)"
  using vm_invD(6) [of s "is" t] by (simp add: phys_to_virt_def)

lemma avail_frame:
  assumes "vm_inv s" "f \<in> avail_frames s"
  shows "f mod 4096 = 0" "f < 2 ^ 52" "f + PAGE_SIZE + hhdm_offset s < usize_lim"
proof -
  obtain p where "f = p * 4096" "p < total_pages s"
    using assms(2) by (auto simp: avail_frames_def free_pages_def)
  then show "f mod 4096 = 0" "f < 2 ^ 52" "f + PAGE_SIZE + hhdm_offset s < usize_lim"
    using vm_invD(2,3) [OF assms(1)] by auto
qed

text \<open>Large pages depend on the upper entries only.\<close>

lemma large_of_cong:
  assumes "tab s' ps = tab s ps" "\<And>t. tab s ps = Some t \<Longrightarrow> ent s' t i = ent s t i"
  shows "large_of s' ps i = large_of s ps i"
  using assms by (auto simp: large_of_def split: option.split)

lemma same_largeD: "same_large s s' \<Longrightarrow> table_path (ps @ [i]) \<Longrightarrow> large_of s' ps i = large_of s ps i"
  by (simp add: same_large_def)

lemma same_large_refl [simp]: "same_large s s"
  by (simp add: same_large_def)

lemma same_large_trans: "same_large s s' \<Longrightarrow> same_large s' s'' \<Longrightarrow> same_large s s''"
  by (simp add: same_large_def)

lemma same_large_small:
  assumes "same_large s s'"
  shows "small_path s' (split_indices v) = small_path s (split_indices v)"
proof -
  obtain i4 i3 i2 i1 where ix: "split_indices v = (i4, i3, i2, i1)" by (metis prod_cases4)
  note lt = split_indices_lt [OF ix]
  have "large_of s' [] i4 = large_of s [] i4" "large_of s' [i4] i3 = large_of s [i4] i3"
    "large_of s' [i4, i3] i2 = large_of s [i4, i3] i2"
    by (rule same_largeD [OF assms]; use lt in \<open>simp add: table_path_def\<close>)+
  then show ?thesis by (simp add: ix)
qed

lemma not_large_links: "tab s ps = Some t \<Longrightarrow> large_of s ps i = None \<Longrightarrow> links (ent s t i) = present (ent s t i)"
  by (auto simp: large_of_def links_present split: if_splits)

section \<open>Linking a new table\<close>

text \<open>The state after \<open>next_table_or_create\<close> has linked the zeroed frame \<open>f\<close> at entry \<open>i\<close> of \<open>t\<close>.\<close>

definition link_table :: "nat \<Rightarrow> nat \<Rightarrow> nat \<Rightarrow> 'a vmm_state_scheme \<Rightarrow> 'a vmm_state_scheme" where
  "link_table t i f s =
     write_cell (t + hhdm_offset s) i (word_of_nat f OR PTE_PRESENT OR PTE_WRITABLE)
       (zero_table (f + hhdm_offset s) s)"

lemma link_table_fields [simp]:
  "hhdm_offset (link_table t i f s) = hhdm_offset s" "root (link_table t i f s) = root s"
  "cr3 (link_table t i f s) = cr3 s"
  "invlpg_log (link_table t i f s) = invlpg_log s"
  by (simp_all add: link_table_def write_cell_def zero_table_def root_def)

lemma pmm_link_table [simp]:
  "pmm_inv (link_table t i f s) = pmm_inv s" "avail_frames (link_table t i f s) = avail_frames s"
  "total_pages (link_table t i f s) = total_pages s"
  by (simp_all add: link_table_def write_cell_def zero_table_def pmm_inv_def avail_frames_def
      free_pages_def)

lemma ent_link_table:
  assumes "t mod 4096 = 0" "f mod 4096 = 0" "t' mod 4096 = 0" "i < 512" "j < 512" "t \<noteq> f"
  shows "ent (link_table t i f s) t' j =
    (if t' = t \<and> j = i then word_of_nat f OR PTE_PRESENT OR PTE_WRITABLE
     else if t' = f then 0 else ent s t' j)"
  using cell_inj [of t' t j i "hhdm_offset s"] cell_outside [of t' f j "hhdm_offset s"] assms
  by (auto simp: ent_def link_table_def read_cell_def write_cell_def zero_table_def)

lemma tab_link_table:
  assumes inv: "vm_inv s" and ps: "table_path (ps @ [i])" "tab s ps = Some t"
    and np: "\<not> present (ent s t i)" and f: "f \<in> avail_frames s" and qs: "table_path qs"
  shows "tab (link_table t i f s) qs = (if qs = ps @ [i] then Some f else tab s qs)"
  using qs
proof (induction qs rule: rev_induct)
  case Nil
  then show ?case by simp
next
  case (snoc j qs)
  note p = table_path_snoc [OF snoc.prems] and q = table_path_snoc [OF ps(1)]
  note fr = avail_frame(1,2) [OF inv f] and tf = tab_frame [OF ps(2)]
  have "t \<noteq> f" using vm_invD(4) [OF inv _ ps(2)] q f by blast
  have e: "ent (link_table t i f s) t' j =
      (if t' = t \<and> j = i then word_of_nat f OR PTE_PRESENT OR PTE_WRITABLE
       else if t' = f then 0 else ent s t' j)" if "t' mod 4096 = 0" for t'
    by (rule ent_link_table) (use tf fr p q that \<open>t \<noteq> f\<close> in auto)
  have IH: "tab (link_table t i f s) qs = (if qs = ps @ [i] then Some f else tab s qs)"
    using snoc.IH p by simp
  show ?case
  proof (cases "qs = ps @ [i]")
    case True
    then have "tab s (qs @ [j]) = None"
      using np ps(2) tab_snoc [of s qs j] tab_snoc [of s ps i] by (simp add: links_def)
    moreover have "ent (link_table t i f s) f j = 0"
      using e [of f] fr \<open>t \<noteq> f\<close> by simp
    moreover have "tab (link_table t i f s) (qs @ [j]) = None"
      using True IH calculation tab_snoc [of "link_table t i f s" qs j] by simp
    ultimately show ?thesis using True by simp
  next
    case False
    show ?thesis
    proof (cases "tab s qs")
      case None
      then have "qs \<noteq> ps" using ps(2) by auto
      with None False IH show ?thesis by (simp add: tab_snoc)
    next
      case (Some t')
      have "t' \<noteq> f" using vm_invD(4) [OF inv _ Some] p f by blast
      then have e': "ent (link_table t i f s) t' j =
          (if t' = t \<and> j = i then word_of_nat f OR PTE_PRESENT OR PTE_WRITABLE else ent s t' j)"
        using e [of t'] tab_frame(1) [OF Some] by simp
      have tt: "t' = t \<longleftrightarrow> qs = ps"
        using vm_invD(5) [OF inv, of qs ps t] ps(2) p q Some by auto
      have L: "tab (link_table t i f s) qs = Some t'" using IH False Some by simp
      show ?thesis
      proof (cases "t' = t \<and> j = i")
        case True
        then show ?thesis using tt L e' table_entry [OF fr] by (simp add: tab_snoc)
      next
        case other: False
        then have ne: "qs @ [j] \<noteq> ps @ [i]" using tt by simp
        have "ent (link_table t i f s) t' j = ent s t' j"
          unfolding e' using other by (rule if_not_P)
        then have "tab (link_table t i f s) (qs @ [j]) = tab s (qs @ [j])"
          using L Some by (simp add: tab_snoc)
        then show ?thesis using ne by (simp only: if_False)
      qed
    qed
  qed
qed

lemma vm_inv_link_table:
  assumes inv: "vm_inv s" and ps: "table_path (ps @ [i])" "tab s ps = Some t"
    and np: "\<not> present (ent s t i)" and f: "f \<in> avail_frames s"
    and s': "pmm_inv s'" "avail_frames s' = avail_frames s - {f}" "total_pages s' = total_pages s"
      "cells s' = cells s" "hhdm_offset s' = hhdm_offset s" "cr3 s' = cr3 s"
  shows "vm_inv (link_table t i f s')"
proof -
  have same: "tab (link_table t i f s') qs = tab (link_table t i f s) qs" for qs
  proof -
    have "ent (link_table t i f s') = ent (link_table t i f s)"
      by (simp add: fun_eq_iff ent_def link_table_def read_cell_def write_cell_def zero_table_def s')
    then have "descend (link_table t i f s') r qs = descend (link_table t i f s) r qs" for r
      by (induction qs arbitrary: r) auto
    then show ?thesis by (simp add: tab_def root_def link_table_def write_cell_def zero_table_def s')
  qed
  have tab': "tab (link_table t i f s') qs = (if qs = ps @ [i] then Some f else tab s qs)"
    if "table_path qs" for qs
    using tab_link_table [OF inv ps np f that] same by simp
  have "tab s qs \<noteq> Some f" if "table_path qs" for qs
    using vm_invD(4) [OF inv that] f by auto
  then show ?thesis
    using inv s' vm_invD(4,5,6) [OF inv] avail_frame(3) [OF inv f]
    by (auto simp: vm_inv_def tab' split: if_splits)
qed

section \<open>One step of the walk\<close>

lemma take_page_fields [simp]:
  "cells (take_page p s) = cells s" "hhdm_offset (take_page p s) = hhdm_offset s"
  "cr3 (take_page p s) = cr3 s" "invlpg_log (take_page p s) = invlpg_log s"
  "total_pages (take_page p s) = total_pages s"
  by (simp_all add: take_page_def)

lemma same_memory:
  assumes "cells s' = cells s" "hhdm_offset s' = hhdm_offset s" "cr3 s' = cr3 s"
  shows "ent s' = ent s" "tab s' = tab s" "root s' = root s"
proof -
  show e: "ent s' = ent s" by (simp add: fun_eq_iff ent_def read_cell_def assms)
  show r: "root s' = root s" by (simp add: root_def assms)
  have "descend s' t ps = descend s t ps" for t ps
    by (induction ps arbitrary: t) (auto simp: e)
  then show "tab s' = tab s" by (simp add: fun_eq_iff tab_def r)
qed

lemma same_pte: "ent s' = ent s \<Longrightarrow> tab s' = tab s \<Longrightarrow> pte_of s' idx = pte_of s idx"
  by (cases idx) (simp split: option.split)

lemma same_large_of: "ent s' = ent s \<Longrightarrow> tab s' = tab s \<Longrightarrow> large_of s' = large_of s"
  by (intro ext large_of_cong) simp_all

lemma same_large_eq: "large_of s' = large_of s \<Longrightarrow> same_large s s'"
  by (simp add: same_large_def)

text \<open>Everything the page tables and the frame allocator depend on.\<close>

definition vm_part :: "'a vmm_state_scheme \<Rightarrow> u8 list \<times> nat \<times> nat \<times> nat \<times> nat \<times> u64 \<times> (nat \<Rightarrow> u64)" where
  "vm_part s = (bitmap s, bitmap_len s, total_pages s, free_count s, hhdm_offset s, cr3 s, cells s)"

lemma vm_part_cong:
  assumes "vm_part s' = vm_part s"
  shows "vm_inv s' = vm_inv s" "pte_of s' idx = pte_of s idx" "avail_frames s' = avail_frames s"
    "free_pages s' = free_pages s" "all_frames s' = all_frames s" "tab s' = tab s"
    "large_of s' = large_of s" "small_path s' idx = small_path s idx"
proof -
  have f: "cells s' = cells s" "hhdm_offset s' = hhdm_offset s" "cr3 s' = cr3 s"
    "bitmap s' = bitmap s" "bitmap_len s' = bitmap_len s" "total_pages s' = total_pages s"
    "free_count s' = free_count s"
    using assms by (simp_all add: vm_part_def)
  note m = same_memory [OF f(1-3)]
  show fp: "free_pages s' = free_pages s" by (simp add: free_pages_def f)
  then show af: "avail_frames s' = avail_frames s" by (simp add: avail_frames_def)
  show "pte_of s' idx = pte_of s idx" by (rule same_pte [OF m(1,2)])
  show "vm_inv s' = vm_inv s" by (simp add: vm_inv_def pmm_inv_def m f af fp)
  show "all_frames s' = all_frames s" by (simp add: all_frames_def f)
  show "tab s' = tab s" by (rule m(2))
  show l: "large_of s' = large_of s" by (rule same_large_of [OF m(1,2)])
  show "small_path s' idx = small_path s idx" by (cases idx) (simp add: l)
qed

text \<open>
  \<open>s'\<close> is \<open>s\<close> with a table at path \<open>qs\<close>, taken from the free frames when there was none;
  nothing is mapped or unmapped by it.
\<close>

definition frame_only :: "'a vmm_state_scheme \<Rightarrow> 'a vmm_state_scheme \<Rightarrow> bool" where
  "frame_only s s' \<longleftrightarrow>
     vmm_state.more s' = vmm_state.more s \<and> dev_in s' = dev_in s \<and> io_log s' = io_log s"

lemma frame_only_simps [simp]:
  "frame_only s s" "frame_only s (take_page p s)" "frame_only s (link_table t i f s)"
  "frame_only s (write_cell a j e s)" "frame_only s (invlpg v s)"
  by (simp_all add: frame_only_def take_page_def link_table_def write_cell_def zero_table_def invlpg_def)

lemma frame_only_trans [trans]: "frame_only s s' \<Longrightarrow> frame_only s' s'' \<Longrightarrow> frame_only s s''"
  by (simp add: frame_only_def)

definition table_added :: "'a vmm_state_scheme \<Rightarrow> nat list \<Rightarrow> nat \<Rightarrow> 'a vmm_state_scheme \<Rightarrow> bool" where
  "table_added s qs f s' \<longleftrightarrow>
     vm_inv s' \<and> hhdm_offset s' = hhdm_offset s \<and> invlpg_log s' = invlpg_log s \<and> frame_only s s' \<and>
     same_large s s' \<and>
     (\<forall>rs. table_path rs \<longrightarrow> tab s' rs = (if rs = qs then Some f else tab s rs)) \<and>
     (\<forall>i4 i3 i2 i1. i4 < 512 \<longrightarrow> i3 < 512 \<longrightarrow> i2 < 512 \<longrightarrow> i1 < 512 \<longrightarrow>
        pte_of s' (i4, i3, i2, i1) = pte_of s (i4, i3, i2, i1)) \<and>
     avail_frames s' \<subseteq> avail_frames s \<and>
     card (free_pages s) = card (free_pages s') + of_bool (tab s qs = None)"

lemma after_write [simp]:
  "free_pages (write_cell a i e s) = free_pages s" "avail_frames (write_cell a i e s) = avail_frames s"
  "hhdm_offset (write_cell a i e s) = hhdm_offset s" "invlpg_log (write_cell a i e s) = invlpg_log s"
  "cr3 (write_cell a i e s) = cr3 s"
  by (simp_all add: write_cell_def free_pages_def avail_frames_def)

lemma after_invlpg [simp]:
  "free_pages (invlpg v s) = free_pages s" "avail_frames (invlpg v s) = avail_frames s"
  "hhdm_offset (invlpg v s) = hhdm_offset s" "invlpg_log (invlpg v s) = invlpg_log s @ [v]"
  "cr3 (invlpg v s) = cr3 s" "cells (invlpg v s) = cells s"
  by (simp_all add: invlpg_def free_pages_def avail_frames_def)

lemma ent_invlpg [simp]: "ent (invlpg v s) = ent s" "tab (invlpg v s) = tab s"
  by (rule same_memory; simp)+

lemma large_of_invlpg [simp]: "large_of (invlpg v s) = large_of s"
  by (rule same_large_of) simp_all

lemma pte_of_invlpg [simp]: "pte_of (invlpg v s) idx = pte_of s idx"
  by (rule same_pte) simp_all

lemma vm_inv_invlpg [simp]: "vm_inv (invlpg v s) = vm_inv s"
  by (simp add: vm_inv_def) (simp add: invlpg_def pmm_inv_def free_pages_def)

lemma table_added_pte:
  "table_added s qs f s' \<Longrightarrow> i4 < 512 \<Longrightarrow> i3 < 512 \<Longrightarrow> i2 < 512 \<Longrightarrow> i1 < 512 \<Longrightarrow>
     pte_of s' (i4, i3, i2, i1) = pte_of s (i4, i3, i2, i1)"
  unfolding table_added_def by blast

lemma link_table_added:
  assumes inv: "vm_inv s" and ps: "table_path (ps @ [i])" "tab s ps = Some t"
    and np: "\<not> present (ent s t i)" and p: "p \<in> free_pages s"
  shows "table_added s (ps @ [i]) (p * PAGE_SIZE) (link_table t i (p * PAGE_SIZE) (take_page p s))"
proof -
  let ?f = "p * PAGE_SIZE" and ?s1 = "take_page p s"
  let ?s' = "link_table t i ?f ?s1"
  note pinv = vm_invD(1) [OF inv] and q = table_path_snoc [OF ps(1)]
  have f: "?f \<in> avail_frames s" using p by (auto simp: avail_frames_def)
  note fr = avail_frame(1,2) [OF inv f] and tf = tab_frame [OF ps(2)]
  have s1: "pmm_inv ?s1" "avail_frames ?s1 = avail_frames s - {?f}"
    using p pinv by (simp_all add: pmm_inv_take avail_frames_take free_pages_lt)
  have mem: "ent ?s' = ent (link_table t i ?f s)" "tab ?s' = tab (link_table t i ?f s)"
    by (rule same_memory; simp add: link_table_def write_cell_def zero_table_def cong: if_cong)+
  have none: "tab s (ps @ [i]) = None" using ps(2) np by (simp add: tab_snoc links_def)
  have "t \<noteq> ?f" using vm_invD(4) [OF inv _ ps(2)] q f by blast
  have tabs: "tab ?s' rs = (if rs = ps @ [i] then Some ?f else tab s rs)" if "table_path rs" for rs
    using tab_link_table [OF inv ps np f that] mem by simp
  have ents: "ent ?s' t' j = (if t' = t \<and> j = i then word_of_nat ?f OR PTE_PRESENT OR PTE_WRITABLE
      else if t' = ?f then 0 else ent s t' j)" if "t' mod 4096 = 0" "j < 512" for t' j
    unfolding mem(1) by (rule ent_link_table) (use tf fr q that \<open>t \<noteq> ?f\<close> in auto)
  have pte: "pte_of ?s' (i4, i3, i2, i1) = pte_of s (i4, i3, i2, i1)"
    if "i4 < 512" "i3 < 512" "i2 < 512" "i1 < 512" for i4 i3 i2 i1
  proof -
    have path: "table_path [i4, i3, i2]" using that by (simp add: table_path_def)
    show ?thesis
    proof (cases "[i4, i3, i2] = ps @ [i]")
      case True
      have "tab s [i4, i3, i2] = None" unfolding True by (rule none)
      moreover have "tab ?s' [i4, i3, i2] = Some ?f" unfolding True using tabs [OF ps(1)] by simp
      moreover have "ent ?s' ?f i1 = 0" using ents [of ?f i1] that fr(1) \<open>t \<noteq> ?f\<close> by simp
      ultimately show ?thesis by simp
    next
      case False
      show ?thesis
      proof (cases "tab s [i4, i3, i2]")
        case None
        then show ?thesis using tabs [OF path] False by simp
      next
        case (Some t')
        have "t' \<noteq> ?f" using vm_invD(4) [OF inv path Some] f by blast
        moreover have "t' \<noteq> t" using vm_invD(5) [OF inv path _ Some, of ps] ps(2) q by auto
        ultimately have "ent ?s' t' i1 = ent s t' i1"
          using ents [of t' i1] tab_frame(1) [OF Some] that by simp
        then show ?thesis using tabs [OF path] False Some by simp
      qed
    qed
  qed
  have large: "large_of ?s' qs j = large_of s qs j" if qs: "table_path (qs @ [j])" for qs j
  proof (cases "qs = ps @ [i]")
    case True
    have "ent ?s' ?f j = 0"
      using ents [of ?f j] table_path_snoc [OF qs] fr(1) \<open>t \<noteq> ?f\<close> by simp
    then show ?thesis using True none tabs [OF ps(1)] by (simp add: large_of_def)
  next
    case False
    then have same: "tab ?s' qs = tab s qs" using tabs table_path_snoc [OF qs] by simp
    show ?thesis
    proof (cases "tab s qs = Some t \<and> j = i")
      case True
      then show ?thesis using same np tf ents [of t i] q \<open>t \<noteq> ?f\<close> table_entry(3) [OF fr]
        by (simp add: large_of_def large_def)
    next
      case other: False
      show ?thesis
      proof (rule large_of_cong [OF same])
        fix t' assume t': "tab s qs = Some t'"
        have "t' \<noteq> ?f" using vm_invD(4) [OF inv _ t'] table_path_snoc [OF qs] f by blast
        then show "ent ?s' t' j = ent s t' j"
          using ents [of t' j] tab_frame(1) [OF t'] table_path_snoc [OF qs] other t' by auto
      qed
    qed
  qed
  have "vm_inv ?s'"
    by (rule vm_inv_link_table [OF inv ps np f]) (use s1 in simp_all)
  moreover have "free_pages ?s' = free_pages s - {p}"
    using free_pages_take [OF pinv free_pages_lt [OF p]]
    by (simp add: link_table_def write_cell_def zero_table_def free_pages_def)
  moreover have "frame_only s ?s'"
    by (rule frame_only_trans [OF frame_only_simps(2) frame_only_simps(3)])
  ultimately show ?thesis
    using tabs pte s1 none p large card.remove [OF finite_free_pages p]
    by (simp add: table_added_def same_large_def)
qed

lemma next_table_eq:
  assumes inv: "vm_inv s" and ps: "table_path (ps @ [i])" "tab s ps = Some t"
    and small: "large_of s ps i = None"
  obtains
    (there) f s' where "next_table_or_create pr (t + hhdm_offset s) i s = Inr (f + hhdm_offset s, s')"
      "table_added s (ps @ [i]) f s'"
  | (oom) "next_table_or_create pr (t + hhdm_offset s) i s = Inl (Panic ''VMM:OOM allocating page table'')"
      "free_pages s = {}" "tab s (ps @ [i]) = None"
proof (cases "present (ent s t i)")
  case True
  have nx: "tab s (ps @ [i]) = Some (frame_of (ent s t i))"
    using True ps(2) not_large_links [OF ps(2) small] by (simp add: tab_snoc)
  then have "table_added s (ps @ [i]) (frame_of (ent s t i)) s"
    using inv by (auto simp: table_added_def)
  moreover have "next_table_or_create pr (t + hhdm_offset s) i s =
      Inr (frame_of (ent s t i) + hhdm_offset s, s)"
    using True table_virt [OF inv ps(1) nx]
    by (simp add: next_table_or_create_def ent_def frame_of_def)
  ultimately show ?thesis using there by blast
next
  case False
  show ?thesis
  proof (cases "free_pages s = {}")
    case True
    then show ?thesis
      using False oom ps(2) vm_invD(1) [OF inv]
      by (simp add: next_table_or_create_def alloc_page_eq tab_snoc ent_def links_def)
  next
    case free: False
    let ?p = "Min (free_pages s)"
    have p: "?p \<in> free_pages s" by (rule Min_free_pages [OF free])
    then have f: "?p * PAGE_SIZE \<in> avail_frames s" by (auto simp: avail_frames_def)
    have "phys_to_virt pr (?p * PAGE_SIZE) (take_page ?p s) = Inr (?p * PAGE_SIZE + hhdm_offset s)"
      using avail_frame(3) [OF inv f] by (simp add: phys_to_virt_def)
    then have "next_table_or_create pr (t + hhdm_offset s) i s =
        Inr (?p * PAGE_SIZE + hhdm_offset s, link_table t i (?p * PAGE_SIZE) (take_page ?p s))"
      using False free vm_invD(1) [OF inv]
      by (simp add: next_table_or_create_def alloc_page_eq ent_def link_table_def)
    with link_table_added [OF inv ps False p] there show ?thesis by blast
  qed
qed

section \<open>Writing a leaf entry\<close>

lemma leaf_write:
  fixes e :: u64
  assumes inv: "vm_inv s" and t: "tab s [a, b, c] = Some t" "table_path [a, b, c]" and i: "i < 512"
  defines "s' \<equiv> write_cell (t + hhdm_offset s) i e s"
  shows "vm_inv s'"
    "i4 < 512 \<Longrightarrow> i3 < 512 \<Longrightarrow> i2 < 512 \<Longrightarrow> i1 < 512 \<Longrightarrow>
      pte_of s' (i4, i3, i2, i1) =
        (if (i4, i3, i2, i1) = (a, b, c, i) then (if present e then Some e else None)
         else pte_of s (i4, i3, i2, i1))"
    "table_path ps \<Longrightarrow> tab s' ps = tab s ps" "same_large s s'"
proof -
  have ents: "ent s' t' j = (if t' = t \<and> j = i then e else ent s t' j)"
    if "t' mod 4096 = 0" "j < 512" for t' j
    using cell_inj [of t' t j i "hhdm_offset s"] tab_frame(1) [OF t(1)] that i
    by (auto simp: ent_def s'_def read_cell_def write_cell_def)
  have root: "root s' = root s" by (simp add: root_def s'_def write_cell_def)
  have tabs: "table_path ps \<Longrightarrow> tab s' ps = tab s ps" for ps
  proof (induction ps rule: rev_induct)
    case Nil
    then show ?case by (simp add: root)
  next
    case (snoc j ps)
    note p = table_path_snoc [OF snoc.prems]
    then have IH: "tab s' ps = tab s ps" using snoc.IH by blast
    have "ent s' t' j = ent s t' j" if "tab s ps = Some t'" for t'
      using ents [of t' j] tab_frame(1) [OF that] p vm_invD(5) [OF inv _ t(2) that, of] t(1) by auto
    then show ?case using IH by (auto simp: tab_snoc split: option.splits)
  qed
  show "table_path ps \<Longrightarrow> tab s' ps = tab s ps" by (rule tabs)
  show "same_large s s'" unfolding same_large_def
  proof (intro allI impI)
    fix ps j assume path: "table_path (ps @ [j])"
    note p = table_path_snoc [OF path]
    have "ps \<noteq> [a, b, c]" using p by auto
    then have "ent s' t' j = ent s t' j" if "tab s ps = Some t'" for t'
      using ents [of t' j] tab_frame(1) [OF that] p vm_invD(5) [OF inv _ t(2) that] t(1) by auto
    then show "large_of s' ps j = large_of s ps j" using tabs p by (intro large_of_cong) simp_all
  qed
  show "vm_inv s'"
    using inv tabs vm_invD(4,5,6) [OF inv]
    by (auto simp: vm_inv_def) (auto simp: s'_def write_cell_def pmm_inv_def free_pages_def avail_frames_def)
  show "pte_of s' (i4, i3, i2, i1) =
        (if (i4, i3, i2, i1) = (a, b, c, i) then (if present e then Some e else None)
         else pte_of s (i4, i3, i2, i1))"
    if lt: "i4 < 512" "i3 < 512" "i2 < 512" "i1 < 512"
  proof -
    have path: "table_path [i4, i3, i2]" using lt by (simp add: table_path_def)
    show ?thesis
    proof (cases "tab s [i4, i3, i2]")
      case None
      then show ?thesis using tabs [OF path] t(1) by auto
    next
      case (Some t')
      have "t' = t \<longleftrightarrow> [i4, i3, i2] = [a, b, c]"
        using vm_invD(5) [OF inv path t(2) Some] t(1) Some by auto
      then show ?thesis using tabs [OF path] Some ents [of t' i1] tab_frame(1) [OF Some] lt by auto
    qed
  qed
qed

text \<open>Writing inside a frame that is no table changes no mapping.\<close>

lemma frame_write:
  assumes inv: "vm_inv s" and f: "f mod 4096 = 0"
    and no_tab: "\<And>ps t. table_path ps \<Longrightarrow> tab s ps = Some t \<Longrightarrow> t \<noteq> f"
    and same: "hhdm_offset s' = hhdm_offset s" "cr3 s' = cr3 s" "total_pages s' = total_pages s"
      "avail_frames s' = avail_frames s" "pmm_inv s'"
    and cells: "\<And>a. \<not> (f + hhdm_offset s \<le> a \<and> a < f + hhdm_offset s + 4096) \<Longrightarrow> cells s' a = cells s a"
  shows "vm_inv s'" "table_path ps \<Longrightarrow> tab s' ps = tab s ps"
    "pte_of s' (split_indices v) = pte_of s (split_indices v)" "same_large s s'"
proof -
  have ents: "ent s' t i = ent s t i" if "t mod 4096 = 0" "t \<noteq> f" "i < 512" for t i
    using cells cell_outside [OF that(1) f that(3)] that(2) by (simp add: ent_def read_cell_def same)
  have root: "root s' = root s" by (simp add: root_def same)
  have tabs: "table_path ps \<Longrightarrow> tab s' ps = tab s ps" for ps
  proof (induction ps rule: rev_induct)
    case Nil
    then show ?case by (simp add: root)
  next
    case (snoc j ps)
    note p = table_path_snoc [OF snoc.prems]
    then have IH: "tab s' ps = tab s ps" using snoc.IH by blast
    have "ent s' t j = ent s t j" if "tab s ps = Some t" for t
      using ents [of t j] tab_frame(1) [OF that] p no_tab that by blast
    then show ?case using IH by (auto simp: tab_snoc split: option.splits)
  qed
  then show "table_path ps \<Longrightarrow> tab s' ps = tab s ps" .
  show "same_large s s'" unfolding same_large_def
  proof (intro allI impI)
    fix ps j assume path: "table_path (ps @ [j])"
    note p = table_path_snoc [OF path]
    have "ent s' t j = ent s t j" if "tab s ps = Some t" for t
      using ents [of t j] tab_frame(1) [OF that] p no_tab that by blast
    then show "large_of s' ps j = large_of s ps j" using tabs p by (intro large_of_cong) simp_all
  qed
  show "vm_inv s'"
    using inv tabs same vm_invD(4-6) [OF inv] by (auto simp: vm_inv_def)
  obtain i4 i3 i2 i1 where ix: "split_indices v = (i4, i3, i2, i1)" by (metis prod_cases4)
  then have path: "table_path [i4, i3, i2]" "i1 < 512"
    using split_indices_lt [OF ix] by (simp_all add: table_path_def)
  show "pte_of s' (split_indices v) = pte_of s (split_indices v)"
  proof (cases "tab s [i4, i3, i2]")
    case None
    then show ?thesis using tabs [OF path(1)] ix by simp
  next
    case (Some t)
    then have "ent s' t i1 = ent s t i1"
      using ents [of t i1] tab_frame(1) [OF Some] no_tab [OF path(1) Some] path(2) by blast
    then show ?thesis using tabs [OF path(1)] ix Some by simp
  qed
qed

section \<open>The operations on the abstract map\<close>

text \<open>The tables of an address that do not exist yet.\<close>

fun missing_tables :: "'a vmm_state_scheme \<Rightarrow> nat \<times> nat \<times> nat \<times> nat \<Rightarrow> nat" where
  "missing_tables s (i4, i3, i2, i1) =
     length (filter (\<lambda>ps. tab s ps = None) [[i4], [i4, i3], [i4, i3, i2]])"

definition pte_bits :: "nat \<Rightarrow> u64 \<Rightarrow> u64" where
  "pte_bits phys flags = word_of_nat phys OR flags OR PTE_PRESENT"

lemma present_pte_bits [simp]: "present (pte_bits phys flags)"
  by (simp add: pte_bits_def present_def bit_or_iff bit_PTE_flags)

definition mapped :: "'a vmm_state_scheme \<Rightarrow> nat \<times> nat \<times> nat \<times> nat \<Rightarrow> u64 option \<Rightarrow> 'a vmm_state_scheme \<Rightarrow> bool" where
  "mapped s idx e s' \<longleftrightarrow>
     (\<forall>v. pte_of s' (split_indices v) = (if split_indices v = idx then e else pte_of s (split_indices v)))"

lemma mappedI:
  assumes "\<And>i4 i3 i2 i1. i4 < 512 \<Longrightarrow> i3 < 512 \<Longrightarrow> i2 < 512 \<Longrightarrow> i1 < 512 \<Longrightarrow>
    pte_of s' (i4, i3, i2, i1) =
      (if (i4, i3, i2, i1) = idx then e else pte_of s (i4, i3, i2, i1))"
  shows "mapped s idx e s'"
  unfolding mapped_def
proof
  fix v
  obtain i4 i3 i2 i1 where "split_indices v = (i4, i3, i2, i1)" by (metis prod_cases4)
  with assms split_indices_lt [OF this] show "pte_of s' (split_indices v) =
    (if split_indices v = idx then e else pte_of s (split_indices v))" by simp
qed

lemma root_phys_to_virt:
  "vm_inv s \<Longrightarrow> phys_to_virt pr (unat (cr3 s AND ADDR_MASK)) s = Inr (root s + hhdm_offset s)"
  using table_virt [of s "[]" "root s"] by (simp add: root_def frame_of_def)

definition map_result ::
    "nat \<Rightarrow> nat \<Rightarrow> u64 \<Rightarrow> 'a vmm_state_scheme \<Rightarrow> 'a vmm_state_scheme res \<Rightarrow> bool" where
  "map_result virt phys flags s r \<longleftrightarrow>
     (case r of
        Inl e \<Rightarrow> e = Panic ''VMM:OOM allocating page table'' \<and>
          card (free_pages s) < missing_tables s (split_indices virt)
      | Inr s' \<Rightarrow>
          vm_inv s' \<and> mapped s (split_indices virt) (Some (pte_bits phys flags)) s' \<and>
          invlpg_log s' = invlpg_log s @ [virt] \<and> hhdm_offset s' = hhdm_offset s \<and>
          frame_only s s' \<and> avail_frames s' \<subseteq> avail_frames s \<and> same_large s s' \<and>
          card (free_pages s) = card (free_pages s') + missing_tables s (split_indices virt))"

lemma map_page_result:
  assumes inv: "vm_inv s" and small: "small_path s (split_indices virt)"
    and al: "virt mod PAGE_SIZE = 0" "phys mod PAGE_SIZE = 0"
  shows "map_result virt phys flags s (map_page pr virt phys flags s)"
proof -
  obtain i4 i3 i2 i1 where ix: "split_indices virt = (i4, i3, i2, i1)" by (metis prod_cases4)
  note lt = split_indices_lt [OF ix]
  have paths: "table_path ([] @ [i4])" "table_path ([i4] @ [i3])" "table_path ([i4, i3] @ [i2])"
    using lt by (simp_all add: table_path_def)
  have sm: "large_of s [] i4 = None" "large_of s [i4] i3 = None" "large_of s [i4, i3] i2 = None"
    using small by (simp_all add: ix)
  note start = map_page_def [of pr virt phys flags s] al [unfolded PAGE_SIZE_def] ix root_phys_to_virt [OF inv, of pr]
  show ?thesis
  proof (cases rule: next_table_eq [OF inv paths(1) tab_Nil sm(1), of pr, case_names there oom])
    case oom
    then show ?thesis by (simp add: start map_result_def)
  next
    case (there f3 s3)
    then have inv3: "vm_inv s3" and t3: "tab s3 [i4] = Some f3"
      using paths(1) by (simp_all add: table_added_def)
    note A3 = there(2) and r3 = there(1) [unfolded append_Nil]
    note a3 = A3 [unfolded table_added_def, simplified]
    have m3: "tab s3 [i4, i3] = tab s [i4, i3]" "tab s3 [i4, i3, i2] = tab s [i4, i3, i2]"
      "hhdm_offset s3 = hhdm_offset s"
      using there(2) paths by (simp_all add: table_added_def)
    have sl3: "same_large s s3" using a3 by blast
    then have sm3: "large_of s3 [i4] i3 = None"
      using same_largeD [of s s3 "[i4]" i3] paths(2) sm(2) by simp
    show ?thesis
    proof (cases rule: next_table_eq [OF inv3 paths(2) t3 sm3, of pr, case_names there oom])
      case oom
      then show ?thesis using r3 a3 m3 by (simp add: start map_result_def ix)
    next
      case (there f2 s2)
      then have inv2: "vm_inv s2" and t2: "tab s2 [i4, i3] = Some f2"
        using paths(2) by (simp_all add: table_added_def)
      note A2 = there(2) and r2 = there(1)
      note a2 = A2 [unfolded table_added_def, simplified]
      have m2: "tab s2 [i4, i3, i2] = tab s3 [i4, i3, i2]" "hhdm_offset s2 = hhdm_offset s3"
        using there(2) paths by (simp_all add: table_added_def)
      have sl2: "same_large s s2" using same_large_trans [OF sl3] a2 by blast
      then have sm2: "large_of s2 [i4, i3] i2 = None"
        using same_largeD [of s s2 "[i4, i3]" i2] paths(3) sm(3) by simp
      show ?thesis
      proof (cases rule: next_table_eq [OF inv2 paths(3) t2 sm2, of pr, case_names there oom])
        case oom
        then show ?thesis using r3 r2 a3 a2 m3 m2 by (simp add: start map_result_def ix)
      next
        case (there f1 s1)
        note A1 = there(2) and r1 = there(1)
        note a1 = A1 [unfolded table_added_def, simplified]
        have inv1: "vm_inv s1" and t1: "tab s1 [i4, i3, i2] = Some f1" "table_path [i4, i3, i2]"
          using there(2) paths(3) by (simp_all add: table_added_def)
        have h: "hhdm_offset s1 = hhdm_offset s" using a1 m2 m3 by simp
        let ?s' = "write_cell (f1 + hhdm_offset s) i1 (pte_bits phys flags) s1"
        note leaf = leaf_write [OF inv1 t1 lt(4), where e = "pte_bits phys flags", unfolded h]
        have "map_page pr virt phys flags s = Inr (invlpg virt ?s')"
          using r3 r2 r1 m3 m2 by (simp add: start pte_bits_def or.assoc)
        moreover have "vm_inv (invlpg virt ?s')" using leaf(1) by simp
        moreover have "mapped s (i4, i3, i2, i1) (Some (pte_bits phys flags)) (invlpg virt ?s')"
        proof (rule mappedI)
          fix j4 j3 j2 j1 :: nat
          assume j: "j4 < 512" "j3 < 512" "j2 < 512" "j1 < 512"
          from leaf(2) [OF j] table_added_pte [OF A1 j] table_added_pte [OF A2 j]
            table_added_pte [OF A3 j] show "pte_of (invlpg virt ?s') (j4, j3, j2, j1) =
            (if (j4, j3, j2, j1) = (i4, i3, i2, i1) then Some (pte_bits phys flags)
             else pte_of s (j4, j3, j2, j1))" by (simp del: pte_of.simps)
        qed
        moreover have "card (free_pages s) = card (free_pages s1) + missing_tables s (i4, i3, i2, i1)"
          using a1 a2 a3 m3 m2 by simp
        moreover have "avail_frames s1 \<subseteq> avail_frames s" "invlpg_log s1 = invlpg_log s"
          using a1 a2 a3 by auto
        moreover have "frame_only s (invlpg virt ?s')"
          using a1 a2 a3 by (auto simp: frame_only_def invlpg_def write_cell_def)
        moreover have "same_large s (invlpg virt ?s')"
        proof -
          have "same_large s s1" using same_large_trans [OF sl2] a1 by blast
          from same_large_trans [OF this leaf(4)] show ?thesis
            by (simp add: same_large_def)
        qed
        ultimately show ?thesis
          using h by (simp add: map_result_def ix del: missing_tables.simps)
      qed
    qed
  qed
qed

text \<open>The page a virtual address lies in, as far as four levels of tables can tell.\<close>

definition vpage :: "nat \<Rightarrow> nat" where
  "vpage v = take_bit 36 (drop_bit 12 v)"

lemma and_511_take: "n AND 511 = take_bit 9 n" for n :: nat
  using take_bit_eq_mask [of 9 n] by (simp add: mask_eq_exp_minus_1)

lemma split_indices_eq_iff: "split_indices v = split_indices w \<longleftrightarrow> vpage v = vpage w"
proof
  assume e: "split_indices v = split_indices w"
  show "vpage v = vpage w"
  proof (rule bit_eqI)
    fix n :: nat
    have *: "bit (drop_bit (12 + k) v) m = bit (drop_bit (12 + k) w) m"
      if "m < 9" "k \<in> {0, 9, 18, 27}" for k m
    proof -
      have "take_bit 9 (drop_bit (12 + k) v) = take_bit 9 (drop_bit (12 + k) w)"
        using e that(2) by (auto simp: split_indices_def and_511_take)
      with that(1) show ?thesis by (metis bit_take_bit_iff)
    qed
    consider "36 \<le> n" | k m :: nat where "n = k + m" "m < 9" "k \<in> {0, 9, 18, 27}"
    proof -
      have "n = 9 * (n div 9) + n mod 9" "n mod 9 < 9" by simp_all
      moreover have "9 * (n div 9) \<in> {0, 9, 18, 27}" if "n < 36"
      proof -
        have "n div 9 < 4" using that by simp
        then show ?thesis by auto
      qed
      ultimately show ?thesis using that by (metis not_le)
    qed
    then show "bit (vpage v) n = bit (vpage w) n"
    proof cases
      case 2
      with * [of m k] show ?thesis by (simp add: vpage_def bit_simps add.assoc [symmetric])
    qed (simp add: vpage_def bit_simps)
  qed
next
  assume "vpage v = vpage w"
  then have b: "bit (vpage v) n = bit (vpage w) n" for n by simp
  have *: "n < 36 \<Longrightarrow> bit v (12 + n) = bit w (12 + n)" for n
    using b [of n] by (simp add: vpage_def bit_simps)
  have "take_bit 9 (drop_bit (12 + k) v) = take_bit 9 (drop_bit (12 + k) w)" if "k \<le> 27" for k
    by (rule bit_eqI) (use that * [of "k + n" for n] in \<open>auto simp: bit_simps add.assoc\<close>)
  from this [of 0] this [of 9] this [of 18] this [of 27]
  show "split_indices v = split_indices w" by (simp add: split_indices_def and_511_take)
qed

lemma walk_existing_eq:
  assumes inv: "vm_inv s" and small: "small_path s (split_indices virt)"
    and ix: "split_indices virt = (i4, i3, i2, i1)"
  shows "walk_existing pr virt s =
    Inr (map_option (\<lambda>t. (t + hhdm_offset s, i1, ent s t i1)) (tab s [i4, i3, i2]))"
proof -
  have path: "table_path [i4]" "table_path [i4, i3]" "table_path [i4, i3, i2]"
    using split_indices_lt [OF ix] by (auto simp: table_path_def)
  have sm: "large_of s [] i4 = None" "large_of s [i4] i3 = None" "large_of s [i4, i3] i2 = None"
    using small by (simp_all add: ix)
  note l = not_large_links [OF tab_Nil sm(1)] not_large_links [OF _ sm(2)] not_large_links [OF _ sm(3)]
  show ?thesis
    using root_phys_to_virt [OF inv, of pr] table_virt [OF inv path(1), of _ pr] l
      table_virt [OF inv path(2), of _ pr] table_virt [OF inv path(3), of _ pr] ix
    by (simp add: walk_existing_def tab_def ent_def [symmetric] frame_of_def Let_def)
qed

lemma get_phys_addr_eq:
  assumes inv: "vm_inv s" and small: "small_path s (split_indices virt)"
  shows "get_phys_addr pr virt s =
    Inr (map_option (\<lambda>e. frame_of e OR (virt AND 0xfff)) (pte_of s (split_indices virt)))"
proof -
  obtain i4 i3 i2 i1 where ix: "split_indices virt = (i4, i3, i2, i1)" by (metis prod_cases4)
  show ?thesis
    by (simp add: get_phys_addr_def walk_existing_eq [OF inv small ix] ix frame_of_def split: option.split)
qed

lemma frame_or_offset:
  assumes "f mod PAGE_SIZE = 0"
  shows "f OR (v AND 0xfff) = f + v mod PAGE_SIZE"
proof -
  have m: "v AND 0xfff = take_bit 12 v"
    using take_bit_eq_mask [of 12 v] by (simp add: mask_eq_exp_minus_1)
  obtain p where p: "f = push_bit 12 p" using assms by (auto simp: push_bit_eq_mult mult.commute)
  have "f AND take_bit 12 v = 0" by (rule bit_eqI) (auto simp: p bit_simps)
  then have "f + take_bit 12 v = f OR take_bit 12 v" by (rule disjunctive_add_eq_or)
  then show ?thesis unfolding m by (simp add: take_bit_eq_mod)
qed

lemma unmap_page_result:
  assumes inv: "vm_inv s" and small: "small_path s (split_indices virt)" and al: "virt mod PAGE_SIZE = 0"
  obtains s' where "unmap_page pr virt s = Inr s'" "vm_inv s'" "same_large s s'"
    "mapped s (split_indices virt) None s'" "free_pages s' = free_pages s"
    "pte_of s (split_indices virt) = None \<or> invlpg_log s' = invlpg_log s @ [virt]"
proof -
  obtain i4 i3 i2 i1 where ix: "split_indices virt = (i4, i3, i2, i1)" by (metis prod_cases4)
  note lt = split_indices_lt [OF ix]
  have path: "table_path [i4, i3, i2]" using lt by (simp add: table_path_def)
  show ?thesis
  proof (cases "tab s [i4, i3, i2]")
    case None
    then have "mapped s (i4, i3, i2, i1) None s" by (auto simp: mapped_def)
    then show ?thesis
      using that [of s] None inv al by (simp add: unmap_page_def walk_existing_eq [OF inv small ix] ix)
  next
    case (Some t)
    let ?s' = "invlpg virt (write_cell (t + hhdm_offset s) i1 0 s)"
    note leaf = leaf_write [OF inv Some path lt(4), where e = 0]
    have "mapped s (i4, i3, i2, i1) None ?s'"
      by (rule mappedI) (simp add: leaf(2) del: pte_of.simps)
    moreover have "unmap_page pr virt s = Inr ?s'"
      using Some al by (simp add: unmap_page_def walk_existing_eq [OF inv small ix])
    moreover have "same_large s ?s'" using leaf(4) by (simp add: same_large_def)
    ultimately show ?thesis using that [of ?s'] leaf(1) by (simp add: ix del: pte_of.simps)
  qed
qed

section \<open>Properties\<close>

text \<open>A machine of 16 frames, of which 10 to 14 are free and 9 is the empty root table.\<close>

definition small_vmm :: "'a \<Rightarrow> 'a vmm_state_scheme" where
  "small_vmm m = \<lparr>dev_in = (\<lambda>l p. 0xff), io_log = [], bitmap_ptr = 0x8000, bitmap = [0xff, 0x83],
     bitmap_len = 2, total_pages = 16, free_count = 5, usable_page = 5,
     hhdm_offset = 0xffff800000000000, cr3 = 0x9000, cells = (\<lambda>a. 0), invlpg_log = [],
     \<dots> = m\<rparr>"

lemma small_vmm_free: "free_pages (small_vmm m) = {10, 11, 12, 13, 14}"
  by (simp add: free_pages_list small_vmm_def page_bit_def upt_rec) (simp add: numeral_eq_Suc)

lemma small_vmm_root: "root (small_vmm m) = 0x9000"
  by (simp add: root_def small_vmm_def frame_of_eq drop_bit_eq_div take_bit_eq_mod)

lemma small_vmm_tab: "tab (small_vmm m) ps = (if ps = [] then Some 0x9000 else None)"
proof (cases ps)
  case (Cons i js)
  then show ?thesis by (simp add: tab_def ent_def read_cell_def) (simp add: small_vmm_def)
qed (simp add: small_vmm_root)

lemma small_vmm_inv: "vm_inv (small_vmm m)"
  unfolding vm_inv_def pmm_inv_def avail_frames_def
  by (simp add: small_vmm_free small_vmm_tab) (auto simp: small_vmm_def)

lemma small_vmm_small: "small_path (small_vmm m) idx"
  by (cases idx) (simp add: large_of_def small_vmm_tab ent_def read_cell_def, simp add: small_vmm_def)

lemma small_vmm_pte: "pte_of (small_vmm m) idx = None"
  by (cases idx) (simp add: small_vmm_tab)

text \<open>
  C5: \<open>map_page\<close> refines a single-point update of the abstract map, from any tree of tables, large pages
  among its leaves included, for an address whose walk meets no large page (the code does not test for one).
  It rejects unaligned addresses; it panics for lack of memory exactly when fewer frames are
  free than tables are missing on the path; otherwise it takes exactly the missing tables from
  the frame allocator, maps the virtual page to the given frame and flags (replacing what was
  there), changes no other page's entry and no large page, invalidates the page in the TLB, and keeps
  the tables a tree disjoint from the free frames.
\<close>

theorem map_page_correct:
  assumes "vm_inv s" "small_path s (split_indices virt)"
  shows "case map_page pr virt phys flags s of
      Inl e \<Rightarrow>
        (if virt mod PAGE_SIZE \<noteq> 0 then e = Panic ''map_page: virt not aligned''
         else if phys mod PAGE_SIZE \<noteq> 0 then e = Panic ''map_page: phys not aligned''
         else e = Panic ''VMM:OOM allocating page table'' \<and>
           card (free_pages s) < missing_tables s (split_indices virt))
    | Inr s' \<Rightarrow>
        virt mod PAGE_SIZE = 0 \<and> phys mod PAGE_SIZE = 0 \<and> vm_inv s' \<and>
        (\<forall>v. pte_of s' (split_indices v) =
          (if vpage v = vpage virt then Some (pte_bits phys flags) else pte_of s (split_indices v))) \<and>
        same_large s s' \<and> invlpg_log s' = invlpg_log s @ [virt] \<and> avail_frames s' \<subseteq> avail_frames s \<and>
        card (free_pages s) = card (free_pages s') + missing_tables s (split_indices virt)"
proof (cases "virt mod PAGE_SIZE = 0 \<and> phys mod PAGE_SIZE = 0")
  case False
  then show ?thesis by (auto simp: map_page_def ensure_def)
next
  case True
  with map_page_result [OF assms, of phys flags pr] show ?thesis
    by (auto simp: map_result_def mapped_def split_indices_eq_iff split: sum.splits
        simp del: missing_tables.simps)
qed

theorem map_page_correct_witness:
  "vm_inv (small_vmm ()) \<and>
   (\<exists>s'. map_page Dev 0xffff900000000000 0x8000 PTE_WRITABLE (small_vmm ()) = Inr s' \<and>
      pte_of s' (split_indices 0xffff900000000000) = Some (pte_bits 0x8000 PTE_WRITABLE) \<and>
      card (free_pages s') = 2)"
proof -
  have "missing_tables (small_vmm ()) (split_indices 0xffff900000000000) = 3"
    by (cases "split_indices 0xffff900000000000") (simp add: small_vmm_tab)
  with map_page_correct [OF small_vmm_inv [of "()"] small_vmm_small, where pr = Dev and virt = "0xffff900000000000"
      and phys = "0x8000" and flags = PTE_WRITABLE]
  show ?thesis by (auto simp: small_vmm_inv small_vmm_free split: sum.splits)
qed

lemma map_page_translates:
  assumes "vm_inv s" "small_path s (split_indices virt)" "map_page pr virt phys flags s = Inr s'"
    and "phys < 2 ^ 52" "flags AND ADDR_MASK = 0" "small_path s (split_indices v)"
  shows "get_phys_addr pr v s' =
    (if vpage v = vpage virt then Inr (Some (phys + v mod PAGE_SIZE)) else get_phys_addr pr v s)"
proof -
  have al: "virt mod PAGE_SIZE = 0" "phys mod PAGE_SIZE = 0"
    using assms(3) by (auto simp: map_page_def ensure_def split: if_splits)
  have r: "vm_inv s'" "mapped s (split_indices virt) (Some (pte_bits phys flags)) s'" "same_large s s'"
    using map_page_result [OF assms(1,2) al, of flags pr] assms(3) by (auto simp: map_result_def)
  have "PTE_PRESENT AND ADDR_MASK = 0"
    by (rule bit_word_eqI) (auto simp: bit_and_iff bit_ADDR_MASK bit_PTE_flags)
  then have "(flags OR PTE_PRESENT) AND ADDR_MASK = 0"
    using assms(5) by (simp add: bit.conj_disj_distrib2)
  then have "frame_of (pte_bits phys flags) = phys"
    using frame_of_word [OF _ assms(4)] al(2) by (simp add: pte_bits_def)
  then show ?thesis
    using r(2) frame_or_offset [OF al(2), of v]
    by (auto simp: get_phys_addr_eq r(1) assms(1,6) same_large_small [OF r(3)] mapped_def split_indices_eq_iff)
qed

text \<open>
  Translation after mapping. Once \<open>map_page\<close> has mapped \<open>virt\<close> to a 52-bit frame with flags
  that stay out of the address bits, \<open>get_phys_addr\<close> sends every address of that page to the
  same offset in the frame, and answers as before for every other page outside the large ones.
\<close>

theorem map_then_translate:
  assumes "vm_inv s" "small_path s (split_indices virt)" "map_page pr virt phys flags s = Inr s'"
    and "phys < 2 ^ 52" "flags AND ADDR_MASK = 0" "small_path s (split_indices v)"
  shows "get_phys_addr pr v s' =
    (if vpage v = vpage virt then Inr (Some (phys + v mod PAGE_SIZE)) else get_phys_addr pr v s)"
  using assms by (rule map_page_translates)

theorem map_then_translate_witness:
  "\<exists>s'. map_page Dev 0xffff900000000000 0x8000 PTE_WRITABLE (small_vmm ()) = Inr s' \<and>
     get_phys_addr Dev 0xffff900000000123 s' = Inr (Some 0x8123) \<and>
     get_phys_addr Dev 0xffff900000001000 s' = Inr None"
proof -
  have "missing_tables (small_vmm ()) (split_indices 0xffff900000000000) = 3"
    by (cases "split_indices 0xffff900000000000") (simp add: small_vmm_tab)
  then obtain s' where s': "map_page Dev 0xffff900000000000 0x8000 PTE_WRITABLE (small_vmm ()) = Inr s'"
    using map_page_result [OF small_vmm_inv [of "()"] small_vmm_small, of "0xffff900000000000" "0x8000" PTE_WRITABLE Dev]
    by (auto simp: map_result_def small_vmm_free split: sum.splits)
  have "PTE_WRITABLE AND ADDR_MASK = 0"
    by (rule bit_word_eqI) (auto simp: bit_and_iff bit_ADDR_MASK bit_PTE_flags)
  note tr = map_then_translate [OF small_vmm_inv [of "()"] small_vmm_small s' _ this small_vmm_small]
  have "vpage 0xffff900000000123 = vpage 0xffff900000000000"
    "vpage 0xffff900000001000 \<noteq> vpage 0xffff900000000000"
    by (simp_all add: vpage_def drop_bit_eq_div take_bit_eq_mod)
  then show ?thesis
    using s' tr [of "0xffff900000000123"] tr [of "0xffff900000001000"]
    by (simp add: get_phys_addr_eq [OF small_vmm_inv [of "()"] small_vmm_small] small_vmm_pte)
qed

text \<open>
  C15: \<open>unmap_page\<close> of an aligned address whose walk meets no large page never fails: afterwards the page has
  no entry, \<open>get_phys_addr\<close> answers \<open>None\<close> for each of its addresses and is unchanged for every other
  address outside the large pages, no other entry and no large page changes, and a page
  that was mapped is invalidated in the TLB. No frame is freed: intermediate tables and the
  page itself stay allocated.
\<close>

theorem unmap_page_correct:
  assumes "vm_inv s" "small_path s (split_indices virt)" "virt mod PAGE_SIZE = 0"
  shows "\<exists>s'. unmap_page pr virt s = Inr s' \<and> vm_inv s' \<and> free_pages s' = free_pages s \<and>
    (\<forall>v. pte_of s' (split_indices v) = (if vpage v = vpage virt then None else pte_of s (split_indices v))) \<and>
    (\<forall>v. small_path s (split_indices v) \<longrightarrow> get_phys_addr pr v s' =
      (if vpage v = vpage virt then Inr None else get_phys_addr pr v s)) \<and> same_large s s' \<and>
    (pte_of s (split_indices virt) = None \<or> invlpg_log s' = invlpg_log s @ [virt])"
proof -
  obtain s' where r: "unmap_page pr virt s = Inr s'" "vm_inv s'" "same_large s s'"
    "mapped s (split_indices virt) None s'" "free_pages s' = free_pages s"
    "pte_of s (split_indices virt) = None \<or> invlpg_log s' = invlpg_log s @ [virt]"
    using unmap_page_result [OF assms, where pr = pr] by blast
  have pte: "pte_of s' (split_indices v) = (if vpage v = vpage virt then None else pte_of s (split_indices v))" for v
    using r(4) by (simp add: mapped_def split_indices_eq_iff)
  have "get_phys_addr pr v s' = (if vpage v = vpage virt then Inr None else get_phys_addr pr v s)"
    if "small_path s (split_indices v)" for v
    using that get_phys_addr_eq [OF r(2), of v pr] get_phys_addr_eq [OF assms(1), of v pr] pte [of v]
      same_large_small [OF r(3)] by simp
  then show ?thesis using r pte by (intro exI [of _ s']) blast
qed

theorem unmap_page_correct_witness:
  "\<exists>s1 s2. map_page Release 0x400000 0xf000 0 (small_vmm ()) = Inr s1 \<and>
     unmap_page Release 0x400000 s1 = Inr s2 \<and> get_phys_addr Release 0x400008 s2 = Inr None"
proof -
  have "missing_tables (small_vmm ()) (split_indices 0x400000) = 3"
    by (cases "split_indices 0x400000") (simp add: small_vmm_tab)
  then obtain s1 where s1: "map_page Release 0x400000 0xf000 0 (small_vmm ()) = Inr s1" "vm_inv s1"
    "same_large (small_vmm ()) s1"
    using map_page_result [OF small_vmm_inv [of "()"] small_vmm_small, of "0x400000" "0xf000" 0 Release]
    by (auto simp: map_result_def small_vmm_free split: sum.splits)
  have vp: "vpage 0x400008 = vpage 0x400000"
    by (simp add: vpage_def drop_bit_eq_div take_bit_eq_mod)
  have small: "small_path s1 (split_indices v)" for v
    by (simp only: same_large_small [OF s1(3)] small_vmm_small)
  have al: "0x400000 mod PAGE_SIZE = 0" by simp
  obtain s2 where s2: "unmap_page Release 0x400000 s1 = Inr s2"
    "\<forall>v. small_path s1 (split_indices v) \<longrightarrow> get_phys_addr Release v s2 =
      (if vpage v = vpage 0x400000 then Inr None else get_phys_addr Release v s1)"
    using unmap_page_correct [OF s1(2) small al, of Release] by (elim exE conjE)
  then have "get_phys_addr Release 0x400008 s2 = Inr None"
    using small vp by simp
  with s1(1) s2(1) show ?thesis by blast
qed

end
