(* ===== verification/Heap.thy ===== *)
theory Heap
  imports Vmm
begin

text \<open>
  The kernel heap (\<open>memory/heap.rs\<close>): a first-fit allocator over one contiguous run of blocks,
  each led by a header. \<open>headers\<close> is the memory the headers live in, an explicit store by
  address, with the headers the code has written and no client has overwritten since; those left
  behind by coalescing stay in the store, as they stay in memory. Elsewhere a header is read from memory that
  holds something else: \<open>stray\<close> is what those bytes mean as a header, an input of the model, and an
  address where they are not mapped has no \<open>stray\<close> header and faults (\<open>WildAccess\<close>).

  \<open>heap_inv\<close> says the chain of headers tiles the region from \<open>HEAP_HEAD\<close> to \<open>HEAP_END\<close>;
  \<open>kmalloc\<close> and \<open>kfree\<close> refine \<open>first_fit\<close> and \<open>release\<close> on the list of block sizes. The locale
  \<open>block_allocator\<close> is the contract its clients use.
\<close>

section \<open>State and constants\<close>

record block_header =
  hsize :: nat
  hused :: u8
  hmagic :: u32
  hnext :: nat

record heap_state = vmm_state +
  headers :: "nat \<Rightarrow> block_header option"
  stray :: "nat \<Rightarrow> block_header option"
  heap_head :: nat
  heap_end :: nat
  heap_inited :: bool

definition HEAP_START :: nat where "HEAP_START = 0xffff800100000000"
definition HEAP_MAX_SIZE :: nat where "HEAP_MAX_SIZE = 64 * 1024 * 1024"
definition MAGIC_FREE :: u32 where "MAGIC_FREE = 0xFEE1DEAD"
definition MAGIC_USED :: u32 where "MAGIC_USED = 0xCAFEBABE"

text \<open>
  \<open>size_of::<BlockHeader>()\<close>: 8 + 1 + 4 + 3 + 8 bytes, laid out by rustc by decreasing
  alignment with no padding left.
\<close>

definition HEADER_SIZE :: nat where [simp]: "HEADER_SIZE = 24"
definition ALIGN :: nat where [simp]: "ALIGN = 16"

lemma magic_neq [simp]: "MAGIC_FREE \<noteq> MAGIC_USED" "MAGIC_USED \<noteq> MAGIC_FREE"
  by (simp_all add: MAGIC_FREE_def MAGIC_USED_def)

section \<open>Operations\<close>

definition align_up :: "profile \<Rightarrow> nat \<Rightarrow> nat res" where
  "align_up pr n =
     andThen (uadd pr n ALIGN) (\<lambda>x. andThen (usub pr x 1) (\<lambda>x. Inr (and_not x (ALIGN - 1))))"

definition header_at :: "nat \<Rightarrow> 'a heap_state_scheme \<Rightarrow> block_header option" where
  "header_at a s = (case headers s a of None \<Rightarrow> stray s a | Some h \<Rightarrow> Some h)"

lemma header_at_Some [simp]: "headers s a = Some h \<Longrightarrow> header_at a s = Some h"
  by (simp add: header_at_def)

definition read_hdr :: "nat \<Rightarrow> 'a heap_state_scheme \<Rightarrow> block_header res" where
  "read_hdr a s = (case header_at a s of None \<Rightarrow> Inl (WildAccess a) | Some h \<Rightarrow> Inr h)"

definition write_hdr :: "nat \<Rightarrow> block_header \<Rightarrow> 'a heap_state_scheme \<Rightarrow> 'a heap_state_scheme" where
  "write_hdr a h s = s\<lparr>headers := (headers s)(a \<mapsto> h)\<rparr>"

text \<open>\<open>for i in 0..n_pages\<close>: the second argument counts the pages left, \<open>i\<close> those done.\<close>

fun map_fresh_pages ::
    "profile \<Rightarrow> nat \<Rightarrow> nat \<Rightarrow> nat \<Rightarrow> 'a heap_state_scheme \<Rightarrow> 'a heap_state_scheme res" where
  "map_fresh_pages pr virt 0 i s = Inr s"
| "map_fresh_pages pr virt (Suc n) i s =
     andThen (alloc_page pr s) (\<lambda>(r, s).
       case r of
         None \<Rightarrow> Inl (Panic ''heap: OOM while expanding - no physical pages left'')
       | Some phys \<Rightarrow>
           andThen (umul pr i PAGE_SIZE) (\<lambda>off. andThen (uadd pr virt off) (\<lambda>v.
           andThen (map_page pr v phys (PTE_PRESENT OR PTE_WRITABLE OR PTE_NO_EXEC) s)
             (map_fresh_pages pr virt n (Suc i)))))"

definition kmalloc_init ::
    "profile \<Rightarrow> nat \<Rightarrow> nat \<Rightarrow> 'a heap_state_scheme \<Rightarrow> 'a heap_state_scheme res" where
  "kmalloc_init pr start size_bytes s =
     andThen (ensure (\<not> heap_inited s) ''kmalloc_init called twice'') (\<lambda>_.
     andThen (ensure (start mod PAGE_SIZE = 0) ''heap start must be page-aligned'') (\<lambda>_.
     andThen (ensure (HEADER_SIZE + ALIGN < size_bytes) ''heap too small'') (\<lambda>_.
     andThen (uadd pr size_bytes PAGE_SIZE) (\<lambda>x. andThen (usub pr x 1) (\<lambda>x.
     let pages = x div PAGE_SIZE in
     andThen (umul pr pages PAGE_SIZE) (\<lambda>total.
     andThen (map_fresh_pages pr start pages 0 s) (\<lambda>s.
     andThen (usub pr total HEADER_SIZE) (\<lambda>sz.
     let s = write_hdr start \<lparr>hsize = sz, hused = 0, hmagic = MAGIC_FREE, hnext = 0\<rparr> s in
     andThen (uadd pr start total) (\<lambda>en.
       Inr (s\<lparr>heap_head := start, heap_end := en, heap_inited := True\<rparr>))))))))))"

text \<open>The first half of the loop body of \<open>kmalloc\<close>: carve \<open>needed\<close> bytes out of a free block.\<close>

definition take_block ::
    "profile \<Rightarrow> nat \<Rightarrow> nat \<Rightarrow> block_header \<Rightarrow> 'a heap_state_scheme \<Rightarrow> 'a heap_state_scheme res" where
  "take_block pr needed cur hdr s =
     andThen (uadd pr needed HEADER_SIZE) (\<lambda>x. andThen (uadd pr x ALIGN) (\<lambda>x.
     let leftover = hsize hdr - x in
     andThen
       (if 0 < leftover then
          andThen (uadd pr cur HEADER_SIZE) (\<lambda>a. andThen (uadd pr a needed) (\<lambda>new_hdr_addr.
          andThen (usub pr (hsize hdr) needed) (\<lambda>b. andThen (usub pr b HEADER_SIZE) (\<lambda>sz.
            Inr (hdr\<lparr>hnext := new_hdr_addr, hsize := needed\<rparr>,
              write_hdr new_hdr_addr
                \<lparr>hsize = sz, hused = 0, hmagic = MAGIC_FREE, hnext = hnext hdr\<rparr> s)))))
        else Inr (hdr, s))
       (\<lambda>(hdr, s). Inr (write_hdr cur (hdr\<lparr>hused := 1, hmagic := MAGIC_USED\<rparr>) s))))"

text \<open>
  The loop of \<open>kmalloc\<close>. A list of headers may be cyclic, so the loop is a partial function;
  \<open>None\<close> is a loop that never ends.
\<close>

partial_function (option) kmalloc_scan ::
    "profile \<Rightarrow> nat \<Rightarrow> nat \<Rightarrow> 'a heap_state_scheme \<Rightarrow> (nat option \<times> 'a heap_state_scheme) res option" where
  "kmalloc_scan pr needed cur s =
     (if cur = 0 then Some (Inr (None, s))
      else case read_hdr cur s of
        Inl e \<Rightarrow> Some (Inl e)
      | Inr hdr \<Rightarrow>
          if hmagic hdr \<noteq> MAGIC_FREE \<and> hmagic hdr \<noteq> MAGIC_USED
          then Some (Inl (Panic ''kmalloc: heap corruption detected''))
          else if hused hdr = 0 \<and> needed \<le> hsize hdr
          then Some (andThen (take_block pr needed cur hdr s) (\<lambda>s. Inr (Some (cur + HEADER_SIZE), s)))
          else kmalloc_scan pr needed (hnext hdr) s)"

text \<open>\<open>while !(*cur).next.is_null() { cur = (*cur).next; }\<close>\<close>

partial_function (option) last_hdr ::
    "nat \<Rightarrow> 'a heap_state_scheme \<Rightarrow> (nat \<times> block_header) res option" where
  "last_hdr cur s =
     (case read_hdr cur s of
        Inl e \<Rightarrow> Some (Inl e)
      | Inr hdr \<Rightarrow> if hnext hdr = 0 then Some (Inr (cur, hdr)) else last_hdr (hnext hdr) s)"

definition or_hang :: "'a res option \<Rightarrow> 'a res" where
  "or_hang r = (case r of None \<Rightarrow> Inl Hang | Some r \<Rightarrow> r)"

definition expand_heap :: "profile \<Rightarrow> nat \<Rightarrow> 'a heap_state_scheme \<Rightarrow> 'a heap_state_scheme res" where
  "expand_heap pr needed s =
     andThen (uadd pr needed HEADER_SIZE) (\<lambda>x. andThen (uadd pr x PAGE_SIZE) (\<lambda>x.
     andThen (align_up pr x) (\<lambda>extra_bytes.
     let extra_pages = extra_bytes div PAGE_SIZE in
     andThen (uadd pr (heap_end s) extra_bytes) (\<lambda>y. andThen (usub pr y HEAP_START) (\<lambda>y.
     andThen (ensure (y \<le> HEAP_MAX_SIZE) ''heap: exceeded maximum size'') (\<lambda>_.
     andThen (map_fresh_pages pr (heap_end s) extra_pages 0 s) (\<lambda>s.
     andThen (umul pr extra_pages PAGE_SIZE) (\<lambda>ext. andThen (usub pr ext HEADER_SIZE) (\<lambda>sz.
     let new_hdr = heap_end s;
         s = write_hdr new_hdr \<lparr>hsize = sz, hused = 0, hmagic = MAGIC_FREE, hnext = 0\<rparr> s in
     andThen (or_hang (last_hdr (heap_head s) s)) (\<lambda>(cur, hdr).
     let s = write_hdr cur (hdr\<lparr>hnext := new_hdr\<rparr>) s in
     andThen (uadd pr (heap_end s) ext) (\<lambda>en. Inr (s\<lparr>heap_end := en\<rparr>))))))))))))"

partial_function (option) kmalloc ::
    "profile \<Rightarrow> nat \<Rightarrow> 'a heap_state_scheme \<Rightarrow> (nat \<times> 'a heap_state_scheme) res option" where
  "kmalloc pr nbytes s =
     (if \<not> heap_inited s then Some (Inl (Panic ''kmalloc called before  kmalloc_init''))
      else if nbytes = 0 then Some (Inl (Panic ''kmalloc(0) is not supported''))
      else case align_up pr nbytes of
        Inl e \<Rightarrow> Some (Inl e)
      | Inr needed \<Rightarrow>
          (case or_hang (kmalloc_scan pr needed (heap_head s) s) of
             Inl e \<Rightarrow> Some (Inl e)
           | Inr (Some p, s) \<Rightarrow> Some (Inr (p, s))
           | Inr (None, s) \<Rightarrow>
               (case expand_heap pr needed s of
                  Inl e \<Rightarrow> Some (Inl e)
                | Inr s \<Rightarrow> kmalloc pr nbytes s)))"

definition coalesce :: "profile \<Rightarrow> nat \<Rightarrow> 'a heap_state_scheme \<Rightarrow> 'a heap_state_scheme res" where
  "coalesce pr cur s =
     andThen (read_hdr cur s) (\<lambda>hdr.
     let nxt = hnext hdr in
     if nxt = 0 then Inr s
     else andThen (read_hdr nxt s) (\<lambda>nhdr.
       if hused nhdr \<noteq> 0 then Inr s
       else andThen (uadd pr HEADER_SIZE (hsize nhdr)) (\<lambda>x. andThen (uadd pr (hsize hdr) x) (\<lambda>sz.
         Inr (write_hdr cur (hdr\<lparr>hsize := sz, hnext := hnext nhdr\<rparr>) s)))))"

definition kfree :: "profile \<Rightarrow> nat \<Rightarrow> 'a heap_state_scheme \<Rightarrow> 'a heap_state_scheme res" where
  "kfree pr ptr s =
     (if ptr = 0 then Inr s
      else
        andThen (ensure (heap_inited s) ''kfree called before kmalloc_init'') (\<lambda>_.
        andThen (usub pr ptr HEADER_SIZE) (\<lambda>a.
        andThen (read_hdr a s) (\<lambda>hdr.
        andThen (ensure (hmagic hdr \<noteq> MAGIC_FREE) ''kfree: double free detected'') (\<lambda>_.
        andThen (ensure (hmagic hdr = MAGIC_USED)
          ''kfree: invalid pointer or heap corruption'') (\<lambda>_.
        let s = write_hdr a (hdr\<lparr>hused := 0, hmagic := MAGIC_FREE\<rparr>) s in coalesce pr a s))))))"

section \<open>Mapping fresh pages\<close>

lemma vm_inv_take:
  assumes inv: "vm_inv s" and p: "p \<in> free_pages s"
  shows "vm_inv (take_page p s)"
proof -
  have "tab (take_page p s) = tab s" by (rule same_memory) simp_all
  then show ?thesis
    using vm_invD [OF inv] p
    by (auto simp: vm_inv_def pmm_inv_take avail_frames_take free_pages_lt)
qed

lemma pte_of_take [simp]: "pte_of (take_page p s) idx = pte_of s idx"
  by (intro same_pte same_memory) simp_all

definition mapped_range :: "nat \<Rightarrow> nat \<Rightarrow> 'a vmm_state_scheme \<Rightarrow> bool" where
  "mapped_range a b s \<longleftrightarrow> (\<forall>v. a \<le> v \<and> v < b \<longrightarrow> pte_of s (split_indices v) \<noteq> None)"

definition small_range :: "nat \<Rightarrow> nat \<Rightarrow> 'a vmm_state_scheme \<Rightarrow> bool" where
  "small_range a b s \<longleftrightarrow> (\<forall>v. a \<le> v \<and> v < b \<longrightarrow> small_path s (split_indices v))"

lemma small_range_same: "same_large s s' \<Longrightarrow> small_range a b s' = small_range a b s"
  by (simp add: small_range_def same_large_small)

lemma small_range_vm_part: "vm_part s' = vm_part s \<Longrightarrow> small_range a b s' = small_range a b s"
  using vm_part_cong(8) [of s' s] by (simp add: small_range_def)

lemma small_range_sub: "small_range a b s \<Longrightarrow> a \<le> c \<Longrightarrow> d \<le> b \<Longrightarrow> small_range c d s"
  by (auto simp: small_range_def)

definition only_maps :: "'a vmm_state_scheme \<Rightarrow> 'a vmm_state_scheme \<Rightarrow> bool" where
  "only_maps s s' \<longleftrightarrow> vm_inv s' \<and> frame_only s s' \<and> avail_frames s' \<subseteq> avail_frames s \<and> same_large s s' \<and>
     (\<forall>v. pte_of s (split_indices v) \<noteq> None \<longrightarrow> pte_of s' (split_indices v) \<noteq> None)"

lemma only_maps_trans: "only_maps s s' \<Longrightarrow> only_maps s' s'' \<Longrightarrow> only_maps s s''"
  unfolding only_maps_def using frame_only_trans same_large_trans by (metis subset_trans)

definition oom :: "fault \<Rightarrow> bool" where
  "oom e \<longleftrightarrow> e = Panic ''heap: OOM while expanding - no physical pages left'' \<or>
     e = Panic ''VMM:OOM allocating page table''"

lemma heap_fields:
  assumes "frame_only s s'"
  shows "headers s' = headers s" "heap_head s' = heap_head s" "heap_end s' = heap_end s"
    "heap_inited s' = heap_inited s" "heap_state.more s' = heap_state.more s" "stray s' = stray s"
  using assms by (cases s; cases s'; simp add: frame_only_def)+

lemma vpage_page:
  assumes "v mod PAGE_SIZE = 0" "v \<le> w" "w < v + PAGE_SIZE"
  shows "vpage w = vpage v"
proof -
  obtain k where k: "v = k * 4096" using assms(1) by auto
  have "w div 4096 = k" using assms(2,3) unfolding k by (simp add: div_nat_eqI)
  then show ?thesis by (simp add: vpage_def drop_bit_eq_div k)
qed

lemma missing_tables_le: "missing_tables s idx \<le> 3"
  by (cases idx) simp

lemma map_fresh_pages_result:
  assumes "vm_inv s" "virt mod PAGE_SIZE = 0" "virt + (i + n) * PAGE_SIZE < usize_lim"
    "small_range virt (virt + (i + n) * PAGE_SIZE) s"
  shows "case map_fresh_pages pr virt n i s of
      Inl e \<Rightarrow> oom e \<and> card (free_pages s) < 4 * n
    | Inr s' \<Rightarrow> only_maps s s' \<and>
        mapped_range (virt + i * PAGE_SIZE) (virt + (i + n) * PAGE_SIZE) s'"
  using assms
proof (induction n arbitrary: i s)
  case 0
  then show ?case by (auto simp: only_maps_def mapped_range_def)
next
  case (Suc n)
  show ?case
  proof (cases "free_pages s = {}")
    case True
    then show ?thesis using vm_invD(1) [OF Suc.prems(1)] by (simp add: alloc_page_eq oom_def)
  next
    case False
    let ?p = "Min (free_pages s)" and ?v = "virt + i * PAGE_SIZE"
    let ?fl = "PTE_PRESENT OR PTE_WRITABLE OR PTE_NO_EXEC"
    let ?r = "map_page pr ?v (?p * PAGE_SIZE) ?fl (take_page ?p s)"
    have inv: "vm_inv (take_page ?p s)"
      by (rule vm_inv_take [OF Suc.prems(1) Min_free_pages [OF False]])
    have al: "?v mod PAGE_SIZE = 0" "?p * PAGE_SIZE mod PAGE_SIZE = 0"
      using Suc.prems(2) by auto
    have unf: "map_fresh_pages pr virt (Suc n) i s =
        andThen ?r (map_fresh_pages pr virt n (Suc i))"
      using False vm_invD(1) [OF Suc.prems(1)] Suc.prems(3) by (simp add: alloc_page_eq)
    have sl: "same_large s (take_page ?p s)"
      by (intro same_large_eq same_large_of same_memory) simp_all
    have "small_path s (split_indices ?v)" using Suc.prems(4) by (simp add: small_range_def)
    then have "small_path (take_page ?p s) (split_indices ?v)" by (simp only: same_large_small [OF sl])
    note r = map_page_result [OF inv this al, of ?fl pr]
    have free: "card (free_pages s) = Suc (card (free_pages (take_page ?p s)))"
      unfolding free_pages_take [OF vm_invD(1) [OF Suc.prems(1)] free_pages_lt [OF Min_free_pages [OF False]]]
      by (rule card_Suc_Diff1 [symmetric, OF finite_free_pages Min_free_pages [OF False]])
    show ?thesis
    proof (cases ?r)
      case (Inl e)
      then show ?thesis using r free missing_tables_le [of "take_page ?p s" "split_indices ?v"]
        unfolding unf by (simp add: map_result_def oom_def)
    next
      case (Inr s1)
      note r1 = r [unfolded map_result_def Inr sum.case]
      have "avail_frames (take_page ?p s) \<subseteq> avail_frames s"
        using vm_invD(1) [OF Suc.prems(1)] Min_free_pages [OF False]
        by (simp add: avail_frames_take free_pages_lt Diff_subset)
      moreover have "frame_only s s1" using r1 frame_only_trans [OF frame_only_simps(2)] by blast
      ultimately have m1: "vm_inv s1" "mapped (take_page ?p s) (split_indices ?v) (Some (pte_bits (?p * PAGE_SIZE) ?fl)) s1"
        "frame_only s s1" "avail_frames s1 \<subseteq> avail_frames s" "same_large s s1"
        using r1 same_large_trans [OF sl] by blast+
      have left: "card (free_pages s) \<le> card (free_pages s1) + 4"
        using r1 free missing_tables_le [of "take_page ?p s" "split_indices ?v"] by linarith
      from m1 have om: "only_maps s s1" by (simp add: only_maps_def mapped_def del: PAGE_SIZE_def)
      have here: "mapped_range ?v (?v + PAGE_SIZE) s1"
        unfolding mapped_range_def
      proof (intro allI impI)
        fix v assume "?v \<le> v \<and> v < ?v + PAGE_SIZE"
        then have "split_indices v = split_indices ?v"
          using vpage_page [OF al(1)] split_indices_eq_iff by blast
        with m1(2) have "pte_of s1 (split_indices v) = Some (pte_bits (?p * PAGE_SIZE) ?fl)"
          unfolding mapped_def by metis
        then show "pte_of s1 (split_indices v) \<noteq> None" by simp
      qed
      have lim: "virt + (Suc i + n) * PAGE_SIZE < usize_lim" using Suc.prems(3) by simp
      have "small_range virt (virt + (Suc i + n) * PAGE_SIZE) s1"
        using Suc.prems(4) by (simp only: small_range_same [OF m1(5)] add_Suc add_Suc_right)
      note IH = Suc.IH [OF m1(1) Suc.prems(2) lim this]
      show ?thesis
      proof (cases "map_fresh_pages pr virt n (Suc i) s1")
        case (Inl e)
        then show ?thesis using IH Inr left unfolding unf by simp
      next
        case I2: (Inr s2)
        then have s2: "only_maps s1 s2"
          "mapped_range (virt + Suc i * PAGE_SIZE) (virt + (Suc i + n) * PAGE_SIZE) s2"
          using IH by simp_all
        have "mapped_range ?v (virt + (i + Suc n) * PAGE_SIZE) s2"
          unfolding mapped_range_def
        proof (intro allI impI)
          fix v assume v: "?v \<le> v \<and> v < virt + (i + Suc n) * PAGE_SIZE"
          show "pte_of s2 (split_indices v) \<noteq> None"
          proof (cases "v < ?v + PAGE_SIZE")
            case True
            then have "pte_of s1 (split_indices v) \<noteq> None" using here v unfolding mapped_range_def by blast
            then show ?thesis using s2(1) unfolding only_maps_def by blast
          next
            case False
            then have "virt + Suc i * PAGE_SIZE \<le> v" by simp
            moreover have "v < virt + (Suc i + n) * PAGE_SIZE" using v by simp
            ultimately show ?thesis using s2(2) unfolding mapped_range_def by blast
          qed
        qed
        then show ?thesis using I2 Inr only_maps_trans [OF om s2(1)] unfolding unf by simp
      qed
    qed
  qed
qed

section \<open>The list of blocks\<close>

text \<open>A block is its payload size and whether it is in use.\<close>

type_synonym blk = "nat \<times> bool"

definition hdr_of :: "nat \<Rightarrow> bool \<Rightarrow> nat \<Rightarrow> block_header" where
  "hdr_of sz u nx = \<lparr>hsize = sz, hused = of_bool u,
     hmagic = (if u then MAGIC_USED else MAGIC_FREE), hnext = nx\<rparr>"

text \<open>The headers from \<open>a\<close> on describe the blocks \<open>bs\<close>, which tile \<open>a ..< e\<close>.\<close>

fun chain :: "(nat \<Rightarrow> block_header option) \<Rightarrow> nat \<Rightarrow> nat \<Rightarrow> blk list \<Rightarrow> bool" where
  "chain H a e [] \<longleftrightarrow> a = e"
| "chain H a e ((sz, u) # bs) \<longleftrightarrow>
     H a = Some (hdr_of sz u (if bs = [] then 0 else a + HEADER_SIZE + sz)) \<and>
     chain H (a + HEADER_SIZE + sz) e bs"

text \<open>
  The allocator on lists: take the lowest free block that is large enough, split off the rest
  if a header and more than \<open>ALIGN\<close> bytes remain; a freed block absorbs the next one when that
  is free.
\<close>

fun first_fit :: "nat \<Rightarrow> nat \<Rightarrow> blk list \<Rightarrow> (nat \<times> blk list) option" where
  "first_fit n a [] = None"
| "first_fit n a ((sz, u) # bs) =
     (if \<not> u \<and> n \<le> sz then
        Some (a + HEADER_SIZE,
          if n + HEADER_SIZE + ALIGN < sz then (n, True) # (sz - n - HEADER_SIZE, False) # bs
          else (sz, True) # bs)
      else map_option (\<lambda>(p, bs'). (p, (sz, u) # bs')) (first_fit n (a + HEADER_SIZE + sz) bs))"

fun merge_next :: "nat \<Rightarrow> blk list \<Rightarrow> blk list" where
  "merge_next sz ((sz', False) # bs) = (sz + HEADER_SIZE + sz', False) # bs"
| "merge_next sz bs = (sz, False) # bs"

fun release :: "nat \<Rightarrow> nat \<Rightarrow> blk list \<Rightarrow> blk list" where
  "release p a [] = []"
| "release p a ((sz, u) # bs) =
     (if p = a + HEADER_SIZE then merge_next sz bs
      else (sz, u) # release p (a + HEADER_SIZE + sz) bs)"

text \<open>The payloads in use: address and size.\<close>

fun live :: "nat \<Rightarrow> blk list \<Rightarrow> (nat \<times> nat) set" where
  "live a [] = {}"
| "live a ((sz, u) # bs) =
     (if u then {(a + HEADER_SIZE, sz)} else {}) \<union> live (a + HEADER_SIZE + sz) bs"

definition block_ok :: "blk \<Rightarrow> bool" where
  "block_ok b \<longleftrightarrow> ALIGN \<le> fst b \<and> fst b mod 8 = 0"

definition heap_blocks :: "'a heap_state_scheme \<Rightarrow> blk list \<Rightarrow> bool" where
  "heap_blocks s bs \<longleftrightarrow>
     heap_inited s \<and> HEAP_START \<le> heap_head s \<and> heap_end s \<le> HEAP_START + HEAP_MAX_SIZE \<and>
     heap_head s mod PAGE_SIZE = 0 \<and> heap_end s mod PAGE_SIZE = 0 \<and> bs \<noteq> [] \<and>
     chain (headers s) (heap_head s) (heap_end s) bs \<and> list_all block_ok bs"

text \<open>No large page lies where the heap may grow.\<close>

definition heap_window :: "'a vmm_state_scheme \<Rightarrow> bool" where
  "heap_window s \<longleftrightarrow> small_range HEAP_START (HEAP_START + HEAP_MAX_SIZE) s"

definition heap_inv :: "'a heap_state_scheme \<Rightarrow> bool" where
  "heap_inv s \<longleftrightarrow> vm_inv s \<and> heap_window s \<and> (\<exists>bs. heap_blocks s bs) \<and>
     mapped_range (heap_head s) (heap_end s) s"

text \<open>The list is determined by the memory.\<close>

lemma chain_le: "chain H a e bs \<Longrightarrow> a \<le> e"
  by (induction bs arbitrary: a) fastforce+

lemma chain_lt: "chain H a e bs \<Longrightarrow> bs \<noteq> [] \<Longrightarrow> a < e"
  by (cases bs) (fastforce dest: chain_le)+

lemma hdr_of_inject [simp]: "hdr_of sz u n = hdr_of sz' u' n' \<longleftrightarrow> sz = sz' \<and> u = u' \<and> n = n'"
  by (auto simp: hdr_of_def split: if_splits)

lemma hdr_of_sel [simp]:
  "hsize (hdr_of sz u n) = sz" "hused (hdr_of sz u n) = of_bool u"
  "hmagic (hdr_of sz u n) = (if u then MAGIC_USED else MAGIC_FREE)" "hnext (hdr_of sz u n) = n"
  by (simp_all add: hdr_of_def)

lemma hdr_of_updates [simp]:
  "hdr_of sz u n\<lparr>hsize := sz', hnext := n'\<rparr> = hdr_of sz' u n'"
  "hdr_of sz u n\<lparr>hnext := n'\<rparr> = hdr_of sz u n'"
  "hdr_of sz u n\<lparr>hused := 1, hmagic := MAGIC_USED\<rparr> = hdr_of sz True n"
  "hdr_of sz u n\<lparr>hused := 0, hmagic := MAGIC_FREE\<rparr> = hdr_of sz False n"
  "\<lparr>hsize = sz, hused = 0, hmagic = MAGIC_FREE, hnext = n\<rparr> = hdr_of sz False n"
  by (simp_all add: hdr_of_def)

lemma chain_unique: "chain H a e bs \<Longrightarrow> chain H a e bs' \<Longrightarrow> bs = bs'"
proof (induction bs arbitrary: a bs')
  case Nil
  then show ?case by (auto dest: chain_lt)
next
  case (Cons b bs)
  obtain sz u where b: "b = (sz, u)" by fastforce
  then have "a < e" using Cons.prems(1) chain_lt by blast
  then obtain b' bs'' where bs': "bs' = b' # bs''" using Cons.prems(2) by (cases bs') auto
  then show ?case using Cons b by (cases b') auto
qed

lemma chain_cong:
  "chain H a e bs \<Longrightarrow> (\<And>x. a \<le> x \<Longrightarrow> x < e \<Longrightarrow> H' x = H x) \<Longrightarrow> chain H' a e bs"
proof (induction bs arbitrary: a)
  case (Cons b bs)
  obtain sz u where b: "b = (sz, u)" by fastforce
  have "a < e" using Cons.prems(1) chain_lt by blast
  then show ?case using Cons b by simp
qed simp

lemma chain_append_one:
  "chain H a e bs \<Longrightarrow> bs \<noteq> [] \<Longrightarrow>
     \<exists>c sz u. last bs = (sz, u) \<and> H c = Some (hdr_of sz u 0) \<and> c + HEADER_SIZE + sz = e \<and> a \<le> c \<and>
       (\<forall>H' sz'. H' e = Some (hdr_of sz' False 0) \<and> H' c = Some (hdr_of sz u e) \<and>
          (\<forall>x. a \<le> x \<and> x < c \<longrightarrow> H' x = H x) \<longrightarrow>
          chain H' a (e + HEADER_SIZE + sz') (bs @ [(sz', False)]))"
proof (induction bs arbitrary: a)
  case (Cons b bs)
  obtain sz u where b: "b = (sz, u)" by fastforce
  show ?case
  proof (cases "bs = []")
    case True
    then show ?thesis using Cons.prems b by (intro exI [of _ a] exI [of _ sz] exI [of _ u]) auto
  next
    case False
    let ?a = "a + HEADER_SIZE + sz"
    have ch: "H a = Some (hdr_of sz u ?a)" "chain H ?a e bs" using Cons.prems b False by auto
    obtain c sz1 u1 where c: "last bs = (sz1, u1)" "H c = Some (hdr_of sz1 u1 0)"
      "c + HEADER_SIZE + sz1 = e" "?a \<le> c"
      and app: "\<And>H' sz'. H' e = Some (hdr_of sz' False 0) \<Longrightarrow> H' c = Some (hdr_of sz1 u1 e) \<Longrightarrow>
          \<forall>x. ?a \<le> x \<and> x < c \<longrightarrow> H' x = H x \<Longrightarrow>
          chain H' ?a (e + HEADER_SIZE + sz') (bs @ [(sz', False)])"
      using Cons.IH [OF ch(2) False] by blast
    show ?thesis
    proof (intro exI conjI allI impI)
      show "last (b # bs) = (sz1, u1)" using c False by simp
      show "a \<le> c" using c by simp
      fix H' sz'
      assume H': "H' e = Some (hdr_of sz' False 0) \<and> H' c = Some (hdr_of sz1 u1 e) \<and>
          (\<forall>x. a \<le> x \<and> x < c \<longrightarrow> H' x = H x)"
      moreover have "H' a = H a" using H' c(4) by simp
      ultimately show "chain H' a (e + HEADER_SIZE + sz') ((b # bs) @ [(sz', False)])"
        using app [of H' sz'] ch(1) b False by simp
    qed (use c in auto)
  qed
qed simp

lemma chain_appended:
  assumes "chain H a e bs" "bs \<noteq> []" "last bs = (sz, u)" "c + HEADER_SIZE + sz = e"
    and "H' e = Some (hdr_of sz' False 0)" "H' c = Some (hdr_of sz u e)"
    and "\<And>x. a \<le> x \<Longrightarrow> x < c \<Longrightarrow> H' x = H x"
  shows "chain H' a (e + HEADER_SIZE + sz') (bs @ [(sz', False)])"
proof -
  obtain d where "d + HEADER_SIZE + sz = e" and all: "\<forall>H' sz'. H' e = Some (hdr_of sz' False 0) \<and>
      H' d = Some (hdr_of sz u e) \<and> (\<forall>x. a \<le> x \<and> x < d \<longrightarrow> H' x = H x) \<longrightarrow>
      chain H' a (e + HEADER_SIZE + sz') (bs @ [(sz', False)])"
    using chain_append_one [OF assms(1,2)] assms(3) by auto
  then have "d = c" using assms(4) by simp
  then show ?thesis using all assms(5-7) by blast
qed

section \<open>The operations refine the list\<close>

lemma take_block_eq:
  assumes "needed \<le> sz" "cur + HEADER_SIZE + sz + ALIGN < usize_lim"
  shows "take_block pr needed cur (hdr_of sz False nx) s =
    Inr (if needed + HEADER_SIZE + ALIGN < sz
         then write_hdr cur (hdr_of needed True (cur + HEADER_SIZE + needed))
           (write_hdr (cur + HEADER_SIZE + needed) (hdr_of (sz - needed - HEADER_SIZE) False nx) s)
         else write_hdr cur (hdr_of sz True nx) s)"
proof -
  have u: "hdr_of sz False x\<lparr>hsize := y, hused := 1, hmagic := MAGIC_USED\<rparr> =
      hdr_of y True x" for x y
    by (simp add: hdr_of_def del: hdr_of_updates)
  show ?thesis
    using assms by (simp add: take_block_def u Let_def)
qed

lemma kmalloc_scan_none:
  assumes "chain (headers s) a e bs" "0 < a" "first_fit n a bs = None"
  shows "kmalloc_scan pr n (if bs = [] then 0 else a) s = Some (Inr (None, s))"
  using assms
proof (induction bs arbitrary: a)
  case Nil
  then show ?case by (subst kmalloc_scan.simps) simp
next
  case (Cons b bs)
  obtain sz u where b: "b = (sz, u)" by fastforce
  let ?a = "a + HEADER_SIZE + sz"
  have h: "headers s a = Some (hdr_of sz u (if bs = [] then 0 else ?a))" and ch: "chain (headers s) ?a e bs"
    using Cons.prems(1) b by simp_all
  have "\<not> (\<not> u \<and> n \<le> sz)" "first_fit n ?a bs = None"
    using Cons.prems(3) b by (auto split: if_splits)
  then show ?case
    using Cons.IH [OF ch] Cons.prems(2) h by (subst kmalloc_scan.simps) (auto simp: read_hdr_def)
qed

lemma kmalloc_scan_some:
  assumes "chain (headers s) a e bs" "0 < a" "e + ALIGN < usize_lim" "first_fit n a bs = Some (p, bs')"
  shows "\<exists>H. kmalloc_scan pr n a s = Some (Inr (Some p, s\<lparr>headers := H\<rparr>)) \<and> chain H a e bs' \<and>
    (\<forall>x. x < a \<or> e \<le> x \<longrightarrow> H x = headers s x)"
  using assms
proof (induction bs arbitrary: a bs')
  case (Cons b bs)
  obtain sz u where b: "b = (sz, u)" by fastforce
  let ?a = "a + HEADER_SIZE + sz"
  have h: "headers s a = Some (hdr_of sz u (if bs = [] then 0 else ?a))" and ch: "chain (headers s) ?a e bs"
    using Cons.prems(1) b by simp_all
  show ?case
  proof (cases "\<not> u \<and> n \<le> sz")
    case True
    have e: "a + HEADER_SIZE + sz \<le> e" by (rule chain_le [OF ch])
    then have lim: "a + HEADER_SIZE + sz + ALIGN < usize_lim" using Cons.prems(3) by simp
    let ?nx = "if bs = [] then 0 else ?a"
    let ?s' = "if n + HEADER_SIZE + ALIGN < sz
         then write_hdr a (hdr_of n True (a + HEADER_SIZE + n))
           (write_hdr (a + HEADER_SIZE + n) (hdr_of (sz - n - HEADER_SIZE) False ?nx) s)
         else write_hdr a (hdr_of sz True ?nx) s"
    have scan: "kmalloc_scan pr n a s = Some (Inr (Some (a + HEADER_SIZE), ?s'))"
      using take_block_eq [of n sz a pr ?nx s] True lim h Cons.prems(2)
      by (subst kmalloc_scan.simps) (simp add: read_hdr_def)
    have res: "p = a + HEADER_SIZE"
      "bs' = (if n + HEADER_SIZE + ALIGN < sz then (n, True) # (sz - n - HEADER_SIZE, False) # bs
              else (sz, True) # bs)"
      using Cons.prems(4) b True by auto
    have "chain (headers ?s') ?a e bs"
      by (rule chain_cong [OF ch]) (use True in \<open>simp add: write_hdr_def\<close>)
    then have "chain (headers ?s') a e bs'"
      using True by (simp add: res write_hdr_def ac_simps split: if_split_asm)
    moreover have "kmalloc_scan pr n a s = Some (Inr (Some p, s\<lparr>headers := headers ?s'\<rparr>))"
      unfolding scan res(1) by (simp add: write_hdr_def)
    moreover have "headers ?s' x = headers s x" if "x < a \<or> e \<le> x" for x
      using that e True by (auto simp: write_hdr_def)
    ultimately show ?thesis by blast
  next
    case False
    then obtain bs2 where b2: "first_fit n ?a bs = Some (p, bs2)" "bs' = (sz, u) # bs2"
      using Cons.prems(4) b by (auto split: if_splits)
    then have ne: "bs \<noteq> []" "bs2 \<noteq> []" by (cases bs; auto split: if_splits)+
    from Cons.IH [OF ch _ Cons.prems(3) b2(1)] obtain H where H:
      "kmalloc_scan pr n ?a s = Some (Inr (Some p, s\<lparr>headers := H\<rparr>))" "chain H ?a e bs2"
      "\<forall>x. x < ?a \<or> e \<le> x \<longrightarrow> H x = headers s x" by auto
    have "kmalloc_scan pr n a s = kmalloc_scan pr n ?a s"
      using False h ne Cons.prems(2) by (subst kmalloc_scan.simps) (auto simp: read_hdr_def)
    moreover have "chain H a e bs'" using H h ne b2(2) by simp
    ultimately show ?thesis using H by auto
  qed
qed simp

lemma last_hdr_eq:
  assumes "chain H a e bs" "bs \<noteq> []" "0 < a" "\<And>x. a \<le> x \<Longrightarrow> x < e \<Longrightarrow> headers s x = H x"
  shows "\<exists>c sz u. last_hdr a s = Some (Inr (c, hdr_of sz u 0)) \<and> last bs = (sz, u) \<and>
    c + HEADER_SIZE + sz = e \<and> a \<le> c"
  using assms
proof (induction bs arbitrary: a)
  case (Cons b bs)
  obtain sz u where b: "b = (sz, u)" by fastforce
  let ?a = "a + HEADER_SIZE + sz"
  have ch: "chain H ?a e bs" using Cons.prems(1) b by simp
  have h: "headers s a = Some (hdr_of sz u (if bs = [] then 0 else ?a))"
    using Cons.prems(1,4) b chain_lt [OF Cons.prems(1)] by simp
  show ?case
  proof (cases "bs = []")
    case True
    then show ?thesis using h ch b by (subst last_hdr.simps) (auto simp: read_hdr_def)
  next
    case False
    have "last_hdr a s = last_hdr ?a s"
      using False h by (subst last_hdr.simps) (simp add: read_hdr_def)
    moreover have "\<exists>c sz u. last_hdr ?a s = Some (Inr (c, hdr_of sz u 0)) \<and> last bs = (sz, u) \<and>
        c + HEADER_SIZE + sz = e \<and> ?a \<le> c"
      by (rule Cons.IH [OF ch False]) (use Cons.prems(4) in auto)
    ultimately show ?thesis using False by fastforce
  qed
qed simp

section \<open>Growing the heap\<close>

text \<open>Heap bookkeeping does not touch the page tables.\<close>

lemma vm_ignores_heap:
  assumes "vmm_state.truncate s' = vmm_state.truncate s"
  shows "vm_inv s' = vm_inv s" "pte_of s' idx = pte_of s idx" "mapped_range a b s' = mapped_range a b s"
    "avail_frames s' = avail_frames s" "free_pages s' = free_pages s" "heap_window s' = heap_window s"
proof -
  have part: "vm_part s' = vm_part s" using assms by (simp add: vm_part_def vmm_state.defs)
  note eq = vm_part_cong [OF part]
  show "heap_window s' = heap_window s" by (simp only: heap_window_def small_range_vm_part [OF part])
  show "vm_inv s' = vm_inv s" "pte_of s' idx = pte_of s idx" "avail_frames s' = avail_frames s"
    "free_pages s' = free_pages s" by (rule eq)+
  show "mapped_range a b s' = mapped_range a b s" by (simp only: mapped_range_def eq)
qed

lemma truncate_heap [simp]:
  "vmm_state.truncate (s\<lparr>headers := H\<rparr>) = vmm_state.truncate s"
  "vmm_state.truncate (s\<lparr>stray := R\<rparr>) = vmm_state.truncate s"
  "vmm_state.truncate (s\<lparr>heap_head := x\<rparr>) = vmm_state.truncate s"
  "vmm_state.truncate (s\<lparr>heap_end := x\<rparr>) = vmm_state.truncate s"
  "vmm_state.truncate (s\<lparr>heap_inited := b\<rparr>) = vmm_state.truncate s"
  "vmm_state.truncate (write_hdr x h s) = vmm_state.truncate s"
  by (simp_all add: vmm_state.defs write_hdr_def)

lemma align_up_eq: "n + ALIGN < usize_lim \<Longrightarrow> align_up pr n = Inr ((n + 15) div 16 * 16)"
  by (simp add: align_up_def and_not_15)

lemma heap_lim: "HEAP_START + HEAP_MAX_SIZE + 2 ^ 41 < usize_lim"
  by (simp add: HEAP_START_def HEAP_MAX_SIZE_def)

lemma extra_pages_bounds:
  fixes needed :: nat
  defines "eb \<equiv> (needed + HEADER_SIZE + PAGE_SIZE + 15) div 16 * 16"
  defines "ext \<equiv> eb div PAGE_SIZE * PAGE_SIZE"
  shows "eb \<le> needed + 4135" "ext \<le> eb" "needed + HEADER_SIZE < ext" "PAGE_SIZE \<le> ext"
proof -
  have "4096 \<le> eb" "needed + 4120 \<le> eb" "eb \<le> needed + 4135" unfolding eb_def by simp_all
  moreover have "eb < ext + 4096" "ext \<le> eb" unfolding ext_def
    using div_mult_mod_eq [of eb PAGE_SIZE] mod_less_divisor [of PAGE_SIZE eb] by simp_all
  moreover have "1 \<le> eb div 4096" using \<open>4096 \<le> eb\<close> by (simp add: div_greater_zero_iff Suc_leI)
  then have "4096 \<le> ext" unfolding ext_def by simp
  ultimately show "eb \<le> needed + 4135" "ext \<le> eb" "needed + HEADER_SIZE < ext" "PAGE_SIZE \<le> ext" by simp_all
qed

lemma page_minus_header_mod_8: "(k * PAGE_SIZE - HEADER_SIZE) mod 8 = 0"
proof -
  have "k * PAGE_SIZE - HEADER_SIZE = 8 * (512 * k - 3)" by (simp add: diff_mult_distrib2)
  then show ?thesis by simp
qed

definition heap_keeps :: "'a heap_state_scheme \<Rightarrow> 'a heap_state_scheme \<Rightarrow> bool" where
  "heap_keeps s s' \<longleftrightarrow> avail_frames s' \<subseteq> avail_frames s \<and> dev_in s' = dev_in s \<and>
     heap_state.more s' = heap_state.more s \<and> heap_head s' = heap_head s"

lemma expand_heap_result:
  assumes hb: "heap_blocks s bs" and inv: "vm_inv s" and mr: "mapped_range (heap_head s) (heap_end s) s"
    and win: "heap_window s" and n: "needed \<le> 2 ^ 40"
  shows "case expand_heap pr needed s of
      Inl e \<Rightarrow> oom e \<or> e = Panic ''heap: exceeded maximum size''
    | Inr s' \<Rightarrow> \<exists>sz. needed \<le> sz \<and> heap_blocks s' (bs @ [(sz, False)]) \<and> vm_inv s' \<and> heap_window s' \<and>
        mapped_range (heap_head s') (heap_end s') s' \<and> heap_keeps s s'"
proof -
  let ?eb = "(needed + HEADER_SIZE + PAGE_SIZE + 15) div 16 * 16"
  let ?np = "?eb div PAGE_SIZE"
  let ?ext = "?np * PAGE_SIZE"
  note eb = extra_pages_bounds [of needed]
  note h = hb [unfolded heap_blocks_def]
  have lims: "heap_end s + 2 ^ 41 < usize_lim" "HEAP_START \<le> heap_end s"
    using h heap_lim chain_le [of "headers s" "heap_head s" "heap_end s" bs] by auto
  have al: "align_up pr (needed + HEADER_SIZE + PAGE_SIZE) = Inr ?eb"
    by (rule align_up_eq) (use n in simp)
  show ?thesis
  proof (cases "heap_end s + ?eb - HEAP_START \<le> HEAP_MAX_SIZE")
    case False
    then have "expand_heap pr needed s = Inl (Panic ''heap: exceeded maximum size'')"
      using al n lims eb(1) by (simp add: expand_heap_def Let_def del: HEADER_SIZE_def PAGE_SIZE_def)
    then show ?thesis by simp
  next
    case True
    let ?r = "map_fresh_pages pr (heap_end s) ?np 0 s"
    have mlim: "heap_end s + (0 + ?np) * PAGE_SIZE < usize_lim" using lims eb n by simp
    have "heap_end s + (0 + ?np) * PAGE_SIZE \<le> HEAP_START + HEAP_MAX_SIZE"
      using True eb(2) lims(2) by simp
    then have "small_range (heap_end s) (heap_end s + (0 + ?np) * PAGE_SIZE) s"
      by (rule small_range_sub [OF win [unfolded heap_window_def] lims(2)])
    note mr' = map_fresh_pages_result [OF inv _ mlim this, of pr]
    show ?thesis
    proof (cases ?r)
      case (Inl e)
      then have "expand_heap pr needed s = Inl e"
        using al n lims eb(1) True by (simp add: expand_heap_def Let_def del: HEADER_SIZE_def PAGE_SIZE_def)
      then show ?thesis using mr' Inl h by simp
    next
      case (Inr s1)
      then have s1: "only_maps s s1" "mapped_range (heap_end s) (heap_end s + ?ext) s1"
        using mr' h by simp_all
      then have fr: "frame_only s s1" by (simp add: only_maps_def)
      note f = heap_fields [OF fr]
      let ?s2 = "write_hdr (heap_end s) (hdr_of (?ext - HEADER_SIZE) False 0) s1"
      have ch: "chain (headers s) (heap_head s) (heap_end s) bs" and ne: "bs \<noteq> []" using h by simp_all
      have "0 < heap_head s" using h by (simp add: HEAP_START_def)
      moreover have "headers ?s2 x = headers s x" if "x < heap_end s" for x
        using that by (simp add: write_hdr_def f)
      ultimately obtain c sz u where c: "last_hdr (heap_head s) ?s2 = Some (Inr (c, hdr_of sz u 0))"
        "last bs = (sz, u)" "c + HEADER_SIZE + sz = heap_end s" "heap_head s \<le> c"
        using last_hdr_eq [OF ch ne] by blast
      let ?s3 = "write_hdr c (hdr_of sz u (heap_end s)) ?s2"
      let ?s' = "?s3\<lparr>heap_end := heap_end s + ?ext\<rparr>"
      have run: "expand_heap pr needed s = Inr ?s'"
        using al n lims eb True Inr c(1) f
        by (simp add: expand_heap_def Let_def or_hang_def del: HEADER_SIZE_def PAGE_SIZE_def)
          (simp add: write_hdr_def f)
      have "chain (headers ?s3) (heap_head s) (heap_end s + HEADER_SIZE + (?ext - HEADER_SIZE))
          (bs @ [(?ext - HEADER_SIZE, False)])"
        by (rule chain_appended [OF ch ne c(2,3)]) (use c(3) in \<open>auto simp: write_hdr_def f\<close>)
      moreover have "heap_end s + HEADER_SIZE + (?ext - HEADER_SIZE) = heap_end s + ?ext" using eb by simp
      moreover have "block_ok (?ext - HEADER_SIZE, False)"
      proof -
        have "ALIGN \<le> ?ext - HEADER_SIZE" using eb(4) by simp
        then show ?thesis
          by (simp only: block_ok_def fst_conv page_minus_header_mod_8 simp_thms)
      qed
      moreover have "heap_end s + ?ext \<le> HEAP_START + HEAP_MAX_SIZE" using True eb(2) by simp
      ultimately have "heap_blocks ?s' (bs @ [(?ext - HEADER_SIZE, False)])"
        using h by (simp add: heap_blocks_def f) (simp add: write_hdr_def f)
      moreover have tr: "vmm_state.truncate ?s' = vmm_state.truncate s1" by simp
      moreover have "vm_inv s1" "heap_window s1"
        "mapped_range (heap_head s) (heap_end s + ?ext) s1"
        using s1 mr win small_range_same [of s s1] unfolding only_maps_def mapped_range_def heap_window_def
        by (blast, blast, metis not_le)
      moreover have "heap_keeps s ?s'"
      proof -
        have "avail_frames ?s' \<subseteq> avail_frames s"
          unfolding vm_ignores_heap(4) [OF tr] using s1(1) by (simp add: only_maps_def)
        moreover have "dev_in ?s' = dev_in s" "heap_state.more ?s' = heap_state.more s"
          "heap_head ?s' = heap_head s"
          using fr f by (simp_all add: write_hdr_def frame_only_def)
        ultimately show ?thesis by (simp only: heap_keeps_def simp_thms)
      qed
      moreover have "needed \<le> ?ext - HEADER_SIZE" using eb by simp
      moreover have "heap_head ?s' = heap_head s" "heap_end ?s' = heap_end s + ?ext"
        by (simp_all add: write_hdr_def f)
      ultimately show ?thesis unfolding run sum.case
        by (intro exI [of _ "?ext - HEADER_SIZE"] conjI)
          (simp_all only: vm_ignores_heap [OF tr])
    qed
  qed
qed

section \<open>First fit and release on lists\<close>

lemma first_fit_ok:
  assumes "first_fit n a bs = Some (p, bs')" "list_all block_ok bs" "ALIGN \<le> n" "n mod 8 = 0"
  shows "list_all block_ok bs' \<and> bs' \<noteq> [] \<and>
    (\<exists>sz. n \<le> sz \<and> live a bs' = insert (p, sz) (live a bs) \<and> a + HEADER_SIZE \<le> p)"
  using assms(1,2)
proof (induction bs arbitrary: a bs')
  case (Cons b bs)
  obtain sz u where b: "b = (sz, u)" by fastforce
  show ?case
  proof (cases "\<not> u \<and> n \<le> sz")
    case True
    have res: "p = a + HEADER_SIZE"
      "bs' = (if n + HEADER_SIZE + ALIGN < sz then (n, True) # (sz - n - HEADER_SIZE, False) # bs
              else (sz, True) # bs)"
      using Cons.prems(1) b True by auto
    show ?thesis
    proof (cases "n + HEADER_SIZE + ALIGN < sz")
      case split: True
      have "(sz - n - 24) mod 8 = 0" "sz mod 8 = 0"
        using Cons.prems(2) b assms(4) by (auto simp: block_ok_def dvd_diff_nat mod_eq_0_iff_dvd)
      moreover have "a + 24 + n + (24 + (sz - (n + 24))) = a + (24 + sz)" using split by simp
      ultimately show ?thesis
        using Cons.prems(2) b split assms(3,4) True
        by (auto simp: res block_ok_def ac_simps intro!: exI [of _ n])
    next
      case False
      then show ?thesis
        using Cons.prems(2) b True by (auto simp: res block_ok_def intro!: exI [of _ sz])
    qed
  next
    case False
    then obtain bs2 where b2: "first_fit n (a + HEADER_SIZE + sz) bs = Some (p, bs2)"
      "bs' = (sz, u) # bs2" using Cons.prems(1) b by (auto split: if_splits)
    have ok: "list_all block_ok bs" "block_ok (sz, u)" using Cons.prems(2) b by auto
    from Cons.IH [OF b2(1) ok(1)] obtain sz' where "n \<le> sz'"
      "live (a + HEADER_SIZE + sz) bs2 = insert (p, sz') (live (a + HEADER_SIZE + sz) bs)"
      "a + HEADER_SIZE + sz + HEADER_SIZE \<le> p" "list_all block_ok bs2" by blast
    then show ?thesis
      using ok(2) b b2(2) by (intro conjI exI [of _ sz']) auto
  qed
qed simp

lemma live_ge: "(p, sz) \<in> live a bs \<Longrightarrow> a + HEADER_SIZE \<le> p"
  by (induction bs arbitrary: a) (force split: if_splits)+

lemma live_le: "chain H a e bs \<Longrightarrow> (p, sz) \<in> live a bs \<Longrightarrow> p + sz \<le> e"
  by (induction bs arbitrary: a) (auto split: if_splits dest: chain_le)

lemma live_disjoint:
  "(p, sz) \<in> live a bs \<Longrightarrow> (q, sz') \<in> live a bs \<Longrightarrow>
     (p, sz) = (q, sz') \<or> p + sz + HEADER_SIZE \<le> q \<or> q + sz' + HEADER_SIZE \<le> p"
  by (induction bs arbitrary: a) (fastforce split: if_splits dest: live_ge)+

lemma live_block:
  "chain H a e bs \<Longrightarrow> (p, sz) \<in> live a bs \<Longrightarrow> \<exists>nx. H (p - HEADER_SIZE) = Some (hdr_of sz True nx)"
  by (induction bs arbitrary: a) (auto split: if_splits)

lemma first_fit_ge: "first_fit n a bs = Some (p, bs') \<Longrightarrow> a + HEADER_SIZE \<le> p"
  by (induction bs arbitrary: a bs') (fastforce split: if_splits)+

lemma first_fit_fresh:
  assumes "first_fit n a bs = Some (p, bs')"
  shows "(p, sz) \<notin> live a bs"
  using assms
proof (induction bs arbitrary: a bs')
  case (Cons b bs)
  obtain z u where b: "b = (z, u)" by fastforce
  show ?case
  proof (cases "\<not> u \<and> n \<le> z")
    case True
    then show ?thesis using Cons.prems b live_ge [of p sz "a + HEADER_SIZE + z" bs] by auto
  next
    case False
    then obtain bs2 where "first_fit n (a + HEADER_SIZE + z) bs = Some (p, bs2)"
      using Cons.prems b by (auto split: if_splits)
    moreover from first_fit_ge [OF this] have "p \<noteq> a + HEADER_SIZE" by simp
    ultimately show ?thesis using Cons.IH b by auto
  qed
qed simp

lemma first_fit_append_fits:
  "n \<le> sz \<Longrightarrow> \<exists>p bs'. first_fit n a (bs @ [(sz, False)]) = Some (p, bs')"
  by (induction bs arbitrary: a) (auto split: prod.splits)

lemma live_append: "chain H a e bs \<Longrightarrow> live a (bs @ [(sz, False)]) = live a bs"
  by (induction bs arbitrary: a) auto

lemma merge_next_live: "live a (merge_next sz bs) = live (a + HEADER_SIZE + sz) bs"
  by (cases "(sz, bs)" rule: merge_next.cases) (auto simp: ac_simps)

lemma merge_next_ok: "list_all block_ok ((sz, u) # bs) \<Longrightarrow> list_all block_ok (merge_next sz bs)"
  by (cases "(sz, bs)" rule: merge_next.cases) (auto simp: block_ok_def mod_eq_0_iff_dvd)

lemma release_ok:
  "list_all block_ok bs \<Longrightarrow> list_all block_ok (release p a bs)"
  "bs \<noteq> [] \<Longrightarrow> release p a bs \<noteq> []"
proof (induction bs arbitrary: a)
  case (Cons b bs)
  {
    case 1
    then show ?case using Cons.IH(1) merge_next_ok [of "fst b" "snd b" bs] by (cases b) auto
  next
    case 2
    show ?case by (cases b, cases "(fst b, bs)" rule: merge_next.cases) auto
  }
qed auto

lemma release_live:
  "(p, sz) \<in> live a bs \<Longrightarrow> live a (release p a bs) = live a bs - {(p, sz)}"
proof (induction bs arbitrary: a)
  case (Cons b bs)
  obtain z u where b: "b = (z, u)" by fastforce
  let ?a = "a + HEADER_SIZE + z"
  have ge: "a + HEADER_SIZE + z + HEADER_SIZE \<le> q" if "(q, x) \<in> live ?a bs" for q x
    using live_ge [OF that] .
  show ?case
  proof (cases "p = a + HEADER_SIZE")
    case True
    then have "(p, sz) \<notin> live ?a bs" using ge [of p sz] by auto
    then have "u" "sz = z" using Cons.prems b True by (auto split: if_splits)
    then show ?thesis using True b \<open>(p, sz) \<notin> live ?a bs\<close> by (simp add: merge_next_live)
  next
    case False
    then have "(p, sz) \<in> live ?a bs" using Cons.prems b by (auto split: if_splits)
    from Cons.IH [OF this] show ?thesis using False b by auto
  qed
qed simp

section \<open>Allocation and release on the heap\<close>

definition round_up16 :: "nat \<Rightarrow> nat" where
  "round_up16 n = (n + 15) div 16 * 16"

lemma round_up16_bounds:
  "n \<le> round_up16 n" "0 < n \<Longrightarrow> ALIGN \<le> round_up16 n" "round_up16 n mod 8 = 0" "round_up16 n \<le> n + 15"
  "round_up16 n mod 16 = 0"
proof -
  show "n \<le> round_up16 n" "round_up16 n \<le> n + 15" unfolding round_up16_def by simp_all
  show "ALIGN \<le> round_up16 n" if "0 < n"
  proof -
    have "1 \<le> (n + 15) div 16" using that by (simp add: Suc_leI div_greater_zero_iff)
    then show ?thesis unfolding round_up16_def by simp
  qed
  have "round_up16 n = 8 * (2 * ((n + 15) div 16))" unfolding round_up16_def by simp
  then show "round_up16 n mod 8 = 0" by (simp only: mod_mult_self1_is_0)
qed (simp add: round_up16_def)

definition live_blocks :: "'a heap_state_scheme \<Rightarrow> (nat \<times> nat) set" where
  "live_blocks s = {b. \<exists>bs. heap_blocks s bs \<and> b \<in> live (heap_head s) bs}"

lemma heap_blocks_unique: "heap_blocks s bs \<Longrightarrow> heap_blocks s bs' \<Longrightarrow> bs = bs'"
  by (auto simp: heap_blocks_def intro: chain_unique)

lemma live_blocks_eq: "heap_blocks s bs \<Longrightarrow> live_blocks s = live (heap_head s) bs"
  using heap_blocks_unique by (auto simp: live_blocks_def)

lemma heap_blocks_new_headers:
  assumes "heap_blocks s bs" "chain H (heap_head s) (heap_end s) bs'" "list_all block_ok bs'" "bs' \<noteq> []"
  shows "heap_blocks (s\<lparr>headers := H\<rparr>) bs'"
  using assms by (simp add: heap_blocks_def)

lemma heap_inv_new_headers:
  assumes "heap_inv s" "heap_blocks (s\<lparr>headers := H\<rparr>) bs'"
  shows "heap_inv (s\<lparr>headers := H\<rparr>)"
proof -
  have tr: "vmm_state.truncate (s\<lparr>headers := H\<rparr>) = vmm_state.truncate s" by simp
  show ?thesis
    using assms by (auto simp: heap_inv_def vm_ignores_heap [OF tr])
qed

lemma heap_keeps_headers [simp]: "heap_keeps s (s\<lparr>headers := H\<rparr>)"
proof -
  have tr: "vmm_state.truncate (s\<lparr>headers := H\<rparr>) = vmm_state.truncate s" by simp
  show ?thesis by (simp add: heap_keeps_def vm_ignores_heap [OF tr])
qed

lemma heap_unread_stray [simp]:
  "heap_inv (s\<lparr>stray := R\<rparr>) = heap_inv s" "heap_blocks (s\<lparr>stray := R\<rparr>) bs = heap_blocks s bs"
  "live_blocks (s\<lparr>stray := R\<rparr>) = live_blocks s"
proof -
  have tr: "vmm_state.truncate (s\<lparr>stray := R\<rparr>) = vmm_state.truncate s" by simp
  show b: "heap_blocks (s\<lparr>stray := R\<rparr>) bs = heap_blocks s bs" for bs by (simp add: heap_blocks_def)
  then show "heap_inv (s\<lparr>stray := R\<rparr>) = heap_inv s" by (simp add: heap_inv_def vm_ignores_heap [OF tr])
  show "live_blocks (s\<lparr>stray := R\<rparr>) = live_blocks s" by (simp add: live_blocks_def b)
qed

lemma heap_keeps_stray: "heap_keeps s (s\<lparr>stray := R\<rparr>)"
proof -
  have tr: "vmm_state.truncate (s\<lparr>stray := R\<rparr>) = vmm_state.truncate s" by simp
  show ?thesis by (simp add: heap_keeps_def vm_ignores_heap [OF tr])
qed

lemma heap_keeps_trans: "heap_keeps s s' \<Longrightarrow> heap_keeps s' s'' \<Longrightarrow> heap_keeps s s''"
  by (auto simp: heap_keeps_def)

lemma heap_blocks_lims:
  assumes "heap_blocks s bs"
  shows "0 < heap_head s" "heap_end s + ALIGN < usize_lim" "heap_head s < heap_end s"
  using assms heap_lim chain_lt by (auto simp: heap_blocks_def) (simp add: HEAP_START_def)

lemma kmalloc_unfold:
  assumes "heap_blocks s bs" "0 < nbytes" "nbytes \<le> 2 ^ 40"
  shows "kmalloc pr nbytes s =
    (case or_hang (kmalloc_scan pr (round_up16 nbytes) (heap_head s) s) of
       Inl e \<Rightarrow> Some (Inl e)
     | Inr (Some p, s) \<Rightarrow> Some (Inr (p, s))
     | Inr (None, s) \<Rightarrow>
         (case expand_heap pr (round_up16 nbytes) s of Inl e \<Rightarrow> Some (Inl e) | Inr s \<Rightarrow> kmalloc pr nbytes s))"
proof -
  have "align_up pr nbytes = Inr (round_up16 nbytes)"
    unfolding round_up16_def by (rule align_up_eq) (use assms(3) in simp)
  then show ?thesis
    using assms by (subst kmalloc.simps) (simp add: heap_blocks_def)
qed

text \<open>A first fit in the blocks at hand: the list after \<open>kmalloc\<close> is the list first fit computes.\<close>

lemma kmalloc_fits:
  assumes inv: "heap_inv s" and hb: "heap_blocks s bs" and n: "0 < nbytes" "nbytes \<le> 2 ^ 40"
    and ff: "first_fit (round_up16 nbytes) (heap_head s) bs = Some (p, bs')"
  shows "\<exists>H. kmalloc pr nbytes s = Some (Inr (p, s\<lparr>headers := H\<rparr>)) \<and>
    heap_inv (s\<lparr>headers := H\<rparr>) \<and> heap_blocks (s\<lparr>headers := H\<rparr>) bs'"
proof -
  note l = heap_blocks_lims [OF hb]
  have ch: "chain (headers s) (heap_head s) (heap_end s) bs" and ok: "list_all block_ok bs"
    using hb by (simp_all add: heap_blocks_def)
  obtain H where H: "kmalloc_scan pr (round_up16 nbytes) (heap_head s) s =
      Some (Inr (Some p, s\<lparr>headers := H\<rparr>))" "chain H (heap_head s) (heap_end s) bs'"
    using kmalloc_scan_some [OF ch l(1,2) ff] by blast
  have "heap_blocks (s\<lparr>headers := H\<rparr>) bs'"
    using heap_blocks_new_headers [OF hb H(2)]
      first_fit_ok [OF ff ok round_up16_bounds(2) [OF n(1)] round_up16_bounds(3)] by blast
  then show ?thesis
    using H(1) kmalloc_unfold [OF hb n, of pr] heap_inv_new_headers [OF inv]
    by (auto simp: or_hang_def)
qed

lemma kmalloc_grows:
  assumes inv: "heap_inv s" and hb: "heap_blocks s bs" and n: "0 < nbytes" "nbytes \<le> 2 ^ 39"
    and ff: "first_fit (round_up16 nbytes) (heap_head s) bs = None"
  shows "(\<exists>e. kmalloc pr nbytes s = Some (Inl e) \<and> (oom e \<or> e = Panic ''heap: exceeded maximum size'')) \<or>
    (\<exists>sz p bs' s'. first_fit (round_up16 nbytes) (heap_head s) (bs @ [(sz, False)]) = Some (p, bs') \<and>
      block_ok (sz, False) \<and> kmalloc pr nbytes s = Some (Inr (p, s')) \<and> heap_inv s' \<and> heap_blocks s' bs' \<and> heap_keeps s s')"
proof -
  note l = heap_blocks_lims [OF hb]
  have n': "nbytes \<le> 2 ^ 40" "round_up16 nbytes \<le> 2 ^ 40"
    using n(2) round_up16_bounds(4) [of nbytes] by simp_all
  have ch: "chain (headers s) (heap_head s) (heap_end s) bs" and ne: "bs \<noteq> []"
    using hb by (simp_all add: heap_blocks_def)
  have "kmalloc pr nbytes s = (case expand_heap pr (round_up16 nbytes) s of
      Inl e \<Rightarrow> Some (Inl e) | Inr s \<Rightarrow> kmalloc pr nbytes s)"
    using kmalloc_scan_none [OF ch l(1) ff, of pr] ne
    by (simp add: kmalloc_unfold [OF hb n(1) n'(1)] or_hang_def)
  note unf = this
  have i: "vm_inv s" "mapped_range (heap_head s) (heap_end s) s" "heap_window s" using inv by (auto simp: heap_inv_def)
  note ex = expand_heap_result [OF hb i n'(2), of pr]
  show ?thesis
  proof (cases "expand_heap pr (round_up16 nbytes) s")
    case (Inl e)
    then show ?thesis using ex unf by auto
  next
    case (Inr s1)
    then obtain sz where s1: "round_up16 nbytes \<le> sz" "heap_blocks s1 (bs @ [(sz, False)])" "heap_inv s1"
      "heap_keeps s s1" using ex unfolding heap_inv_def by auto
    then have hd: "heap_head s1 = heap_head s" by (simp add: heap_keeps_def)
    obtain p bs' where ff': "first_fit (round_up16 nbytes) (heap_head s1) (bs @ [(sz, False)]) = Some (p, bs')"
      using first_fit_append_fits [OF s1(1)] by blast
    from kmalloc_fits [OF s1(3,2) n(1) n'(1) ff'] obtain H where
      "kmalloc pr nbytes s1 = Some (Inr (p, s1\<lparr>headers := H\<rparr>))" "heap_inv (s1\<lparr>headers := H\<rparr>)"
      "heap_blocks (s1\<lparr>headers := H\<rparr>) bs'" by blast
    then show ?thesis
      using ff' unf Inr s1(2) heap_keeps_trans [OF s1(4) heap_keeps_headers]
      unfolding hd heap_blocks_def by auto
  qed
qed

lemma free_chain:
  assumes "chain (headers s) a e bs" "(p, sz) \<in> live a bs" "e < usize_lim"
  shows "\<exists>nx H. headers s (p - HEADER_SIZE) = Some (hdr_of sz True nx) \<and>
    coalesce pr (p - HEADER_SIZE) (write_hdr (p - HEADER_SIZE) (hdr_of sz False nx) s) =
      Inr (s\<lparr>headers := H\<rparr>) \<and>
    chain H a e (release p a bs) \<and> (\<forall>x. x < a \<or> e \<le> x \<longrightarrow> H x = headers s x) \<and>
    (\<exists>z nx'. H (p - HEADER_SIZE) = Some (hdr_of z False nx'))"
  using assms
proof (induction bs arbitrary: a)
  case (Cons b bs)
  obtain z u where b: "b = (z, u)" by fastforce
  let ?a = "a + HEADER_SIZE + z"
  have h: "headers s a = Some (hdr_of z u (if bs = [] then 0 else ?a))" and ch: "chain (headers s) ?a e bs"
    using Cons.prems(1) b by simp_all
  have le: "?a \<le> e" by (rule chain_le [OF ch])
  show ?case
  proof (cases "p = a + HEADER_SIZE")
    case False
    then have lv: "(p, sz) \<in> live ?a bs" using Cons.prems(2) b by (auto split: if_splits)
    then obtain nx H where H: "headers s (p - HEADER_SIZE) = Some (hdr_of sz True nx)"
      "coalesce pr (p - HEADER_SIZE) (write_hdr (p - HEADER_SIZE) (hdr_of sz False nx) s) =
        Inr (s\<lparr>headers := H\<rparr>)" "chain H ?a e (release p ?a bs)"
      "\<forall>x. x < ?a \<or> e \<le> x \<longrightarrow> H x = headers s x"
      "\<exists>z nx'. H (p - HEADER_SIZE) = Some (hdr_of z False nx')"
      using Cons.IH [OF ch lv Cons.prems(3)] by blast
    have ne: "bs \<noteq> []" using lv by auto
    note release_ok(2) [OF ne, of p ?a]
    with ne have "chain H a e (release p a (b # bs))" using H(3,4) h b False by simp
    then show ?thesis using H by auto
  next
    case True
    then have "(p, sz) \<notin> live ?a bs" using live_ge by fastforce
    then have u: "u" "sz = z" using Cons.prems(2) b by (auto split: if_splits)
    have pa: "p - HEADER_SIZE = a" using True by simp
    show ?thesis
    proof (cases "(z, bs)" rule: merge_next.cases [case_names before_free last before_used])
      case (before_free z0 z2 bs2)
      then have bs: "bs = (z2, False) # bs2" by simp
      let ?nx = "if bs2 = [] then 0 else ?a + HEADER_SIZE + z2"
      have h2: "headers s ?a = Some (hdr_of z2 False ?nx)" and ch2: "chain (headers s) (?a + HEADER_SIZE + z2) e bs2"
        using ch bs by simp_all
      let ?H = "(headers s)(a \<mapsto> hdr_of (z + HEADER_SIZE + z2) False ?nx)"
      have "?a + HEADER_SIZE + z2 \<le> e" by (rule chain_le [OF ch2])
      then have "coalesce pr a (write_hdr a (hdr_of z False ?a) s) = Inr (s\<lparr>headers := ?H\<rparr>)"
        using h2 Cons.prems(3) by (simp add: coalesce_def read_hdr_def write_hdr_def ac_simps)
      moreover have "chain ?H a e (release p a (b # bs))"
      proof -
        have "chain ?H (?a + HEADER_SIZE + z2) e bs2" by (rule chain_cong [OF ch2]) simp
        then show ?thesis using True b bs by (simp add: ac_simps)
      qed
      moreover have "\<forall>x. x < a \<or> e \<le> x \<longrightarrow> ?H x = headers s x" using le by auto
      moreover have "?H a = Some (hdr_of (z + HEADER_SIZE + z2) False ?nx)" by simp
      moreover have "headers s a = Some (hdr_of sz True ?a)" using h u bs by simp
      ultimately show ?thesis unfolding pa u(2) by blast
    next
      case (last z0)
      let ?H = "(headers s)(a \<mapsto> hdr_of z False 0)"
      have "coalesce pr a (write_hdr a (hdr_of z False 0) s) = Inr (s\<lparr>headers := ?H\<rparr>)"
        by (simp add: coalesce_def read_hdr_def write_hdr_def)
      moreover have "\<forall>x. x < a \<or> e \<le> x \<longrightarrow> ?H x = headers s x" using le by auto
      moreover have "?H a = Some (hdr_of z False 0)" by simp
      moreover have "headers s a = Some (hdr_of sz True 0)" using h u last by simp
      moreover have "chain ?H a e (release p a (b # bs))" using True b ch last by simp
      ultimately show ?thesis unfolding pa u(2) by blast
    next
      case (before_used z0 z2 bs2)
      then have bs: "bs = (z2, True) # bs2" by (cases bs) auto
      let ?H = "(headers s)(a \<mapsto> hdr_of z False ?a)"
      have h2: "\<exists>n2. headers s ?a = Some (hdr_of z2 True n2)" using ch bs by simp
      then have "coalesce pr a (write_hdr a (hdr_of z False ?a) s) = Inr (s\<lparr>headers := ?H\<rparr>)"
        by (auto simp: coalesce_def read_hdr_def write_hdr_def)
      moreover have "chain ?H a e (release p a (b # bs))"
      proof -
        have "chain ?H ?a e bs" by (rule chain_cong [OF ch]) simp
        then show ?thesis using True b bs by simp
      qed
      moreover have "\<forall>x. x < a \<or> e \<le> x \<longrightarrow> ?H x = headers s x" using le by auto
      moreover have "?H a = Some (hdr_of z False ?a)" by simp
      moreover have "headers s a = Some (hdr_of sz True ?a)" using h u bs by simp
      ultimately show ?thesis unfolding pa u(2) by blast
    qed
  qed
qed simp

lemma kfree_live:
  assumes inv: "heap_inv s" and hb: "heap_blocks s bs" and lv: "(p, sz) \<in> live_blocks s"
  shows "\<exists>H. kfree pr p s = Inr (s\<lparr>headers := H\<rparr>) \<and> heap_inv (s\<lparr>headers := H\<rparr>) \<and>
    heap_blocks (s\<lparr>headers := H\<rparr>) (release p (heap_head s) bs) \<and>
    live_blocks (s\<lparr>headers := H\<rparr>) = live_blocks s - {(p, sz)} \<and>
    (\<exists>z nx. H (p - HEADER_SIZE) = Some (hdr_of z False nx))"
proof -
  note l = heap_blocks_lims [OF hb] and lv' = lv [unfolded live_blocks_eq [OF hb]]
  have ch: "chain (headers s) (heap_head s) (heap_end s) bs" "list_all block_ok bs" "bs \<noteq> []" "heap_inited s"
    using hb by (simp_all add: heap_blocks_def)
  have "heap_end s < usize_lim" using l by simp
  from free_chain [OF ch(1) lv' this, of pr] obtain nx H where H:
    "headers s (p - HEADER_SIZE) = Some (hdr_of sz True nx)"
    "coalesce pr (p - HEADER_SIZE) (write_hdr (p - HEADER_SIZE) (hdr_of sz False nx) s) =
      Inr (s\<lparr>headers := H\<rparr>)" "chain H (heap_head s) (heap_end s) (release p (heap_head s) bs)"
    "\<exists>z nx. H (p - HEADER_SIZE) = Some (hdr_of z False nx)" by blast
  have "heap_head s + HEADER_SIZE \<le> p" by (rule live_ge [OF lv'])
  then have "kfree pr p s = Inr (s\<lparr>headers := H\<rparr>)"
    using H(1,2) ch(4) by (simp add: kfree_def read_hdr_def)
  moreover have hb': "heap_blocks (s\<lparr>headers := H\<rparr>) (release p (heap_head s) bs)"
    by (rule heap_blocks_new_headers [OF hb H(3)]) (use release_ok ch in blast)+
  moreover have "live_blocks (s\<lparr>headers := H\<rparr>) = live_blocks s - {(p, sz)}"
    using release_live [OF lv'] by (simp add: live_blocks_eq [OF hb'] live_blocks_eq [OF hb])
  ultimately show ?thesis using heap_inv_new_headers [OF inv hb'] H(4) by blast
qed

text \<open>What a client may do to the heap's memory: overwrite anything inside a live payload.\<close>

definition client_write :: "'a heap_state_scheme \<Rightarrow> 'a heap_state_scheme \<Rightarrow> bool" where
  "client_write s s' \<longleftrightarrow> (\<exists>H R. s' = s\<lparr>headers := H, stray := R\<rparr> \<and>
     (\<forall>x. (\<forall>(p, sz) \<in> live_blocks s. x + HEADER_SIZE \<le> p \<or> p + sz \<le> x) \<longrightarrow>
        H x = headers s x \<and> R x = stray s x))"

lemma chain_client_write:
  "chain H a e bs \<Longrightarrow>
     (\<And>x. a \<le> x \<Longrightarrow> (\<And>p sz. (p, sz) \<in> live a bs \<Longrightarrow> x + HEADER_SIZE \<le> p \<or> p + sz \<le> x) \<Longrightarrow> H' x = H x) \<Longrightarrow>
     chain H' a e bs"
proof (induction bs arbitrary: a)
  case (Cons b bs)
  obtain sz u where b: "b = (sz, u)" by fastforce
  let ?a = "a + HEADER_SIZE + sz"
  have ch: "chain H ?a e bs" using Cons.prems(1) b by simp
  have "chain H' ?a e bs"
  proof (rule Cons.IH [OF ch])
    fix x assume x: "?a \<le> x" "\<And>p z. (p, z) \<in> live ?a bs \<Longrightarrow> x + HEADER_SIZE \<le> p \<or> p + z \<le> x"
    show "H' x = H x"
      by (rule Cons.prems(2)) (use x b in \<open>auto split: if_splits\<close>)
  qed
  moreover have "H' a = H a"
    by (rule Cons.prems(2)) (use live_ge in blast)+
  ultimately show ?case using Cons.prems(1) b by simp
qed simp

lemma client_write_keeps:
  assumes inv: "heap_inv s" and hb: "heap_blocks s bs" and w: "client_write s s'"
  shows "heap_inv s'" "heap_blocks s' bs" "live_blocks s' = live_blocks s" "heap_keeps s s'"
proof -
  obtain H R where H: "s' = s\<lparr>headers := H, stray := R\<rparr>"
    "\<And>x. (\<And>p sz. (p, sz) \<in> live_blocks s \<Longrightarrow> x + HEADER_SIZE \<le> p \<or> p + sz \<le> x) \<Longrightarrow> H x = headers s x"
    using w unfolding client_write_def by blast
  have ch: "chain (headers s) (heap_head s) (heap_end s) bs" "list_all block_ok bs" "bs \<noteq> []"
    using hb by (simp_all add: heap_blocks_def)
  have "chain H (heap_head s) (heap_end s) bs"
    by (rule chain_client_write [OF ch(1)]) (use H(2) live_blocks_eq [OF hb] in blast)
  note new = heap_blocks_new_headers [OF hb this ch(2,3)]
  then show hb': "heap_blocks s' bs" by (simp add: H(1))
  show "heap_inv s'" using heap_inv_new_headers [OF inv new] by (simp add: H(1))
  show "live_blocks s' = live_blocks s"
    using live_blocks_eq [OF hb'] live_blocks_eq [OF hb] by (simp add: H(1))
  show "heap_keeps s s'" using heap_keeps_trans [OF heap_keeps_headers heap_keeps_stray] by (simp add: H(1))
qed

section \<open>The interface: a block allocator\<close>

text \<open>
  A client history: blocks are allocated (\<open>held\<close> records address and requested size), written
  to, and freed.
\<close>

inductive block_run ::
    "(nat \<Rightarrow> 's \<Rightarrow> (nat \<times> 's) res option) \<Rightarrow> (nat \<Rightarrow> 's \<Rightarrow> 's res) \<Rightarrow> ('s \<Rightarrow> 's \<Rightarrow> bool) \<Rightarrow> nat \<Rightarrow>
       's \<Rightarrow> 's \<Rightarrow> (nat \<times> nat) set \<Rightarrow> bool"
  for alloc dealloc update limit s0 where
  init: "block_run alloc dealloc update limit s0 s0 {}"
| get: "block_run alloc dealloc update limit s0 s held \<Longrightarrow> 0 < n \<Longrightarrow> n \<le> limit \<Longrightarrow>
    alloc n s = Some (Inr (p, s')) \<Longrightarrow> block_run alloc dealloc update limit s0 s' (insert (p, n) held)"
| poke: "block_run alloc dealloc update limit s0 s held \<Longrightarrow> update s s' \<Longrightarrow>
    block_run alloc dealloc update limit s0 s' held"
| give: "block_run alloc dealloc update limit s0 s held \<Longrightarrow> (p, n) \<in> held \<Longrightarrow> dealloc p s = Inr s' \<Longrightarrow>
    block_run alloc dealloc update limit s0 s' (held - {(p, n)})"

locale block_allocator =
  fixes alloc :: "nat \<Rightarrow> 's \<Rightarrow> (nat \<times> 's) res option"
    and dealloc :: "nat \<Rightarrow> 's \<Rightarrow> 's res"
    and update :: "'s \<Rightarrow> 's \<Rightarrow> bool"
    and limit :: nat
    and blocks :: "'s \<Rightarrow> (nat \<times> nat) set"
    and good :: "'s \<Rightarrow> bool"
  assumes alloc_ends: "good s \<Longrightarrow> 0 < n \<Longrightarrow> n \<le> limit \<Longrightarrow> alloc n s \<noteq> None"
    and alloc_block: "good s \<Longrightarrow> 0 < n \<Longrightarrow> n \<le> limit \<Longrightarrow> alloc n s = Some (Inr (p, s')) \<Longrightarrow>
      good s' \<and> (\<exists>sz. n \<le> sz \<and> (p, sz) \<notin> blocks s \<and> blocks s' = insert (p, sz) (blocks s))"
    and dealloc_block: "good s \<Longrightarrow> (p, sz) \<in> blocks s \<Longrightarrow>
      \<exists>s'. dealloc p s = Inr s' \<and> good s' \<and> blocks s' = blocks s - {(p, sz)}"
    and update_block: "good s \<Longrightarrow> update s s' \<Longrightarrow> good s' \<and> blocks s' = blocks s"
    and disjoint: "good s \<Longrightarrow> (p, m) \<in> blocks s \<Longrightarrow> (q, n) \<in> blocks s \<Longrightarrow>
      (p, m) = (q, n) \<or> p + m < q \<or> q + n < p"
begin

text \<open>Every held block is a block of the allocator at least as large as requested.\<close>

lemma run_blocks:
  assumes "block_run alloc dealloc update limit s0 s held" "good s0"
  shows "good s \<and> (\<forall>(p, n) \<in> held. \<exists>sz \<ge> n. (p, sz) \<in> blocks s) \<and>
    (\<forall>p m n. (p, m) \<in> held \<and> (p, n) \<in> held \<longrightarrow> m = n)"
  using assms
proof (induction rule: block_run.induct)
  case init
  then show ?case by simp
next
  case (get s held n p s')
  then have IH: "good s" "\<forall>(p, n) \<in> held. \<exists>sz \<ge> n. (p, sz) \<in> blocks s"
    "\<forall>p m n. (p, m) \<in> held \<and> (p, n) \<in> held \<longrightarrow> m = n" by auto
  then obtain sz where sz: "good s'" "n \<le> sz" "(p, sz) \<notin> blocks s" "blocks s' = insert (p, sz) (blocks s)"
    using alloc_block [OF IH(1) get.hyps(2-4)] by blast
  have "(p, m) \<notin> held" for m
  proof
    assume "(p, m) \<in> held"
    then obtain z where "(p, z) \<in> blocks s" using IH(2) by blast
    then show False using disjoint [OF sz(1), of p z p sz] sz(3,4) by auto
  qed
  then show ?case using IH sz by auto
next
  case (poke s held s')
  then have "good s" by simp
  from update_block [OF this poke.hyps(2)] poke show ?case by simp
next
  case (give s held p n s')
  then have IH: "good s" "\<forall>(p, n) \<in> held. \<exists>sz \<ge> n. (p, sz) \<in> blocks s"
    "\<forall>p m n. (p, m) \<in> held \<and> (p, n) \<in> held \<longrightarrow> m = n" by auto
  then obtain sz where sz: "n \<le> sz" "(p, sz) \<in> blocks s" using give.hyps(2) by blast
  then have s': "good s'" "blocks s' = blocks s - {(p, sz)}"
    using dealloc_block [OF IH(1) sz(2)] give.hyps(3) by auto
  have "\<exists>z \<ge> m. (q, z) \<in> blocks s'" if "(q, m) \<in> held - {(p, n)}" for q m
  proof -
    have "q \<noteq> p" using that IH(3) give.hyps(2) by blast
    then show ?thesis using IH(2) that s'(2) by fastforce
  qed
  then show ?case using s'(1) IH(3) by blast
qed

lemma run_disjoint:
  assumes "block_run alloc dealloc update limit s0 s held" "good s0" "(p, m) \<in> held" "(q, n) \<in> held"
    "(p, m) \<noteq> (q, n)"
  shows "{p ..< p + m} \<inter> {q ..< q + n} = {}"
proof -
  note r = run_blocks [OF assms(1,2)]
  then obtain y z where yz: "m \<le> y" "(p, y) \<in> blocks s" "n \<le> z" "(q, z) \<in> blocks s"
    using assms(3,4) by blast
  have "p \<noteq> q" using r assms(3-5) by blast
  then have "p + y < q \<or> q + z < p" using disjoint [of s p y q z] r yz by auto
  then show ?thesis using yz by auto
qed

lemma run_free:
  assumes "block_run alloc dealloc update limit s0 s held" "good s0" "(p, n) \<in> held"
  shows "\<exists>s'. dealloc p s = Inr s' \<and> good s'"
proof -
  note r = run_blocks [OF assms(1,2)]
  then obtain sz where "(p, sz) \<in> blocks s" using assms(3) by blast
  from dealloc_block [OF _ this] r show ?thesis by blast
qed

end

lemma kmalloc_block:
  assumes inv: "heap_inv s" and n: "0 < nbytes" "nbytes \<le> 2 ^ 39"
    and run: "kmalloc pr nbytes s = Some (Inr (p, s'))"
  shows "heap_inv s' \<and> heap_keeps s s' \<and> heap_head s' + HEADER_SIZE \<le> p \<and>
    (\<exists>sz. nbytes \<le> sz \<and> (p, sz) \<notin> live_blocks s \<and> live_blocks s' = insert (p, sz) (live_blocks s) \<and>
      p + sz \<le> heap_end s')"
proof -
  obtain bs where hb: "heap_blocks s bs" using inv by (auto simp: heap_inv_def)
  let ?n = "round_up16 nbytes"
  have n': "nbytes \<le> 2 ^ 40" using n(2) by simp
  obtain bs0 bs' where r: "first_fit ?n (heap_head s) bs0 = Some (p, bs')" "heap_inv s'"
    "heap_blocks s' bs'" "heap_keeps s s'" "live (heap_head s) bs0 = live_blocks s" "list_all block_ok bs0"
  proof (cases "first_fit ?n (heap_head s) bs")
    case None
    from kmalloc_grows [OF inv hb n None, of pr] run obtain sz bs' where
      r: "first_fit ?n (heap_head s) (bs @ [(sz, False)]) = Some (p, bs')" "heap_inv s'"
      "heap_blocks s' bs'" "heap_keeps s s'" "block_ok (sz, False)" by auto
    moreover have "live (heap_head s) (bs @ [(sz, False)]) = live_blocks s"
      unfolding live_blocks_eq [OF hb] using hb
      by (intro live_append [where H = "headers s" and e = "heap_end s"]) (simp add: heap_blocks_def)
    ultimately show ?thesis using that [of "bs @ [(sz, False)]" bs'] hb by (simp add: heap_blocks_def)
  next
    case (Some r)
    obtain q bs' where "r = (q, bs')" by fastforce
    with kmalloc_fits [OF inv hb n(1) n', of q bs' pr] Some run that [of bs bs'] hb live_blocks_eq [OF hb]
    show ?thesis by (auto simp: heap_blocks_def)
  qed
  note ok = first_fit_ok [OF r(1,6) round_up16_bounds(2) [OF n(1)] round_up16_bounds(3)]
  have hd: "heap_head s' = heap_head s" using r(4) by (simp add: heap_keeps_def)
  obtain sz where sz: "?n \<le> sz" "live_blocks s' = insert (p, sz) (live_blocks s)"
    using ok r(5) live_blocks_eq [OF r(3)] hd by auto
  have "(p, sz) \<notin> live_blocks s" using first_fit_fresh [OF r(1)] r(5) by blast
  moreover have "p + sz \<le> heap_end s'"
    using live_le [of "headers s'" "heap_head s'" "heap_end s'" bs' p sz] r(3) sz(2) live_blocks_eq [OF r(3)]
    by (simp add: heap_blocks_def)
  moreover have "heap_head s' + HEADER_SIZE \<le> p" unfolding hd by (rule first_fit_ge [OF r(1)])
  moreover have "nbytes \<le> sz" using sz(1) round_up16_bounds(1) [of nbytes] by simp
  ultimately show ?thesis using r(2,4) sz(2) by blast
qed

lemma kmalloc_ends:
  assumes inv: "heap_inv s" and n: "0 < nbytes" "nbytes \<le> 2 ^ 39"
  shows "kmalloc pr nbytes s \<noteq> None"
proof -
  obtain bs where hb: "heap_blocks s bs" using inv by (auto simp: heap_inv_def)
  have n': "nbytes \<le> 2 ^ 40" using n(2) by simp
  show ?thesis
  proof (cases "first_fit (round_up16 nbytes) (heap_head s) bs")
    case None
    from kmalloc_grows [OF inv hb n None, of pr] show ?thesis by auto
  next
    case (Some r)
    then show ?thesis using kmalloc_fits [OF inv hb n(1) n', of "fst r" "snd r" pr] by auto
  qed
qed

lemma live_blocks_disjoint:
  assumes "heap_inv s" "(p, m) \<in> live_blocks s" "(q, n) \<in> live_blocks s"
  shows "(p, m) = (q, n) \<or> p + m < q \<or> q + n < p"
proof -
  obtain bs where hb: "heap_blocks s bs" using assms(1) by (auto simp: heap_inv_def)
  show ?thesis
    using live_disjoint [of p m "heap_head s" bs q n] assms(2,3) by (auto simp: live_blocks_eq [OF hb])
qed

interpretation heap: block_allocator "kmalloc pr" "kfree pr" client_write "2 ^ 39" live_blocks heap_inv
  for pr
proof unfold_locales
  fix s :: "'a heap_state_scheme" and n :: nat
  assume "heap_inv s" "0 < n" "n \<le> 2 ^ 39"
  then show "kmalloc pr n s \<noteq> None" by (rule kmalloc_ends)
next
  fix s s' :: "'a heap_state_scheme" and n p :: nat
  assume "heap_inv s" "0 < n" "n \<le> 2 ^ 39" "kmalloc pr n s = Some (Inr (p, s'))"
  from kmalloc_block [OF this] show "heap_inv s' \<and>
    (\<exists>sz. n \<le> sz \<and> (p, sz) \<notin> live_blocks s \<and> live_blocks s' = insert (p, sz) (live_blocks s))" by blast
next
  fix s :: "'a heap_state_scheme" and p sz :: nat
  assume s: "heap_inv s" "(p, sz) \<in> live_blocks s"
  then obtain bs where "heap_blocks s bs" by (auto simp: heap_inv_def)
  from kfree_live [OF s(1) this s(2)] show "\<exists>s'. kfree pr p s = Inr s' \<and> heap_inv s' \<and>
    live_blocks s' = live_blocks s - {(p, sz)}" by blast
next
  fix s s' :: "'a heap_state_scheme"
  assume s: "heap_inv s" "client_write s s'"
  then obtain bs where "heap_blocks s bs" by (auto simp: heap_inv_def)
  from client_write_keeps [OF s(1) this s(2)] show "heap_inv s' \<and> live_blocks s' = live_blocks s" by blast
qed (rule live_blocks_disjoint)

section \<open>Properties\<close>

text \<open>A machine with four fresh frames for the heap, and its heap of one page.\<close>

definition small_heap :: heap_state where
  "small_heap = small_vmm (heap_state.fields (\<lambda>a. None)
     (\<lambda>a. if HEAP_START \<le> a \<and> a < HEAP_START + 4096 then Some (hdr_of 0 False 0\<lparr>hmagic := 0\<rparr>) else None) 0 0 False)"

lemma kmalloc_init_result:
  assumes inv: "vm_inv s" "heap_window s"
    and st: "HEAP_START \<le> start" "start + size_bytes \<le> HEAP_START + HEAP_MAX_SIZE"
    and ok: "\<not> heap_inited s" "start mod PAGE_SIZE = 0" "HEADER_SIZE + ALIGN < size_bytes"
  defines "pages \<equiv> (size_bytes + (PAGE_SIZE - 1)) div PAGE_SIZE"
  shows "case kmalloc_init pr start size_bytes s of
      Inl e \<Rightarrow> oom e \<and> card (free_pages s) < 4 * pages
    | Inr s' \<Rightarrow> heap_inv s' \<and> heap_blocks s' [(pages * PAGE_SIZE - HEADER_SIZE, False)] \<and>
        heap_head s' = start \<and> heap_end s' = start + pages * PAGE_SIZE \<and> stray s' = stray s \<and>
        headers s' = (headers s)(start \<mapsto> hdr_of (pages * PAGE_SIZE - HEADER_SIZE) False 0)"
proof -
  let ?tot = "pages * PAGE_SIZE"
  have tot: "?tot < size_bytes + PAGE_SIZE" "size_bytes \<le> ?tot" "0 < pages"
    unfolding pages_def using ok(3) by (simp_all add: div_greater_zero_iff)
  have "start + ?tot \<le> HEAP_START + HEAP_MAX_SIZE"
  proof -
    obtain k where k: "start = k * 4096" using ok(2) by auto
    have "HEAP_START + HEAP_MAX_SIZE = 4096 * ((HEAP_START + HEAP_MAX_SIZE) div 4096)"
      by (simp add: HEAP_START_def HEAP_MAX_SIZE_def)
    then obtain m where m: "HEAP_START + HEAP_MAX_SIZE = m * 4096" by (metis mult.commute)
    have "k * 4096 + pages * 4096 < m * 4096 + 4096" using st(2) tot(1) unfolding k m by simp
    then have "k + pages \<le> m" by simp
    then show ?thesis unfolding k m by simp
  qed
  then have lim: "start + (0 + pages) * PAGE_SIZE < usize_lim" "start + ?tot \<le> HEAP_START + HEAP_MAX_SIZE"
    using heap_lim by simp_all
  have "size_bytes + PAGE_SIZE < usize_lim" using st heap_lim by (simp add: HEAP_MAX_SIZE_def HEAP_START_def)
  then have unf: "kmalloc_init pr start size_bytes s =
      andThen (map_fresh_pages pr start pages 0 s) (\<lambda>s.
        Inr (write_hdr start (hdr_of (?tot - HEADER_SIZE) False 0) s
          \<lparr>heap_head := start, heap_end := start + ?tot, heap_inited := True\<rparr>))"
    using ok lim tot unfolding pages_def
    by (simp add: kmalloc_init_def Let_def add.commute [of size_bytes])
  have "small_range start (start + (0 + pages) * PAGE_SIZE) s"
    by (rule small_range_sub [OF inv(2) [unfolded heap_window_def] st(1)]) (use lim(2) in simp)
  note r = map_fresh_pages_result [OF inv(1) ok(2) lim(1) this, of pr]
  show ?thesis
  proof (cases "map_fresh_pages pr start pages 0 s")
    case (Inl e)
    then show ?thesis using r unf by simp
  next
    case (Inr s1)
    let ?s' = "write_hdr start (hdr_of (?tot - HEADER_SIZE) False 0) s1
          \<lparr>heap_head := start, heap_end := start + ?tot, heap_inited := True\<rparr>"
    have s1: "vm_inv s1" "mapped_range start (start + ?tot) s1" "heap_window s1"
      using r Inr inv(2) small_range_same [of s s1] by (simp_all add: only_maps_def heap_window_def)
    have tr: "vmm_state.truncate ?s' = vmm_state.truncate s1" by simp
    have big: "HEADER_SIZE + ALIGN < ?tot" using tot(2) ok(3) by linarith
    then have "block_ok (?tot - HEADER_SIZE, False)"
      unfolding block_ok_def fst_conv using page_minus_header_mod_8 by simp
    then have "heap_blocks ?s' [(?tot - HEADER_SIZE, False)]"
      using st(1) lim(2) ok(2) big by (simp add: heap_blocks_def write_hdr_def)
    moreover from this have "heap_inv ?s'"
      unfolding heap_inv_def vm_ignores_heap(1,3,6) [OF tr] using s1 by auto
    moreover have "headers s1 = headers s" "stray s1 = stray s"
      using r Inr heap_fields [of s s1] by (simp_all add: only_maps_def)
    ultimately show ?thesis unfolding unf Inr by (simp add: write_hdr_def)
  qed
qed

lemma small_heap_inv: "vm_inv small_heap" "heap_window small_heap"
  unfolding small_heap_def heap_window_def small_range_def by (simp_all only: small_vmm_inv small_vmm_small simp_thms)

lemma small_heap_init:
  obtains s' where "kmalloc_init pr HEAP_START 4096 small_heap = Inr s'" "heap_inv s'"
    "heap_blocks s' [(4072, False)]" "heap_head s' = HEAP_START" "heap_end s' = HEAP_START + 4096"
    "headers s' = [HEAP_START \<mapsto> hdr_of 4072 False 0]" "stray s' = stray small_heap"
proof -
  have pre: "\<not> heap_inited small_heap" "HEAP_START mod PAGE_SIZE = 0" "card (free_pages small_heap) = 5"
    by (simp_all add: small_heap_def small_vmm_free)
      (simp_all add: small_vmm_def heap_state.defs HEAP_START_def)
  have "headers small_heap = (\<lambda>a. None)" by (simp add: small_heap_def small_vmm_def heap_state.defs)
  note pre = pre this
  from kmalloc_init_result [OF small_heap_inv, of HEAP_START 4096 pr] pre that show ?thesis
    by (auto simp: HEAP_MAX_SIZE_def split: sum.splits)
qed

lemma small_heap_state:
  "\<exists>s :: heap_state. heap_inv s \<and> heap_blocks s [(4072, False)] \<and> heap_head s = HEAP_START \<and>
     headers s = [HEAP_START \<mapsto> hdr_of 4072 False 0] \<and> stray s = stray small_heap"
  by (rule small_heap_init [where pr = Dev]) (intro exI conjI; assumption)

text \<open>
  \<open>kmalloc_init\<close> on every branch, when no large page lies in the heap's range. It panics when called twice, on an unaligned start and on
  a size that leaves no room; with fewer than four free frames per page it may run out of
  memory; otherwise the heap becomes one free block that covers exactly the whole pages asked
  for, every address of which is mapped.
\<close>

theorem kmalloc_init_correct:
  assumes "vm_inv s" "heap_window s" "HEAP_START \<le> start" "start + size_bytes \<le> HEAP_START + HEAP_MAX_SIZE"
  shows "case kmalloc_init pr start size_bytes s of
      Inl e \<Rightarrow>
        (if heap_inited s then e = Panic ''kmalloc_init called twice''
         else if start mod PAGE_SIZE \<noteq> 0 then e = Panic ''heap start must be page-aligned''
         else if size_bytes \<le> HEADER_SIZE + ALIGN then e = Panic ''heap too small''
         else oom e \<and> card (free_pages s) < 4 * ((size_bytes + (PAGE_SIZE - 1)) div PAGE_SIZE))
    | Inr s' \<Rightarrow>
        heap_inv s' \<and> live_blocks s' = {} \<and> heap_head s' = start \<and>
        heap_end s' = start + (size_bytes + (PAGE_SIZE - 1)) div PAGE_SIZE * PAGE_SIZE \<and>
        mapped_range start (heap_end s') s'"
proof (cases "heap_inited s \<or> start mod PAGE_SIZE \<noteq> 0 \<or> size_bytes \<le> HEADER_SIZE + ALIGN")
  case True
  then show ?thesis by (auto simp: kmalloc_init_def ensure_def)
next
  case False
  then have ok: "\<not> heap_inited s" "start mod PAGE_SIZE = 0" "HEADER_SIZE + ALIGN < size_bytes" by auto
  note r = kmalloc_init_result [OF assms ok, of pr]
  show ?thesis
  proof (cases "kmalloc_init pr start size_bytes s")
    case (Inl e)
    then show ?thesis using r ok by simp
  next
    case (Inr s')
    let ?tot = "(size_bytes + (PAGE_SIZE - 1)) div PAGE_SIZE * PAGE_SIZE"
    have r': "heap_inv s'" "heap_blocks s' [(?tot - HEADER_SIZE, False)]" "heap_head s' = start"
      "heap_end s' = start + ?tot" using r Inr by simp_all
    have "live_blocks s' = {}" using live_blocks_eq [OF r'(2)] by simp
    moreover have "mapped_range start (heap_end s') s'" using r'(1,3) by (simp add: heap_inv_def)
    ultimately show ?thesis using r' Inr by simp
  qed
qed

theorem kmalloc_init_correct_witness:
  "\<exists>s'. kmalloc_init Dev HEAP_START 4096 small_heap = Inr s' \<and> live_blocks s' = {} \<and>
     heap_end s' = HEAP_START + 4096"
proof -
  obtain s' where s': "kmalloc_init Dev HEAP_START 4096 small_heap = Inr s'"
    by (rule small_heap_init [where pr = Dev])
  from kmalloc_init_correct [OF small_heap_inv, of HEAP_START 4096 Dev] s' show ?thesis
    by (simp add: HEAP_MAX_SIZE_def)
qed

text \<open>
  C13: \<open>kmalloc\<close> refines first fit on the list of blocks, and always returns. For any positive
  request up to \<open>2 ^ 39\<close> bytes: when a free block fits, the heap afterwards holds exactly the
  list that first fit with splitting computes and nothing else has changed; when none fits, the
  heap is extended once, by one block that does fit, and first fit on the extended list is the
  result, unless the extension panics (no physical memory, or the 64 MiB limit). The recursive
  call of \<open>kmalloc\<close> therefore never recurses again.
\<close>

theorem kmalloc_refines_first_fit:
  assumes "heap_inv s" "heap_blocks s bs" "0 < nbytes" "nbytes \<le> 2 ^ 39"
  shows "case first_fit (round_up16 nbytes) (heap_head s) bs of
      Some (p, bs') \<Rightarrow>
        \<exists>H. kmalloc pr nbytes s = Some (Inr (p, s\<lparr>headers := H\<rparr>)) \<and>
          heap_blocks (s\<lparr>headers := H\<rparr>) bs' \<and> heap_inv (s\<lparr>headers := H\<rparr>)
    | None \<Rightarrow>
        (\<exists>e. kmalloc pr nbytes s = Some (Inl e) \<and>
          (oom e \<or> e = Panic ''heap: exceeded maximum size'')) \<or>
        (\<exists>sz p bs' s'. first_fit (round_up16 nbytes) (heap_head s) (bs @ [(sz, False)]) = Some (p, bs') \<and>
          kmalloc pr nbytes s = Some (Inr (p, s')) \<and> heap_blocks s' bs' \<and> heap_inv s')"
proof (cases "first_fit (round_up16 nbytes) (heap_head s) bs")
  case None
  then show ?thesis using kmalloc_grows [OF assms None, of pr] by auto
next
  case (Some r)
  have "nbytes \<le> 2 ^ 40" using assms(4) by simp
  from kmalloc_fits [OF assms(1-3) this, of "fst r" "snd r" pr] Some show ?thesis by auto
qed

theorem kmalloc_refines_first_fit_witness:
  "\<exists>(s :: heap_state) s'. heap_inv s \<and> heap_blocks s [(4072, False)] \<and>
     kmalloc Dev 100 s = Some (Inr (HEAP_START + 24, s')) \<and>
     heap_blocks s' [(112, True), (3936, False)]"
proof -
  obtain s :: heap_state where s: "heap_inv s" "heap_blocks s [(4072, False)]" "heap_head s = HEAP_START"
    using small_heap_state by blast
  have n: "0 < (100 :: nat)" "(100 :: nat) \<le> 2 ^ 39" by simp_all
  have "first_fit (round_up16 100) (heap_head s) [(4072, False)] =
      Some (HEAP_START + 24, [(112, True), (3936, False)])"
    by (simp add: s(3) round_up16_def)
  with kmalloc_refines_first_fit [OF s(1,2) n, where pr = Dev] s show ?thesis by auto
qed

text \<open>
  C14: \<open>kfree\<close> on every branch, in every build profile. A null pointer is ignored; before \<open>kmalloc_init\<close> every other
  pointer panics; freeing a live block refines \<open>release\<close> on the list (the block becomes free and absorbs its
  successor if that is free) and removes exactly that block from the live ones; freeing it again panics with
  the double-free message. For any pointer at all, the outcome is decided by the 24 bytes before it: not
  mapped, a wild access; the magic number of a free block, the double-free panic; any magic number but that of
  a block in use, the panic for an invalid pointer or a corrupted heap; otherwise (which the code cannot tell
  from a real block) they are taken for the header of a block, marked free and coalesced. Below 24 the subtraction
  panics in a development build.
\<close>

theorem kfree_correct:
  assumes "heap_inv s" "heap_blocks s bs"
  shows "kfree pr 0 s = Inr s \<and>
    (q \<noteq> 0 \<longrightarrow> kfree pr q (s\<lparr>heap_inited := False\<rparr>) = Inl (Panic ''kfree called before kmalloc_init'')) \<and>
    ((p, sz) \<in> live_blocks s \<longrightarrow>
      (\<exists>s'. kfree pr p s = Inr s' \<and> heap_inv s' \<and> heap_blocks s' (release p (heap_head s) bs) \<and>
        live_blocks s' = live_blocks s - {(p, sz)} \<and>
        kfree pr p s' = Inl (Panic ''kfree: double free detected''))) \<and>
    (HEADER_SIZE \<le> q \<longrightarrow> kfree pr q s =
      (case header_at (q - HEADER_SIZE) s of
         None \<Rightarrow> Inl (WildAccess (q - HEADER_SIZE))
       | Some h \<Rightarrow>
           if hmagic h = MAGIC_FREE then Inl (Panic ''kfree: double free detected'')
           else if hmagic h \<noteq> MAGIC_USED then Inl (Panic ''kfree: invalid pointer or heap corruption'')
           else coalesce pr (q - HEADER_SIZE)
             (write_hdr (q - HEADER_SIZE) (h\<lparr>hused := 0, hmagic := MAGIC_FREE\<rparr>) s))) \<and>
    (0 < q \<and> q < HEADER_SIZE \<longrightarrow> kfree Dev q s = Inl Overflow)"
proof (intro conjI impI)
  have init: "heap_inited s" using assms(2) by (simp add: heap_blocks_def)
  show "kfree pr 0 s = Inr s" by (simp add: kfree_def)
  show "q \<noteq> 0 \<Longrightarrow> kfree pr q (s\<lparr>heap_inited := False\<rparr>) = Inl (Panic ''kfree called before kmalloc_init'')"
    by (simp add: kfree_def ensure_def)
  show "0 < q \<and> q < HEADER_SIZE \<Longrightarrow> kfree Dev q s = Inl Overflow"
    using init by (simp add: kfree_def usub_def)
  show "HEADER_SIZE \<le> q \<Longrightarrow> kfree pr q s =
      (case header_at (q - HEADER_SIZE) s of
         None \<Rightarrow> Inl (WildAccess (q - HEADER_SIZE))
       | Some h \<Rightarrow>
           if hmagic h = MAGIC_FREE then Inl (Panic ''kfree: double free detected'')
           else if hmagic h \<noteq> MAGIC_USED then Inl (Panic ''kfree: invalid pointer or heap corruption'')
           else coalesce pr (q - HEADER_SIZE)
             (write_hdr (q - HEADER_SIZE) (h\<lparr>hused := 0, hmagic := MAGIC_FREE\<rparr>) s))"
    using init by (auto simp: kfree_def read_hdr_def ensure_def split: option.split)
  assume lv: "(p, sz) \<in> live_blocks s"
  obtain H z nx where H: "kfree pr p s = Inr (s\<lparr>headers := H\<rparr>)" "heap_inv (s\<lparr>headers := H\<rparr>)"
    "heap_blocks (s\<lparr>headers := H\<rparr>) (release p (heap_head s) bs)"
    "live_blocks (s\<lparr>headers := H\<rparr>) = live_blocks s - {(p, sz)}"
    "H (p - HEADER_SIZE) = Some (hdr_of z False nx)"
    using kfree_live [OF assms lv, of pr] by blast
  have "heap_head s + HEADER_SIZE \<le> p"
    using lv live_ge unfolding live_blocks_eq [OF assms(2)] by blast
  then have "kfree pr p (s\<lparr>headers := H\<rparr>) = Inl (Panic ''kfree: double free detected'')"
    using H(5) init by (simp add: kfree_def read_hdr_def)
  with H show "\<exists>s'. kfree pr p s = Inr s' \<and> heap_inv s' \<and>
      heap_blocks s' (release p (heap_head s) bs) \<and> live_blocks s' = live_blocks s - {(p, sz)} \<and>
      kfree pr p s' = Inl (Panic ''kfree: double free detected'')" by blast
qed

lemma small_stray:
  "stray small_heap a =
     (if HEAP_START \<le> a \<and> a < HEAP_START + 4096 then Some (hdr_of 0 False 0\<lparr>hmagic := 0\<rparr>) else None)"
  by (simp add: small_heap_def small_vmm_def heap_state.defs)

theorem kfree_correct_witness:
  "\<exists>(s :: heap_state) s1 s2. heap_inv s \<and> kmalloc Dev 100 s = Some (Inr (HEAP_START + 24, s1)) \<and>
     kfree Dev (HEAP_START + 24) s1 = Inr s2 \<and> heap_blocks s2 [(4072, False)] \<and>
     kfree Dev (HEAP_START + 24) s2 = Inl (Panic ''kfree: double free detected'') \<and>
     kfree Dev (HEAP_START + 64) s = Inl (Panic ''kfree: invalid pointer or heap corruption'') \<and>
     kfree Dev 0x2018 s = Inl (WildAccess 0x2000)"
proof -
  obtain s :: heap_state where s: "heap_inv s" "heap_blocks s [(4072, False)]" "heap_head s = HEAP_START"
    "headers s = [HEAP_START \<mapsto> hdr_of 4072 False 0]" "stray s = stray small_heap"
    using small_heap_state by blast
  have "first_fit (round_up16 100) (heap_head s) [(4072, False)] =
      Some (HEAP_START + 24, [(112, True), (3936, False)])"
    by (simp add: s(3) round_up16_def)
  from kmalloc_fits [OF s(1,2) _ _ this, of Dev] obtain H where H:
    "kmalloc Dev 100 s = Some (Inr (HEAP_START + 24, s\<lparr>headers := H\<rparr>))"
    "heap_inv (s\<lparr>headers := H\<rparr>)" "heap_blocks (s\<lparr>headers := H\<rparr>) [(112, True), (3936, False)]" by auto
  have lv: "(HEAP_START + 24, 112) \<in> live_blocks (s\<lparr>headers := H\<rparr>)"
    by (simp add: live_blocks_eq [OF H(3)] s(3))
  have "\<exists>s'. kfree Dev (HEAP_START + 24) (s\<lparr>headers := H\<rparr>) = Inr s' \<and>
      heap_blocks s' (release (HEAP_START + 24) HEAP_START [(112, True), (3936, False)]) \<and>
      kfree Dev (HEAP_START + 24) s' = Inl (Panic ''kfree: double free detected'')"
    using kfree_correct [OF H(2,3), where pr = Dev and p = "HEAP_START + 24" and sz = 112 and q = 0] lv s(3)
    by fastforce
  moreover have "release (HEAP_START + 24) HEAP_START [(112, True), (3936, False)] = [(4072, False)]" by simp
  ultimately obtain s2 where s2: "kfree Dev (HEAP_START + 24) (s\<lparr>headers := H\<rparr>) = Inr s2"
    "heap_blocks s2 [(4072, False)]"
    "kfree Dev (HEAP_START + 24) s2 = Inl (Panic ''kfree: double free detected'')" by auto
  have at: "header_at (40 + HEAP_START) s = Some (hdr_of 0 False 0\<lparr>hmagic := 0\<rparr>)" "header_at 0x2000 s = None"
    by (simp_all add: header_at_def s(4,5) small_stray HEAP_START_def)
  have "kfree Dev (HEAP_START + 64) s = Inl (Panic ''kfree: invalid pointer or heap corruption'')"
    using kfree_correct [OF s(1,2), where pr = Dev and q = "HEAP_START + 64"] at(1)
    by (simp add: MAGIC_FREE_def MAGIC_USED_def)
  moreover have "kfree Dev 0x2018 s = Inl (WildAccess 0x2000)"
    using kfree_correct [OF s(1,2), where pr = Dev and q = "0x2018"] at(2) by simp
  ultimately show ?thesis using H(1) s(1) s2 by - (intro exI conjI; assumption)
qed

text \<open>
  C4: memory safety of the heap for its clients. In any history of allocations, frees of held
  blocks and writes anywhere inside held blocks, starting from a well-formed heap, two held
  blocks never overlap, every held block can be freed without a fault, and the heap stays
  well-formed.
\<close>

theorem heap_clients_disjoint:
  assumes "heap_inv s0" "block_run (kmalloc pr) (kfree pr) client_write (2 ^ 39) s0 s held"
    "(p, m) \<in> held" "(q, n) \<in> held"
  shows "heap_inv s \<and> ((p, m) \<noteq> (q, n) \<longrightarrow> {p ..< p + m} \<inter> {q ..< q + n} = {}) \<and>
    (\<exists>s'. kfree pr p s = Inr s' \<and> heap_inv s')"
  using heap.run_blocks [OF assms(2,1)] heap.run_disjoint [OF assms(2,1,3,4)]
    heap.run_free [OF assms(2,1,3)] by blast

theorem heap_clients_disjoint_witness:
  "\<exists>(s0 :: heap_state) s. heap_inv s0 \<and>
     block_run (kmalloc Dev) (kfree Dev) client_write (2 ^ 39) s0 s {(HEAP_START + 24, 100)} \<and>
     (\<exists>s'. kfree Dev (HEAP_START + 24) s = Inr s')"
proof -
  obtain s0 :: heap_state where s: "heap_inv s0" "heap_blocks s0 [(4072, False)]" "heap_head s0 = HEAP_START"
    using small_heap_state by blast
  have "first_fit (round_up16 100) (heap_head s0) [(4072, False)] =
      Some (HEAP_START + 24, [(112, True), (3936, False)])"
    by (simp add: s(3) round_up16_def)
  from kmalloc_fits [OF s(1,2) _ _ this, of Dev] obtain s where a:
    "kmalloc Dev 100 s0 = Some (Inr (HEAP_START + 24, s))" by auto
  have "block_run (kmalloc Dev) (kfree Dev) client_write (2 ^ 39) s0 s {(HEAP_START + 24, 100)}"
    using block_run.get [where alloc = "kmalloc Dev" and n = 100 and s = s0, OF block_run.init _ _ a] by simp
  note run = this
  have in_held: "(HEAP_START + 24, 100) \<in> {(HEAP_START + 24, 100 :: nat)}" by simp
  have "\<exists>s'. kfree Dev (HEAP_START + 24) s = Inr s'"
    using heap_clients_disjoint [OF s(1) run in_held in_held] by auto
  with run s(1) show ?thesis
    by - (rule exI [of _ s0], rule exI [of _ s], intro conjI; assumption)
qed

end
