(* ===== verification/Cpu.thy ===== *)
theory Cpu
  imports Prelude
begin

text \<open>
  The processor as the kernel's assembly uses it: general registers, stack pointer, instruction
  pointer, flags and segment registers, over a memory of 64-bit cells. \<open>instr\<close> has the
  instructions that occur in the naked functions (\<open>switch_to\<close>, \<open>make_stub!\<close>, \<open>common_stub\<close>);
  \<open>deliver\<close> is what the processor itself does when it takes an interrupt in 64-bit mode.
\<close>

datatype reg = RAX | RBX | RCX | RDX | RSI | RDI | RBP
  | R8 | R9 | R10 | R11 | R12 | R13 | R14 | R15

record cpu =
  gpr :: "reg \<Rightarrow> u64"
  sp :: nat
  ip :: u64
  flags :: u64
  code_seg :: u64
  stack_seg :: u64
  mem :: "nat \<Rightarrow> u64"

datatype instr =
    Push reg
  | Push_imm u64
  | Pop reg
  | Mov_rdi_rsp
  | Mov_at_rdi_rsp
  | Mov_rsp_at_rsi
  | Add_rsp nat
  | Call
  | Ret
  | Iretq

text \<open>
  A call runs a compiled function: it gets the registers and memory and returns them, clobbered
  as it likes, with the stack pointer where it was (the return address lives below it).
\<close>

type_synonym callee = "(reg \<Rightarrow> u64) \<Rightarrow> (nat \<Rightarrow> u64) \<Rightarrow> (reg \<Rightarrow> u64) \<times> (nat \<Rightarrow> u64)"

definition push :: "u64 \<Rightarrow> cpu \<Rightarrow> cpu" where
  "push v c = c\<lparr>sp := sp c - 8, mem := (mem c)(sp c - 8 := v)\<rparr>"

fun exec :: "callee \<Rightarrow> instr \<Rightarrow> cpu \<Rightarrow> cpu" where
  "exec f (Push r) c = push (gpr c r) c"
| "exec f (Push_imm v) c = push v c"
| "exec f (Pop r) c = c\<lparr>gpr := (gpr c)(r := mem c (sp c)), sp := sp c + 8\<rparr>"
| "exec f Mov_rdi_rsp c = c\<lparr>gpr := (gpr c)(RDI := of_nat (sp c))\<rparr>"
| "exec f Mov_at_rdi_rsp c = c\<lparr>mem := (mem c)(unat (gpr c RDI) := of_nat (sp c))\<rparr>"
| "exec f Mov_rsp_at_rsi c = c\<lparr>sp := unat (mem c (unat (gpr c RSI)))\<rparr>"
| "exec f (Add_rsp n) c = c\<lparr>sp := sp c + n\<rparr>"
| "exec f Call c = (let (g, m) = f (gpr c) (mem c) in c\<lparr>gpr := g, mem := m\<rparr>)"
| "exec f Ret c = c\<lparr>ip := mem c (sp c), sp := sp c + 8\<rparr>"
| "exec f Iretq c =
     c\<lparr>ip := mem c (sp c), code_seg := mem c (sp c + 8), flags := mem c (sp c + 16),
       sp := unat (mem c (sp c + 24)), stack_seg := mem c (sp c + 32)\<rparr>"

definition exec_all :: "callee \<Rightarrow> instr list \<Rightarrow> cpu \<Rightarrow> cpu" where
  "exec_all f code c = fold (exec f) code c"

lemma exec_all_append: "exec_all f (p @ q) c = exec_all f q (exec_all f p c)"
  by (simp add: exec_all_def)

lemma exec_all_simps [simp]:
  "exec_all f [] c = c" "exec_all f (i # is) c = exec_all f is (exec f i c)"
  by (simp_all add: exec_all_def)

text \<open>
  Delivery of an interrupt or exception: the stack pointer is aligned to 16 bytes, then SS, RSP,
  RFLAGS, CS and RIP are pushed, and an error code for the exceptions that have one.
\<close>

definition error_vectors :: "nat set" where
  "error_vectors = {8, 10, 11, 12, 13, 14, 17, 21, 29, 30}"

definition deliver :: "nat \<Rightarrow> u64 \<Rightarrow> cpu \<Rightarrow> cpu" where
  "deliver v err c =
     (let c1 = push (ip c) (push (code_seg c) (push (flags c) (push (of_nat (sp c))
                (push (stack_seg c) (c\<lparr>sp := sp c div 16 * 16\<rparr>))))) in
      if v \<in> error_vectors then push err c1 else c1)"

end
