(* ===== verification/Idt.thy ===== *)
theory Idt
  imports Heap Cpu
begin

text \<open>
  Interrupt entry (\<open>interrupt/idt.rs\<close>): the descriptor table and its gates, the entry stubs and
  \<open>common_stub\<close> as assembly programs on a small CPU model, the stack frame they build, and the
  table of IRQ handlers. What \<open>common_handler\<close> does with a frame is in the theory \<open>Interrupts\<close>,
  because it calls every other component.

  The addresses the linker gives to the stubs and to the table are parameters.
\<close>

section \<open>The descriptor table\<close>

record idt_entry =
  offset_low :: u16
  selector :: u16
  ist :: u8
  type_attr :: u8
  offset_mid :: u16
  offset_high :: u32
  zero_word :: u32

definition KERNEL_CS16 :: u16 where "KERNEL_CS16 = 0x28"
definition GATE_INTERRUPT :: u8 where "GATE_INTERRUPT = 0x8e"

definition zero_entry :: idt_entry where
  "zero_entry = \<lparr>offset_low = 0, selector = 0, ist = 0, type_attr = 0, offset_mid = 0,
     offset_high = 0, zero_word = 0\<rparr>"

definition set_entry :: "u64 \<Rightarrow> u16 \<Rightarrow> u8 \<Rightarrow> idt_entry \<Rightarrow> idt_entry" where
  "set_entry handler sel attr e =
     e\<lparr>offset_low := ucast (handler AND 0xffff),
       offset_mid := ucast (drop_bit 16 handler AND 0xffff),
       offset_high := ucast (drop_bit 32 handler AND 0xffffffff),
       selector := sel, ist := 0, type_attr := attr, zero_word := 0\<rparr>"

datatype irq_handler = On_tick | On_irq1

record idt_state = heap_state +
  idt :: "idt_entry list"
  idtr :: "u16 \<times> u64"
  irq_handles :: "irq_handler option list"

definition IRQ_COUNT :: nat where [simp]: "IRQ_COUNT = 16"

definition register_irq_handler ::
    "nat \<Rightarrow> irq_handler \<Rightarrow> 'a idt_state_scheme \<Rightarrow> 'a idt_state_scheme res" where
  "register_irq_handler irq h s =
     andThen (ensure (irq < IRQ_COUNT) ''register_irq_handler: irq out of range'') (\<lambda>_.
       Inr (s\<lparr>irq_handles := (irq_handles s)[irq := Some h]\<rparr>))"

text \<open>\<open>install!(idt_ptr, vector, stub)\<close>.\<close>

definition install :: "(nat \<Rightarrow> u64) \<Rightarrow> nat \<Rightarrow> u8 \<Rightarrow> idt_entry list \<Rightarrow> idt_entry list" where
  "install stub v attr tbl = tbl[v := set_entry (stub v) KERNEL_CS16 attr (tbl ! v)]"

definition init_idt :: "(nat \<Rightarrow> u64) \<Rightarrow> u64 \<Rightarrow> 'a idt_state_scheme \<Rightarrow> 'a idt_state_scheme" where
  "init_idt stub idt_base s =
     (let tbl = fold (\<lambda>v. install stub v GATE_INTERRUPT) [0..<48] (idt s);
          tbl = install stub 128 0xee tbl in
      s\<lparr>idt := tbl, idtr := (of_nat (256 * 16 - 1), idt_base)\<rparr>)"

text \<open>How the processor reads a gate: present, target, selector, privilege level.\<close>

definition gate_present :: "idt_entry \<Rightarrow> bool" where
  "gate_present e = bit (type_attr e) 7"

definition gate_offset :: "idt_entry \<Rightarrow> u64" where
  "gate_offset e = ucast (offset_low e) OR push_bit 16 (ucast (offset_mid e))
     OR push_bit 32 (ucast (offset_high e))"

definition gate_dpl :: "idt_entry \<Rightarrow> u8" where
  "gate_dpl e = drop_bit 5 (type_attr e) AND 3"

definition gate_is_interrupt :: "idt_entry \<Rightarrow> bool" where
  "gate_is_interrupt e \<longleftrightarrow> type_attr e AND 0x1f = 0x0e"

lemma and_low_bits:
  "w AND 0xffff = take_bit 16 w" "w AND 0xffffffff = take_bit 32 w" for w :: u64
  using take_bit_eq_mask [of 16 w] take_bit_eq_mask [of 32 w]
  by (simp_all add: mask_eq_exp_minus_1)

lemma gate_offset_set [simp]: "gate_offset (set_entry h sel attr e) = h"
proof (rule bit_word_eqI)
  fix n :: nat
  assume "n < LENGTH(64)"
  then show "bit (gate_offset (set_entry h sel attr e)) n = bit h n"
    unfolding gate_offset_def set_entry_def and_low_bits
    by (cases "n < 16"; cases "n < 32") (auto simp: bit_simps)
qed

lemma set_entry_sel [simp]:
  "selector (set_entry h sel attr e) = sel" "type_attr (set_entry h sel attr e) = attr"
  "ist (set_entry h sel attr e) = 0"
  by (simp_all add: set_entry_def)

lemma length_install [simp]: "length (install stub v attr tbl) = length tbl"
  by (simp add: install_def)

lemma length_fold_install: "length (fold (\<lambda>v. install stub v attr) vs tbl) = length tbl"
  by (induction vs arbitrary: tbl) simp_all

lemma fold_install:
  assumes "\<forall>v \<in> set vs. v < length tbl" "distinct vs" "w < length tbl"
  shows "fold (\<lambda>v. install stub v attr) vs tbl ! w =
    (if w \<in> set vs then set_entry (stub w) KERNEL_CS16 attr (tbl ! w) else tbl ! w)"
  using assms
proof (induction vs arbitrary: tbl)
  case (Cons v vs)
  then show ?case by (auto simp: install_def nth_list_update_if)
qed simp

section \<open>The entry stubs\<close>

text \<open>The vectors \<open>make_vector!\<close> lists as having an error code.\<close>

definition has_error_code :: "nat \<Rightarrow> bool" where
  "has_error_code v \<longleftrightarrow> v \<in> {8, 10, 11, 12, 13, 14, 17, 21, 29, 30}"

definition common_stub :: "instr list" where
  "common_stub =
     [Push RAX, Push RBX, Push RCX, Push RDX, Push RSI, Push RDI, Push RBP,
      Push R8, Push R9, Push R10, Push R11, Push R12, Push R13, Push R14, Push R15,
      Mov_rdi_rsp, Call,
      Pop R15, Pop R14, Pop R13, Pop R12, Pop R11, Pop R10, Pop R9, Pop R8,
      Pop RBP, Pop RDI, Pop RSI, Pop RDX, Pop RCX, Pop RBX, Pop RAX,
      Add_rsp 16, Iretq]"

definition make_stub :: "nat \<Rightarrow> instr list" where
  "make_stub v = (if has_error_code v then [Push_imm (of_nat v)] else [Push_imm 0, Push_imm (of_nat v)])
     @ common_stub"

section \<open>The frame\<close>

record interrupt_frame =
  r15 :: u64
  r14 :: u64
  r13 :: u64
  r12 :: u64
  r11 :: u64
  r10 :: u64
  r9 :: u64
  r8 :: u64
  rbp :: u64
  rdi :: u64
  rsi :: u64
  rdx :: u64
  rcx :: u64
  rbx :: u64
  rax :: u64
  vector :: u64
  error_code :: u64
  rip :: u64
  cs :: u64
  rflags :: u64
  rsp :: u64
  ss :: u64

text \<open>A pointer \<open>a\<close> to \<open>InterruptFrame\<close> (\<open>repr(C)\<close>, every field a \<open>u64\<close>) and what it points to.\<close>

definition frame_at :: "(nat \<Rightarrow> u64) \<Rightarrow> nat \<Rightarrow> interrupt_frame" where
  "frame_at m a = \<lparr>r15 = m a, r14 = m (a + 8), r13 = m (a + 16), r12 = m (a + 24), r11 = m (a + 32),
     r10 = m (a + 40), r9 = m (a + 48), r8 = m (a + 56), rbp = m (a + 64), rdi = m (a + 72),
     rsi = m (a + 80), rdx = m (a + 88), rcx = m (a + 96), rbx = m (a + 104), rax = m (a + 112),
     vector = m (a + 120), error_code = m (a + 128), rip = m (a + 136), cs = m (a + 144),
     rflags = m (a + 152), rsp = m (a + 160), ss = m (a + 168)\<rparr>"

definition frame_regs :: "interrupt_frame \<Rightarrow> reg \<Rightarrow> u64" where
  "frame_regs fr r = (case r of RAX \<Rightarrow> rax fr | RBX \<Rightarrow> rbx fr | RCX \<Rightarrow> rcx fr | RDX \<Rightarrow> rdx fr
     | RSI \<Rightarrow> rsi fr | RDI \<Rightarrow> rdi fr | RBP \<Rightarrow> rbp fr | R8 \<Rightarrow> r8 fr | R9 \<Rightarrow> r9 fr | R10 \<Rightarrow> r10 fr
     | R11 \<Rightarrow> r11 fr | R12 \<Rightarrow> r12 fr | R13 \<Rightarrow> r13 fr | R14 \<Rightarrow> r14 fr | R15 \<Rightarrow> r15 fr)"

text \<open>The interrupted context as a frame.\<close>

definition context_frame :: "nat \<Rightarrow> u64 \<Rightarrow> cpu \<Rightarrow> interrupt_frame" where
  "context_frame v err c =
     \<lparr>r15 = gpr c R15, r14 = gpr c R14, r13 = gpr c R13, r12 = gpr c R12, r11 = gpr c R11,
      r10 = gpr c R10, r9 = gpr c R9, r8 = gpr c R8, rbp = gpr c RBP, rdi = gpr c RDI,
      rsi = gpr c RSI, rdx = gpr c RDX, rcx = gpr c RCX, rbx = gpr c RBX, rax = gpr c RAX,
      vector = of_nat v, error_code = (if v \<in> error_vectors then err else 0), rip = ip c,
      cs = code_seg c, rflags = flags c, rsp = of_nat (sp c), ss = stack_seg c\<rparr>"

text \<open>Everything before the call: the frame is on the stack and RDI points to it.\<close>

definition entry_code :: "nat \<Rightarrow> instr list" where
  "entry_code v = take (length (make_stub v) - 18) (make_stub v)"

definition frame_base :: "cpu \<Rightarrow> nat" where
  "frame_base c = sp c div 16 * 16 - 176"

lemma make_stub_split:
  "make_stub v = entry_code v @ Call # drop 17 common_stub"
  by (simp add: entry_code_def make_stub_def common_stub_def)

lemma frame_base_eq: "176 \<le> sp c \<Longrightarrow> sp c div 16 * 16 = frame_base c + 176"
  using div_le_mono [of 176 "sp c" 16] by (simp add: frame_base_def)

lemma entry_builds_frame:
  assumes "176 \<le> sp c"
  shows "frame_at (mem (exec_all f (entry_code v) (deliver v err c))) (frame_base c) =
      context_frame v err c"
    "sp (exec_all f (entry_code v) (deliver v err c)) = frame_base c"
    "gpr (exec_all f (entry_code v) (deliver v err c)) RDI = of_nat (frame_base c)"
  using frame_base_eq [OF assms]
  by (auto simp: entry_code_def make_stub_def common_stub_def deliver_def push_def
      frame_at_def context_frame_def has_error_code_def error_vectors_def Let_def)

lemma exit_loads_frame:
  assumes "sp c = b" "frame_at (mem c) b = fr"
  shows "exec_all f (drop 17 common_stub) c =
    c\<lparr>gpr := frame_regs fr, sp := unat (rsp fr), ip := rip fr, flags := rflags fr,
      code_seg := cs fr, stack_seg := ss fr\<rparr>"
proof -
  have "frame_regs fr = (gpr c)(R15 := mem c b, R14 := mem c (b + 8), R13 := mem c (b + 16),
      R12 := mem c (b + 24), R11 := mem c (b + 32), R10 := mem c (b + 40), R9 := mem c (b + 48),
      R8 := mem c (b + 56), RBP := mem c (b + 64), RDI := mem c (b + 72), RSI := mem c (b + 80),
      RDX := mem c (b + 88), RCX := mem c (b + 96), RBX := mem c (b + 104), RAX := mem c (b + 112))"
    using assms(2) by (auto simp: fun_eq_iff frame_regs_def frame_at_def split: reg.splits)
  moreover have "rsp fr = mem c (b + 160)" "rip fr = mem c (b + 136)" "rflags fr = mem c (b + 152)"
    "cs fr = mem c (b + 144)" "ss fr = mem c (b + 168)"
    unfolding assms(2) [symmetric] by (simp_all add: frame_at_def)
  ultimately show ?thesis
    using assms(1) by (simp add: common_stub_def ac_simps)
qed

text \<open>
  A whole interrupt: delivery, stub, handler \<open>h\<close> (a function on the frame) and return.
\<close>

definition callee_of :: "(interrupt_frame \<Rightarrow> interrupt_frame) \<Rightarrow> callee \<Rightarrow> bool" where
  "callee_of h f \<longleftrightarrow> (\<forall>g m. frame_at (snd (f g m)) (unat (g RDI)) = h (frame_at m (unat (g RDI))))"

lemma interrupt_result:
  assumes "176 \<le> sp c" "sp c < usize_lim" "callee_of h f"
  shows "\<exists>m. exec_all f (make_stub v) (deliver v err c) =
    (let fr = h (context_frame v err c) in
     c\<lparr>gpr := frame_regs fr, sp := unat (rsp fr), ip := rip fr, flags := rflags fr,
       code_seg := cs fr, stack_seg := ss fr, mem := m\<rparr>)"
proof -
  let ?c1 = "exec_all f (entry_code v) (deliver v err c)"
  note e = entry_builds_frame [OF assms(1), of f v err]
  let ?c2 = "exec f Call ?c1"
  have "frame_base c < 2 ^ 64"
    using assms(2) div_times_less_eq_dividend [of "sp c" 16] by (simp add: frame_base_def)
  then have u: "unat (gpr ?c1 RDI) = frame_base c"
    unfolding e(3) by (simp add: unsigned_of_nat take_bit_nat_eq_self)
  have "frame_at (mem ?c2) (frame_base c) = h (context_frame v err c)"
    using assms(3) e(1) u by (auto simp: callee_of_def split: prod.splits) (metis snd_conv)
  moreover have "sp ?c2 = frame_base c" using e(2) by (simp split: prod.splits)
  ultimately have "exec_all f (drop 17 common_stub) ?c2 =
    (let fr = h (context_frame v err c) in
     ?c2\<lparr>gpr := frame_regs fr, sp := unat (rsp fr), ip := rip fr, flags := rflags fr,
       code_seg := cs fr, stack_seg := ss fr\<rparr>)"
    using exit_loads_frame [of ?c2] by (simp add: Let_def)
  then show ?thesis
    unfolding make_stub_split exec_all_append exec_all_simps
    by (cases ?c2, cases c) (auto simp: Let_def)
qed

section \<open>Properties\<close>

lemma gate_attrs:
  "bit (0x8e :: u8) 7" "bit (0xee :: u8) 7" "(0x8e :: u8) AND 0x1f = 0x0e" "(0xee :: u8) AND 0x1f = 0x0e"
  "drop_bit 5 (0x8e :: u8) AND 3 = 0" "drop_bit 5 (0xee :: u8) AND 3 = 3"
  by code_simp+

text \<open>
  After \<open>init_idt\<close> the processor finds in the descriptor table, for every vector 0 to 47 and
  for 128, a present 64-bit interrupt gate whose 64-bit target, reassembled from its three
  pieces, is that vector's stub, in the kernel code segment, on the current stack; only vector
  128 may be raised from user mode (DPL 3). No other entry is touched, and IDTR covers exactly
  the 256 entries.
\<close>

theorem init_idt_correct:
  assumes "length (idt s) = 256" "v < 256"
  shows "idtr (init_idt stub idt_base s) = (4095, idt_base) \<and>
    length (idt (init_idt stub idt_base s)) = 256 \<and>
    (let e = idt (init_idt stub idt_base s) ! v in
      if v < 48 \<or> v = 128 then
        gate_present e \<and> gate_is_interrupt e \<and> gate_offset e = stub v \<and> selector e = 0x28 \<and>
        ist e = 0 \<and> gate_dpl e = (if v = 128 then 3 else 0)
      else e = idt s ! v)"
proof -
  let ?tbl = "fold (\<lambda>v. install stub v GATE_INTERRUPT) [0..<48] (idt s)"
  have len: "length ?tbl = 256" using assms(1) by (simp add: length_fold_install)
  have nth: "?tbl ! v = (if v < 48 then set_entry (stub v) KERNEL_CS16 GATE_INTERRUPT (idt s ! v) else idt s ! v)"
    using fold_install [of "[0..<48]" "idt s" v stub GATE_INTERRUPT] assms by simp
  have "idt (init_idt stub idt_base s) ! v =
      (if v = 128 then set_entry (stub 128) KERNEL_CS16 0xee (?tbl ! 128) else ?tbl ! v)"
    using len assms(2) by (simp add: init_idt_def Let_def install_def nth_list_update_if)
  moreover have "length (idt (init_idt stub idt_base s)) = 256"
    "idtr (init_idt stub idt_base s) = (4095, idt_base)"
    using len by (simp_all add: init_idt_def Let_def)
  ultimately show ?thesis
    using nth len gate_attrs
    by (auto simp: Let_def gate_present_def gate_is_interrupt_def gate_dpl_def KERNEL_CS16_def
        GATE_INTERRUPT_def)
qed

theorem init_idt_correct_witness:
  "\<exists>s :: idt_state. length (idt s) = 256 \<and>
     gate_offset (idt (init_idt (\<lambda>v. 0xffffffff80001000 + of_nat v * 16) 0 s) ! 33) = 0xffffffff80001210"
proof -
  obtain s :: idt_state where s: "length (idt s) = 256"
  proof -
    have "length (idt (undefined\<lparr>idt := replicate 256 zero_entry\<rparr> :: idt_state)) = 256" by simp
    then show ?thesis by (rule that)
  qed
  from init_idt_correct [OF s, of 33 "\<lambda>v. 0xffffffff80001000 + of_nat v * 16" 0] s
  show ?thesis by (auto simp: Let_def)
qed

text \<open>
  C12: the entry stubs and \<open>common_stub\<close> are correct for every vector. Whatever the compiled
  handler does to the registers, if it computes \<open>h\<close> on the \<open>InterruptFrame\<close> it is given (the
  interrupted context, with the vector and an error code, 0 for vectors that have none), then
  the interrupted program resumes with exactly the registers, stack pointer, instruction
  pointer, flags and segments of the frame \<open>h\<close> left. In particular a handler that leaves the
  frame alone is invisible to the interrupted program.
\<close>

theorem interrupt_entry_exit:
  assumes "176 \<le> sp c" "sp c < usize_lim" "callee_of h f"
  shows "\<exists>m. exec_all f (make_stub v) (deliver v err c) =
      (let fr = h (context_frame v err c) in
       c\<lparr>gpr := frame_regs fr, sp := unat (rsp fr), ip := rip fr, flags := rflags fr,
         code_seg := cs fr, stack_seg := ss fr, mem := m\<rparr>) \<and>
    (h (context_frame v err c) = context_frame v err c \<longrightarrow>
      exec_all f (make_stub v) (deliver v err c) = c\<lparr>mem := m\<rparr>)"
proof -
  have "frame_regs (context_frame v err c) = gpr c"
    by (auto simp: fun_eq_iff frame_regs_def context_frame_def split: reg.splits)
  moreover have "unat (of_nat (sp c) :: u64) = sp c"
    using assms(2) by (simp add: unsigned_of_nat take_bit_nat_eq_self)
  moreover obtain m where "exec_all f (make_stub v) (deliver v err c) =
      (let fr = h (context_frame v err c) in
       c\<lparr>gpr := frame_regs fr, sp := unat (rsp fr), ip := rip fr, flags := rflags fr,
         code_seg := cs fr, stack_seg := ss fr, mem := m\<rparr>)"
    using interrupt_result [OF assms, of v err] by blast
  ultimately show ?thesis by (intro exI [of _ m]) (simp add: Let_def, simp add: context_frame_def)
qed

theorem interrupt_entry_exit_witness:
  "\<exists>m. exec_all (\<lambda>g m. (\<lambda>r. 0, m)) (make_stub 33)
      (deliver 33 0 \<lparr>gpr = (\<lambda>r. 7), sp = 4096, ip = 1, flags = 0x202, code_seg = 0x28, stack_seg = 0x30,
        mem = (\<lambda>a. 0)\<rparr>) =
    \<lparr>gpr = (\<lambda>r. 7), sp = 4096, ip = 1, flags = 0x202, code_seg = 0x28, stack_seg = 0x30, mem = m\<rparr>"
proof -
  let ?c = "\<lparr>gpr = (\<lambda>r. 7), sp = 4096, ip = 1, flags = 0x202, code_seg = 0x28, stack_seg = 0x30,
    mem = (\<lambda>a. 0)\<rparr>"
  have "callee_of (\<lambda>fr. fr) (\<lambda>g m. (\<lambda>r. 0, m))" by (simp add: callee_of_def)
  from interrupt_entry_exit [OF _ _ this, of ?c 33 0] show ?thesis by auto
qed

end
