(* ===== verification/Keyboard.thy ===== *)
theory Keyboard
  imports Idt
begin

text \<open>
  The PS/2 keyboard (\<open>device/keyboard.rs\<close>): scancode translation, the ring buffer between the
  interrupt handler and its readers, and the controller's initialisation with its bounded waits.

  The buffer refines a bounded queue: \<open>pending\<close> is the list of its bytes, and the locale
  \<open>byte_queue\<close> is what the system call \<open>sys_read\<close> and the shell rely on.
\<close>

section \<open>The ring buffer\<close>

definition BUF_SIZE :: nat where [simp]: "BUF_SIZE = 256"

record key_buffer =
  kbuf :: "u8 list"
  khead :: nat
  ktail :: nat

definition key_buffer_new :: key_buffer where
  "key_buffer_new = \<lparr>kbuf = replicate BUF_SIZE 0, khead = 0, ktail = 0\<rparr>"

definition kb_push :: "u8 \<Rightarrow> key_buffer \<Rightarrow> key_buffer res" where
  "kb_push b k =
     (let nxt = (khead k + 1) mod BUF_SIZE in
      if nxt \<noteq> ktail k then
        if khead k < length (kbuf k) then Inr (k\<lparr>kbuf := (kbuf k)[khead k := b], khead := nxt\<rparr>)
        else Inl OutOfBounds
      else Inr k)"

definition kb_pop :: "key_buffer \<Rightarrow> (u8 option \<times> key_buffer) res" where
  "kb_pop k =
     (if khead k = ktail k then Inr (None, k)
      else if ktail k < length (kbuf k) then
        Inr (Some (kbuf k ! ktail k), k\<lparr>ktail := (ktail k + 1) mod BUF_SIZE\<rparr>)
      else Inl OutOfBounds)"

definition kb_is_empty :: "key_buffer \<Rightarrow> bool" where
  "kb_is_empty k \<longleftrightarrow> khead k = ktail k"

section \<open>Scancodes\<close>

definition asc :: "string \<Rightarrow> u8 list" where
  "asc s = map of_char s"

definition SCANCODE_TABLE :: "u8 list" where
  "SCANCODE_TABLE =
     [0, 27] @ asc ''1234567890-='' @ [8, 9] @ asc ''qwertyuiop[]'' @ [10, 0] @ asc ''asdfghjkl;'' @
     [39] @ asc ''`'' @ [0, 92] @ asc ''zxcvbnm,./'' @ [0] @ asc ''*'' @ [0] @ asc '' '' @
     replicate 13 0 @ asc ''789-456+1230.''"

definition SCANCODE_TABLE_SHIFT :: "u8 list" where
  "SCANCODE_TABLE_SHIFT =
     [0, 27] @ asc ''!@#$%^&*()_+'' @ [8, 9] @ asc ''QWERTYUIOP{}'' @ [10, 0] @ asc ''ASDFGHJKL:'' @
     [34] @ asc ''~'' @ [0] @ asc ''|ZXCVBNM<>?'' @ [0] @ asc ''*'' @ [0] @ asc '' '' @
     replicate 13 0 @ asc ''789-456+1230.''"

definition SC_LSHIFT_DOWN :: u8 where "SC_LSHIFT_DOWN = 0x2a"
definition SC_RSHIFT_DOWN :: u8 where "SC_RSHIFT_DOWN = 0x36"
definition SC_LSHIFT_UP :: u8 where "SC_LSHIFT_UP = 0xAA"
definition SC_RSHIFT_UP :: u8 where "SC_RSHIFT_UP = 0xB6"

record keyboard =
  kbuffer :: key_buffer
  shift :: bool

definition keyboard_new :: keyboard where
  "keyboard_new = \<lparr>kbuffer = key_buffer_new, shift = False\<rparr>"

text \<open>The body of \<open>handle_irq\<close> after the scancode has been read.\<close>

definition handle_scancode :: "u8 \<Rightarrow> keyboard \<Rightarrow> keyboard res" where
  "handle_scancode sc k =
     (if sc = SC_LSHIFT_DOWN \<or> sc = SC_RSHIFT_DOWN then Inr (k\<lparr>shift := True\<rparr>)
      else if sc = SC_LSHIFT_UP \<or> sc = SC_RSHIFT_UP then Inr (k\<lparr>shift := False\<rparr>)
      else if sc AND 0x80 \<noteq> 0 then Inr k
      else
        let idx = unat sc;
            table = (if shift k then SCANCODE_TABLE_SHIFT else SCANCODE_TABLE) in
        if idx < length table then
          let ascii = table ! idx in
          if ascii \<noteq> 0 then andThen (kb_push ascii (kbuffer k)) (\<lambda>b. Inr (k\<lparr>kbuffer := b\<rparr>))
          else Inr k
        else Inr k)"

section \<open>The driver\<close>

record kbd_state = idt_state +
  global_keyboard :: keyboard

definition on_irq1 :: "'a kbd_state_scheme \<Rightarrow> 'a kbd_state_scheme res" where
  "on_irq1 s =
     (let (scancode, s) = inb 0x60 s in
      andThen (handle_scancode scancode (global_keyboard s)) (\<lambda>k. Inr (s\<lparr>global_keyboard := k\<rparr>)))"

definition global_pop :: "'a kbd_state_scheme \<Rightarrow> (u8 option \<times> 'a kbd_state_scheme) res" where
  "global_pop s =
     andThen (kb_pop (kbuffer (global_keyboard s))) (\<lambda>(r, b).
       Inr (r, s\<lparr>global_keyboard := (global_keyboard s)\<lparr>kbuffer := b\<rparr>\<rparr>))"

text \<open>The loops of \<open>wait_write\<close> and \<open>wait_read\<close>; the argument is \<open>timeout\<close>.\<close>

fun wait_write :: "nat \<Rightarrow> 'a machine_scheme \<Rightarrow> 'a machine_scheme" where
  "wait_write 0 s = s"
| "wait_write (Suc n) s =
     (let (v, s) = inb 0x64 s in if v AND 0x02 = 0 then s else wait_write n s)"

fun wait_read :: "nat \<Rightarrow> 'a machine_scheme \<Rightarrow> 'a machine_scheme" where
  "wait_read 0 s = s"
| "wait_read (Suc n) s =
     (let (v, s) = inb 0x64 s in if v AND 0x01 \<noteq> 0 then s else wait_read n s)"

definition kbd_init :: "'a idt_state_scheme \<Rightarrow> 'a idt_state_scheme res" where
  "kbd_init s =
     (let s = outb 0x64 0x20 s;
          s = wait_read 100000 s;
          (ccb, s) = inb 0x60 s;
          ccb = ccb OR 0x01;
          ccb = ccb AND NOT 0x10;
          s = wait_write 100000 s;
          s = outb 0x64 0x60 s;
          s = wait_write 100000 s;
          s = outb 0x60 ccb s
      in register_irq_handler 1 On_irq1 s)"

section \<open>The buffer as a queue\<close>

definition kb_inv :: "key_buffer \<Rightarrow> bool" where
  "kb_inv k \<longleftrightarrow> length (kbuf k) = BUF_SIZE \<and> khead k < BUF_SIZE \<and> ktail k < BUF_SIZE"

definition kb_count :: "key_buffer \<Rightarrow> nat" where
  "kb_count k = (khead k + BUF_SIZE - ktail k) mod BUF_SIZE"

definition pending :: "key_buffer \<Rightarrow> u8 list" where
  "pending k = map (\<lambda>i. kbuf k ! ((ktail k + i) mod BUF_SIZE)) [0..<kb_count k]"

lemma mod_256: "n < 512 \<Longrightarrow> n mod 256 = (if n < 256 then n else n - 256)" for n :: nat
  by (auto simp: le_mod_geq)

lemma kb_count_cases:
  "kb_inv k \<Longrightarrow> kb_count k = (if ktail k \<le> khead k then khead k - ktail k else khead k + 256 - ktail k)"
  by (auto simp: kb_inv_def kb_count_def mod_if)

lemma kb_count_lt: "kb_inv k \<Longrightarrow> kb_count k < 256"
  by (simp add: kb_count_def)

lemma length_pending [simp]: "length (pending k) = kb_count k"
  by (simp add: pending_def)

lemma kb_count_0: "kb_inv k \<Longrightarrow> kb_count k = 0 \<longleftrightarrow> khead k = ktail k"
  by (auto simp: kb_count_cases kb_inv_def)

lemma kb_full_iff: "kb_inv k \<Longrightarrow> (khead k + 1) mod 256 = ktail k \<longleftrightarrow> kb_count k = 255"
  by (auto simp: kb_count_cases kb_inv_def mod_if split: if_splits)

lemma kb_push_ok:
  assumes inv: "kb_inv k"
  obtains k' where "kb_push b k = Inr k'" "kb_inv k'"
    "pending k' = (if length (pending k) < 255 then pending k @ [b] else pending k)"
proof (cases "(khead k + 1) mod 256 = ktail k")
  case True
  then have "kb_push b k = Inr k" "kb_count k = 255"
    using kb_full_iff [OF inv] by (simp_all add: kb_push_def)
  then show ?thesis using that [of k] inv by simp
next
  case False
  let ?k = "k\<lparr>kbuf := (kbuf k)[khead k := b], khead := (khead k + 1) mod BUF_SIZE\<rparr>"
  have push: "kb_push b k = Inr ?k" using inv False by (simp add: kb_push_def kb_inv_def)
  have inv': "kb_inv ?k" using inv by (simp add: kb_inv_def)
  have "kb_count k < 255" using kb_full_iff [OF inv] False kb_count_lt [OF inv] by linarith
  have cnt: "kb_count ?k = Suc (kb_count k)"
    using inv False unfolding kb_count_cases [OF inv] kb_count_cases [OF inv']
    by (auto simp: kb_inv_def mod_if split: if_splits)
  have idx: "(ktail k + i) mod 256 \<noteq> khead k" if "i < kb_count k" for i
  proof -
    have lt: "ktail k + i < 512" using that inv kb_count_lt [OF inv] by (simp add: kb_inv_def)
    show ?thesis
      unfolding mod_256 [OF lt] using that inv kb_count_cases [OF inv]
      by (simp add: kb_inv_def split: if_splits; linarith)
  qed
  have same: "(kbuf k)[khead k := b] ! ((ktail k + i) mod 256) = kbuf k ! ((ktail k + i) mod 256)"
    if "i < kb_count k" for i
    by (rule nth_list_update_neq) (use idx [OF that] in simp)
  have last: "(ktail k + kb_count k) mod 256 = khead k"
    using inv unfolding kb_count_cases [OF inv] by (simp add: kb_inv_def)
  have "pending ?k = pending k @ [b]"
    using same last inv unfolding pending_def cnt by (simp add: kb_inv_def)
  then show ?thesis using that [OF push inv'] \<open>kb_count k < 255\<close> by simp
qed

lemma kb_pop_ok:
  assumes inv: "kb_inv k"
  obtains (empty) "pending k = []" "kb_pop k = Inr (None, k)"
  | (some) b k' where "kb_pop k = Inr (Some b, k')" "kb_inv k'" "pending k = b # pending k'"
proof (cases "khead k = ktail k")
  case True
  then show ?thesis using empty kb_count_0 [OF inv] by (simp add: kb_pop_def pending_def)
next
  case False
  let ?k = "k\<lparr>ktail := (ktail k + 1) mod BUF_SIZE\<rparr>"
  have pop: "kb_pop k = Inr (Some (kbuf k ! ktail k), ?k)" using inv False by (simp add: kb_pop_def kb_inv_def)
  have inv': "kb_inv ?k" using inv by (simp add: kb_inv_def)
  have cnt: "kb_count k = Suc (kb_count ?k)"
    using inv False unfolding kb_count_cases [OF inv] kb_count_cases [OF inv']
    by (auto simp: kb_inv_def mod_if split: if_splits)
  have "pending k = kbuf k ! ktail k # pending ?k"
  proof (rule nth_equalityI)
    fix i assume "i < length (pending k)"
    then show "pending k ! i = (kbuf k ! ktail k # pending ?k) ! i"
      using inv cnt by (cases i) (auto simp: pending_def kb_inv_def mod_Suc_eq mod_add_left_eq
          simp del: upt_Suc)
  qed (simp add: cnt)
  then show ?thesis using some [OF pop inv'] by blast
qed

section \<open>The interface: a bounded byte queue\<close>

text \<open>Reading up to \<open>n\<close> bytes, stopping when the queue is empty.\<close>

fun read_up_to :: "('q \<Rightarrow> (u8 option \<times> 'q) res) \<Rightarrow> nat \<Rightarrow> 'q \<Rightarrow> (u8 list \<times> 'q) res" where
  "read_up_to get 0 q = Inr ([], q)"
| "read_up_to get (Suc n) q =
     andThen (get q) (\<lambda>(r, q).
       case r of
         None \<Rightarrow> Inr ([], q)
       | Some b \<Rightarrow> andThen (read_up_to get n q) (\<lambda>(bs, q). Inr (b # bs, q)))"

fun put_all :: "(u8 \<Rightarrow> 'q \<Rightarrow> 'q res) \<Rightarrow> u8 list \<Rightarrow> 'q \<Rightarrow> 'q res" where
  "put_all put [] q = Inr q"
| "put_all put (b # bs) q = andThen (put b q) (put_all put bs)"

locale byte_queue =
  fixes put :: "u8 \<Rightarrow> 'q \<Rightarrow> 'q res"
    and get :: "'q \<Rightarrow> (u8 option \<times> 'q) res"
    and items :: "'q \<Rightarrow> u8 list"
    and cap :: nat
    and good :: "'q \<Rightarrow> bool"
  assumes put_item: "good q \<Longrightarrow> \<exists>q'. put b q = Inr q' \<and> good q' \<and>
      items q' = (if length (items q) < cap then items q @ [b] else items q)"
    and get_item: "good q \<Longrightarrow> items q = b # bs \<Longrightarrow> \<exists>q'. get q = Inr (Some b, q') \<and> good q' \<and> items q' = bs"
    and get_empty: "good q \<Longrightarrow> items q = [] \<Longrightarrow> get q = Inr (None, q)"
    and bounded: "good q \<Longrightarrow> length (items q) \<le> cap"
begin

text \<open>What is read is a prefix of what is queued; the rest stays, in order.\<close>

lemma read_up_to_eq:
  "good q \<Longrightarrow> \<exists>q'. read_up_to get n q = Inr (take n (items q), q') \<and> good q' \<and> items q' = drop n (items q)"
proof (induction n arbitrary: q)
  case 0
  then show ?case by simp
next
  case (Suc n)
  show ?case
  proof (cases "items q")
    case Nil
    then show ?thesis using Suc.prems get_empty by simp
  next
    case (Cons b bs)
    then obtain q1 where q1: "get q = Inr (Some b, q1)" "good q1" "items q1 = bs"
      using get_item [OF Suc.prems] by blast
    from Suc.IH [OF q1(2)] show ?thesis using q1 Cons by auto
  qed
qed

text \<open>Bytes beyond the capacity are dropped, the newest first.\<close>

lemma put_all_eq:
  "good q \<Longrightarrow> \<exists>q'. put_all put bs q = Inr q' \<and> good q' \<and> items q' = items q @ take (cap - length (items q)) bs"
proof (induction bs arbitrary: q)
  case Nil
  then show ?case by simp
next
  case (Cons b bs)
  then obtain q1 where q1: "put b q = Inr q1" "good q1"
    "items q1 = (if length (items q) < cap then items q @ [b] else items q)"
    using put_item by blast
  from Cons.IH [OF q1(2)] obtain q2 where
    "put_all put bs q1 = Inr q2" "good q2" "items q2 = items q1 @ take (cap - length (items q1)) bs" by blast
  moreover have "items q1 @ take (cap - length (items q1)) bs =
      items q @ take (cap - length (items q)) (b # bs)"
    using q1(3) bounded [OF Cons.prems] by (auto simp: take_Cons' Suc_diff_Suc)
  ultimately show ?case using q1(1) by auto
qed

end

interpretation kb: byte_queue kb_push kb_pop pending 255 kb_inv
proof unfold_locales
  fix k b
  assume "kb_inv k"
  then show "\<exists>k'. kb_push b k = Inr k' \<and> kb_inv k' \<and>
      pending k' = (if length (pending k) < 255 then pending k @ [b] else pending k)"
    by (rule kb_push_ok [where b = b]) blast
next
  fix k b bs
  assume "kb_inv k" "pending k = b # bs"
  then show "\<exists>k'. kb_pop k = Inr (Some b, k') \<and> kb_inv k' \<and> pending k' = bs"
    by (cases rule: kb_pop_ok) auto
next
  fix k
  assume "kb_inv k" "pending k = []"
  then show "kb_pop k = Inr (None, k)" by (cases rule: kb_pop_ok) auto
next
  fix k
  assume "kb_inv k"
  then show "length (pending k) \<le> 255" using kb_count_lt [of k] by simp
qed

text \<open>The same contract for the kernel's one keyboard, as its readers see it.\<close>

definition kbd_put :: "u8 \<Rightarrow> 'a kbd_state_scheme \<Rightarrow> 'a kbd_state_scheme res" where
  "kbd_put b s = andThen (kb_push b (kbuffer (global_keyboard s))) (\<lambda>k.
     Inr (s\<lparr>global_keyboard := (global_keyboard s)\<lparr>kbuffer := k\<rparr>\<rparr>))"

definition kbd_pending :: "'a kbd_state_scheme \<Rightarrow> u8 list" where
  "kbd_pending s = pending (kbuffer (global_keyboard s))"

definition kbd_inv :: "'a kbd_state_scheme \<Rightarrow> bool" where
  "kbd_inv s \<longleftrightarrow> kb_inv (kbuffer (global_keyboard s))"

interpretation kbd: byte_queue kbd_put global_pop kbd_pending 255 kbd_inv
proof unfold_locales
  fix s :: "'a kbd_state_scheme" and b
  assume "kbd_inv s"
  then show "\<exists>s'. kbd_put b s = Inr s' \<and> kbd_inv s' \<and>
      kbd_pending s' = (if length (kbd_pending s) < 255 then kbd_pending s @ [b] else kbd_pending s)"
    using kb.put_item [of "kbuffer (global_keyboard s)" b]
    by (auto simp: kbd_put_def kbd_pending_def kbd_inv_def)
next
  fix s :: "'a kbd_state_scheme" and b bs
  assume "kbd_inv s" "kbd_pending s = b # bs"
  then show "\<exists>s'. global_pop s = Inr (Some b, s') \<and> kbd_inv s' \<and> kbd_pending s' = bs"
    using kb.get_item [of "kbuffer (global_keyboard s)" b bs]
    by (auto simp: global_pop_def kbd_pending_def kbd_inv_def)
next
  fix s :: "'a kbd_state_scheme"
  assume "kbd_inv s" "kbd_pending s = []"
  then show "global_pop s = Inr (None, s)"
    using kb.get_empty [of "kbuffer (global_keyboard s)"]
    by (simp add: global_pop_def kbd_pending_def kbd_inv_def)
next
  fix s :: "'a kbd_state_scheme"
  assume "kbd_inv s"
  then show "length (kbd_pending s) \<le> 255"
    using kb.bounded by (simp add: kbd_pending_def kbd_inv_def)
qed

section \<open>Typed text\<close>

text \<open>What a stream of scancodes types, from the tables alone.\<close>

definition key_char :: "bool \<Rightarrow> u8 \<Rightarrow> u8" where
  "key_char sh sc =
     (if sc < 84 then (if sh then SCANCODE_TABLE_SHIFT else SCANCODE_TABLE) ! unat sc else 0)"

fun typed :: "bool \<Rightarrow> u8 list \<Rightarrow> u8 list" where
  "typed sh [] = []"
| "typed sh (sc # scs) =
     (if sc = 0x2a \<or> sc = 0x36 then typed True scs
      else if sc = 0xAA \<or> sc = 0xB6 then typed False scs
      else if key_char sh sc \<noteq> 0 then key_char sh sc # typed sh scs
      else typed sh scs)"

fun shift_after :: "bool \<Rightarrow> u8 list \<Rightarrow> bool" where
  "shift_after sh [] = sh"
| "shift_after sh (sc # scs) =
     shift_after (if sc = 0x2a \<or> sc = 0x36 then True else if sc = 0xAA \<or> sc = 0xB6 then False else sh) scs"

fun scan_all :: "u8 list \<Rightarrow> keyboard \<Rightarrow> keyboard res" where
  "scan_all [] k = Inr k"
| "scan_all (sc # scs) k = andThen (handle_scancode sc k) (scan_all scs)"

lemma length_tables: "length SCANCODE_TABLE = 84" "length SCANCODE_TABLE_SHIFT = 84"
  by (simp_all add: SCANCODE_TABLE_def SCANCODE_TABLE_SHIFT_def asc_def)

lemma tables_ascii:
  "list_all (\<lambda>b. b < 128) SCANCODE_TABLE" "list_all (\<lambda>b. b < 128) SCANCODE_TABLE_SHIFT"
  by code_simp+

lemma handle_scancode_eq:
  "handle_scancode sc k =
     (if sc = 0x2a \<or> sc = 0x36 then Inr (k\<lparr>shift := True\<rparr>)
      else if sc = 0xAA \<or> sc = 0xB6 then Inr (k\<lparr>shift := False\<rparr>)
      else if key_char (shift k) sc \<noteq> 0
      then andThen (kb_push (key_char (shift k) sc) (kbuffer k)) (\<lambda>b. Inr (k\<lparr>kbuffer := b\<rparr>))
      else Inr k)"
proof -
  have "sc AND 0x80 \<noteq> 0 \<Longrightarrow> \<not> sc < 84"
  proof -
    assume "sc AND 0x80 \<noteq> 0"
    then have "bit sc 7" using and_exp_neq_0 [of sc 7] by simp
    moreover have "bit sc n \<longleftrightarrow> bit (unat sc) n" for n by (simp add: bit_unsigned_iff)
    ultimately have b: "bit (unat sc) 7" by simp
    show "\<not> sc < 84"
    proof
      assume "sc < 84"
      then have "unat sc < 2 ^ 7" by (simp add: word_less_nat_alt)
      then have "take_bit 7 (unat sc) = unat sc" by (simp only: take_bit_nat_eq_self_iff)
      then have "\<not> bit (unat sc) 7" by (metis bit_take_bit_iff less_irrefl)
      then show False using b by contradiction
    qed
  qed
  then show ?thesis
    by (auto simp: handle_scancode_def SC_LSHIFT_DOWN_def SC_RSHIFT_DOWN_def SC_LSHIFT_UP_def
        SC_RSHIFT_UP_def key_char_def length_tables Let_def word_less_nat_alt)
qed

lemma kb_push_dropped: "kb_inv k \<Longrightarrow> length (pending k) = 255 \<Longrightarrow> kb_push b k = Inr k"
  using kb_full_iff [of k] by (simp add: kb_push_def)

lemma scan_all_eq:
  assumes "kb_inv (kbuffer k)"
  shows "\<exists>k'. scan_all scs k = Inr k' \<and> kb_inv (kbuffer k') \<and> shift k' = shift_after (shift k) scs \<and>
    pending (kbuffer k') =
      pending (kbuffer k) @ take (255 - length (pending (kbuffer k))) (typed (shift k) scs)"
  using assms
proof (induction scs arbitrary: k)
  case Nil
  then show ?case by simp
next
  case (Cons sc scs)
  show ?case
  proof (cases "sc = 0x2a \<or> sc = 0x36 \<or> sc = 0xAA \<or> sc = 0xB6 \<or> key_char (shift k) sc = 0")
    case True
    then show ?thesis
      using Cons.IH [of "k\<lparr>shift := True\<rparr>"] Cons.IH [of "k\<lparr>shift := False\<rparr>"] Cons.IH [of k] Cons.prems
      by (auto simp: handle_scancode_eq)
  next
    case False
    let ?c = "key_char (shift k) sc"
    obtain b where b: "kb_push ?c (kbuffer k) = Inr b" "kb_inv b"
      "pending b = (if length (pending (kbuffer k)) < 255 then pending (kbuffer k) @ [?c]
         else pending (kbuffer k))"
      using kb.put_item [OF Cons.prems, of ?c] by blast
    let ?k = "k\<lparr>kbuffer := b\<rparr>"
    have "handle_scancode sc k = Inr ?k" using False b(1) by (simp add: handle_scancode_eq)
    moreover have "pending b @ take (255 - length (pending b)) (typed (shift k) scs) =
        pending (kbuffer k) @ take (255 - length (pending (kbuffer k))) (?c # typed (shift k) scs)"
      using b(3) kb.bounded [OF Cons.prems] by (auto simp: take_Cons' Suc_diff_Suc simp del: length_pending)
    ultimately show ?thesis
      using Cons.IH [of ?k] b(2) False by (auto simp del: length_pending)
  qed
qed

lemma dev_in_outb [simp]: "dev_in (outb p v s) = dev_in s"
  by (simp add: outb_def)

lemma wait_write_log:
  "\<exists>l. wait_write n s = s\<lparr>io_log := io_log s @ l\<rparr> \<and> length l \<le> n \<and> (\<forall>e \<in> set l. \<exists>v. e = In 0x64 v)"
proof (induction n arbitrary: s)
  case 0
  show ?case by (intro exI [of _ "[]"]) simp
next
  case (Suc n)
  let ?v = "dev_in s (io_log s) 0x64"
  obtain l where l: "wait_write n (s\<lparr>io_log := io_log s @ [In 0x64 ?v]\<rparr>) =
      s\<lparr>io_log := (io_log s @ [In 0x64 ?v]) @ l\<rparr>" "length l \<le> n" "\<forall>e \<in> set l. \<exists>v. e = In 0x64 v"
    using Suc.IH [of "s\<lparr>io_log := io_log s @ [In 0x64 ?v]\<rparr>"] by auto
  show ?case
  proof (cases "?v AND 0x02 = 0")
    case True
    then show ?thesis by (intro exI [of _ "[In 0x64 ?v]"]) (simp add: inb_def Let_def)
  next
    case False
    then show ?thesis using l by (intro exI [of _ "In 0x64 ?v # l"]) (simp add: inb_def Let_def)
  qed
qed

lemma wait_read_log:
  "\<exists>l. wait_read n s = s\<lparr>io_log := io_log s @ l\<rparr> \<and> length l \<le> n \<and> (\<forall>e \<in> set l. \<exists>v. e = In 0x64 v)"
proof (induction n arbitrary: s)
  case 0
  show ?case by (intro exI [of _ "[]"]) simp
next
  case (Suc n)
  let ?v = "dev_in s (io_log s) 0x64"
  obtain l where l: "wait_read n (s\<lparr>io_log := io_log s @ [In 0x64 ?v]\<rparr>) =
      s\<lparr>io_log := (io_log s @ [In 0x64 ?v]) @ l\<rparr>" "length l \<le> n" "\<forall>e \<in> set l. \<exists>v. e = In 0x64 v"
    using Suc.IH [of "s\<lparr>io_log := io_log s @ [In 0x64 ?v]\<rparr>"] by auto
  show ?case
  proof (cases "?v AND 0x01 = 0")
    case True
    then show ?thesis using l by (intro exI [of _ "In 0x64 ?v # l"]) (simp add: inb_def Let_def)
  next
    case False
    then show ?thesis by (intro exI [of _ "[In 0x64 ?v]"]) (simp add: inb_def Let_def)
  qed
qed

section \<open>Properties\<close>

text \<open>
  C23: the ring buffer and the scancode decoder never fault, and deliver what was typed in
  order. For every stream of scancodes the handler sees, the buffer afterwards holds what it
  held before, followed by the characters the stream types (shift state included), cut off at
  255 pending bytes; readers then receive exactly that list, first in first out.
\<close>

theorem typed_text_in_order:
  assumes "kb_inv (kbuffer k)"
  shows "\<exists>k'. scan_all scs k = Inr k' \<and> kb_inv (kbuffer k') \<and> shift k' = shift_after (shift k) scs \<and>
    (\<exists>q. read_up_to kb_pop n (kbuffer k') =
      Inr (take n (pending (kbuffer k) @
        take (255 - length (pending (kbuffer k))) (typed (shift k) scs)), q))"
proof -
  obtain k' where k': "scan_all scs k = Inr k'" "kb_inv (kbuffer k')" "shift k' = shift_after (shift k) scs"
    "pending (kbuffer k') =
      pending (kbuffer k) @ take (255 - length (pending (kbuffer k))) (typed (shift k) scs)"
    using scan_all_eq [OF assms] by blast
  with kb.read_up_to_eq [OF k'(2), of n] show ?thesis by (intro exI [of _ k']) auto
qed

lemma keyboard_new_inv: "kb_inv (kbuffer keyboard_new)" "pending (kbuffer keyboard_new) = []"
  by (simp_all add: keyboard_new_def key_buffer_new_def kb_inv_def pending_def kb_count_def)

theorem typed_text_in_order_witness:
  "\<exists>k' q. scan_all [0x23, 0xA3, 0x2a, 0x17, 0x97, 0xAA, 0x1c] keyboard_new = Inr k' \<and>
     read_up_to kb_pop 10 (kbuffer k') = Inr ([104, 73, 10], q)"
proof -
  let ?scs = "[0x23, 0xA3, 0x2a, 0x17, 0x97, 0xAA, 0x1c] :: u8 list"
  have ty: "typed (shift keyboard_new) ?scs = [104, 73, 10]" by code_simp
  obtain k' q where "scan_all ?scs keyboard_new = Inr k'"
    "read_up_to kb_pop 10 (kbuffer k') = Inr (take 10 (pending (kbuffer keyboard_new) @
        take (255 - length (pending (kbuffer keyboard_new))) (typed (shift keyboard_new) ?scs)), q)"
    using typed_text_in_order [OF keyboard_new_inv(1), of ?scs 10] by blast
  then show ?thesis unfolding ty by (intro exI [of _ k'] exI [of _ q]) (simp add: keyboard_new_inv)
qed

text \<open>
  The status values a wait of at most 100000 polls has read: it goes on exactly while the controller is not
  ready, and gives up after the last poll.
\<close>

definition waited :: "(u8 \<Rightarrow> bool) \<Rightarrow> nat \<Rightarrow> u8 list \<Rightarrow> bool" where
  "waited ready n vs \<longleftrightarrow> length vs \<le> n \<and> (\<forall>v \<in> set (butlast vs). \<not> ready v) \<and>
     (length vs < n \<longrightarrow> vs \<noteq> [] \<and> ready (last vs))"

lemma waited_ready: "ready v \<Longrightarrow> waited ready (Suc n) [v]"
  by (simp add: waited_def)

lemma waited_again: "\<not> ready v \<Longrightarrow> waited ready n vs \<Longrightarrow> waited ready (Suc n) (v # vs)"
  by (auto simp: waited_def)

lemma status_bits: "v AND 0x01 \<noteq> 0 \<longleftrightarrow> bit v 0" "v AND 0x02 = 0 \<longleftrightarrow> \<not> bit v 1" for v :: u8
  using and_exp_neq_0 [of v 0] and_exp_neq_0 [of v 1] by auto

lemma wait_read_polls:
  "\<exists>vs. wait_read n s = s\<lparr>io_log := io_log s @ map (In 0x64) vs\<rparr> \<and> waited (\<lambda>v. bit v 0) n vs"
proof (induction n arbitrary: s)
  case 0
  show ?case by (intro exI [of _ "[]"]) (simp add: waited_def)
next
  case (Suc n)
  let ?v = "dev_in s (io_log s) 0x64"
  let ?s = "s\<lparr>io_log := io_log s @ [In 0x64 ?v]\<rparr>"
  have unf: "wait_read (Suc n) s = (if bit ?v 0 then ?s else wait_read n ?s)"
    by (simp add: inb_def Let_def status_bits(1) [symmetric])
  obtain vs where vs: "wait_read n ?s = ?s\<lparr>io_log := io_log ?s @ map (In 0x64) vs\<rparr>" "waited (\<lambda>v. bit v 0) n vs"
    using Suc.IH by blast
  show ?case
  proof (cases "bit ?v 0")
    case True
    then show ?thesis unfolding unf using waited_ready [of "\<lambda>v. bit v 0"] by (intro exI [of _ "[?v]"]) simp
  next
    case False
    then show ?thesis unfolding unf using vs waited_again [of "\<lambda>v. bit v 0"] by (intro exI [of _ "?v # vs"]) simp
  qed
qed

lemma wait_write_polls:
  "\<exists>vs. wait_write n s = s\<lparr>io_log := io_log s @ map (In 0x64) vs\<rparr> \<and> waited (\<lambda>v. \<not> bit v 1) n vs"
proof (induction n arbitrary: s)
  case 0
  show ?case by (intro exI [of _ "[]"]) (simp add: waited_def)
next
  case (Suc n)
  let ?v = "dev_in s (io_log s) 0x64"
  let ?s = "s\<lparr>io_log := io_log s @ [In 0x64 ?v]\<rparr>"
  have unf: "wait_write (Suc n) s = (if \<not> bit ?v 1 then ?s else wait_write n ?s)"
    unfolding status_bits(2) [symmetric] by (simp add: inb_def Let_def)
  obtain vs where vs: "wait_write n ?s = ?s\<lparr>io_log := io_log ?s @ map (In 0x64) vs\<rparr>" "waited (\<lambda>v. \<not> bit v 1) n vs"
    using Suc.IH by blast
  show ?case
  proof (cases "bit ?v 1")
    case False
    then show ?thesis unfolding unf using waited_ready [of "\<lambda>v. \<not> bit v 1"] by (intro exI [of _ "[?v]"]) simp
  next
    case True
    then show ?thesis unfolding unf using vs waited_again [of "\<lambda>v. \<not> bit v 1"] by (intro exI [of _ "?v # vs"]) simp
  qed
qed

text \<open>
  C39: the initialisation of the keyboard controller, access by access. It asks for the configuration byte
  (command 0x20), polls the status until a byte is there to read (bit 0), reads it from the data port, waits until
  the controller takes input (bit 1 clear), announces the new byte (command 0x60), waits again and writes the byte
  back with the interrupt enabled (bit 0) and the clock-disable bit 4 cleared, all other bits as they were read. Each wait
  ends with the first poll that finds the controller ready and gives up after 100000, so the call always returns,
  after at most 300004 port accesses, whether or not the controller ever answers. Then IRQ 1 is registered, and nothing else has changed.
\<close>

theorem kbd_init_bounded:
  assumes "length (irq_handles s) = 16"
  shows "\<exists>vs1 ccb vs2 vs3 l. l = [Out 0x64 0x20] @ map (In 0x64) vs1 @ [In 0x60 ccb] @ map (In 0x64) vs2 @
      [Out 0x64 0x60] @ map (In 0x64) vs3 @ [Out 0x60 ((ccb OR 1) AND NOT 0x10)] \<and>
    waited (\<lambda>v. bit v 0) 100000 vs1 \<and> waited (\<lambda>v. \<not> bit v 1) 100000 vs2 \<and> waited (\<lambda>v. \<not> bit v 1) 100000 vs3 \<and>
    ccb = dev_in s (io_log s @ [Out 0x64 0x20] @ map (In 0x64) vs1) 0x60 \<and> length l \<le> 300004 \<and>
    kbd_init s = Inr (s\<lparr>io_log := io_log s @ l, irq_handles := (irq_handles s)[1 := Some On_irq1]\<rparr>) \<and>
    (irq_handles s)[1 := Some On_irq1] ! 1 = Some On_irq1"
proof -
  let ?s1 = "outb 0x64 0x20 s"
  obtain vs1 where 1: "wait_read 100000 ?s1 = ?s1\<lparr>io_log := io_log ?s1 @ map (In 0x64) vs1\<rparr>"
    "waited (\<lambda>v. bit v 0) 100000 vs1"
    using wait_read_polls by blast
  let ?s2 = "?s1\<lparr>io_log := io_log ?s1 @ map (In 0x64) vs1\<rparr>"
  let ?ccb = "dev_in s (io_log ?s2) 0x60"
  let ?s3 = "?s2\<lparr>io_log := io_log ?s2 @ [In 0x60 ?ccb]\<rparr>"
  obtain vs2 where 2: "wait_write 100000 ?s3 = ?s3\<lparr>io_log := io_log ?s3 @ map (In 0x64) vs2\<rparr>"
    "waited (\<lambda>v. \<not> bit v 1) 100000 vs2"
    using wait_write_polls by blast
  let ?s4 = "outb 0x64 0x60 (?s3\<lparr>io_log := io_log ?s3 @ map (In 0x64) vs2\<rparr>)"
  obtain vs3 where 3: "wait_write 100000 ?s4 = ?s4\<lparr>io_log := io_log ?s4 @ map (In 0x64) vs3\<rparr>"
    "waited (\<lambda>v. \<not> bit v 1) 100000 vs3"
    using wait_write_polls by blast
  let ?l = "[Out 0x64 0x20] @ map (In 0x64) vs1 @ [In 0x60 ?ccb] @ map (In 0x64) vs2 @
      [Out 0x64 0x60] @ map (In 0x64) vs3 @ [Out 0x60 ((?ccb OR 1) AND NOT 0x10)]"
  have "kbd_init s = Inr (s\<lparr>io_log := io_log s @ ?l, irq_handles := (irq_handles s)[1 := Some On_irq1]\<rparr>)"
    using 1(1) 2(1) 3(1) by (simp add: kbd_init_def Let_def inb_def outb_def register_irq_handler_def)
  moreover have "length ?l \<le> 300004"
    using 1(2) 2(2) 3(2) by (simp add: waited_def)
  moreover have "?ccb = dev_in s (io_log s @ [Out 0x64 0x20] @ map (In 0x64) vs1) 0x60" by (simp add: outb_def)
  ultimately show ?thesis using 1(2) 2(2) 3(2) assms
    by (intro exI [of _ vs1] exI [of _ ?ccb] exI [of _ vs2] exI [of _ vs3] exI [of _ ?l] conjI) simp_all
qed

theorem kbd_init_bounded_witness:
  "\<exists>s s' :: idt_state. length (irq_handles s) = 16 \<and> kbd_init s = Inr s' \<and>
     irq_handles s' ! 1 = Some On_irq1 \<and> (\<exists>l ccb. io_log s' = io_log s @ Out 0x64 0x20 # l @ [Out 0x60 ((ccb OR 1) AND NOT 0x10)])"
proof -
  obtain s :: idt_state where s: "length (irq_handles s) = 16"
  proof -
    have "length (irq_handles (undefined\<lparr>irq_handles := replicate 16 None\<rparr> :: idt_state)) = 16" by simp
    then show ?thesis by (rule that)
  qed
  from kbd_init_bounded [OF s] obtain vs1 ccb vs2 vs3 l where
    l: "l = [Out 0x64 0x20] @ map (In 0x64) vs1 @ [In 0x60 ccb] @ map (In 0x64) vs2 @
      [Out 0x64 0x60] @ map (In 0x64) vs3 @ [Out 0x60 ((ccb OR 1) AND NOT 0x10)]"
    and k: "kbd_init s = Inr (s\<lparr>io_log := io_log s @ l, irq_handles := (irq_handles s)[1 := Some On_irq1]\<rparr>)"
    by blast
  have e: "l = Out 0x64 0x20 # (map (In 0x64) vs1 @ [In 0x60 ccb] @ map (In 0x64) vs2 @
      [Out 0x64 0x60] @ map (In 0x64) vs3) @ [Out 0x60 ((ccb OR 1) AND NOT 0x10)]" using l by simp
  show ?thesis
    by (intro exI [of _ s] exI [of _ "s\<lparr>io_log := io_log s @ l, irq_handles := (irq_handles s)[1 := Some On_irq1]\<rparr>"] conjI s k)
      (use s e in auto)
qed

end
