(* ===== verification/Spinlock.thy ===== *)
theory Spinlock
  imports Prelude
begin

text \<open>
  The spinlock (\<open>multitask/spinlock.rs\<close>) as a step relation: any number of processors run
  \<open>acquire\<close>, their critical section and the guard's \<open>drop\<close>, interleaved at the granularity of
  the atomic operations. The compare-exchange is the weak one, so it may fail spuriously; a
  processor's RFLAGS are its own.

  \<open>phase\<close> is where a processor is in the code: outside; spinning with the flags that
  \<open>save_and_cli\<close> saved; in the critical section; between the store and \<open>restore_flags\<close>.
\<close>

section \<open>Flags\<close>

text \<open>Bit 9 of RFLAGS enables interrupts.\<close>

definition IF_bit :: nat where "IF_bit = 9"

definition cli :: "u64 \<Rightarrow> u64" where
  "cli f = f AND NOT (push_bit IF_bit 1)"

definition sti :: "u64 \<Rightarrow> u64" where
  "sti f = f OR push_bit IF_bit 1"

definition interrupts_on :: "u64 \<Rightarrow> bool" where
  "interrupts_on f = bit f IF_bit"

text \<open>\<open>save_and_cli\<close>: what is pushed, and the flags afterwards; \<open>restore_flags\<close> pops them.\<close>

definition save_and_cli :: "u64 \<Rightarrow> u64 \<times> u64" where
  "save_and_cli f = (f, cli f)"

definition restore_flags :: "u64 \<Rightarrow> u64 \<Rightarrow> u64" where
  "restore_flags saved f = saved"

lemma interrupts_simps [simp]: "\<not> interrupts_on (cli f)" "interrupts_on (sti f)"
  unfolding interrupts_on_def cli_def sti_def IF_bit_def
  by (simp_all only: bit_simps) simp_all

lemma cli_idem [simp]: "cli (cli f) = cli f"
  by (rule bit_word_eqI) (auto simp: cli_def bit_simps)

section \<open>The step relation\<close>

datatype phase = Outside | Spinning u64 | Critical u64 | Unlocked u64

record lock_state =
  locked :: bool
  phase :: "nat \<Rightarrow> phase"
  cpu_flags :: "nat \<Rightarrow> u64"

definition new_lock :: "(nat \<Rightarrow> u64) \<Rightarrow> lock_state" where
  "new_lock fs = \<lparr>locked = False, phase = (\<lambda>i. Outside), cpu_flags = fs\<rparr>"

definition enter :: "nat \<Rightarrow> lock_state \<Rightarrow> lock_state" where
  "enter i s = (case save_and_cli (cpu_flags s i) of (saved, f) \<Rightarrow>
     s\<lparr>phase := (phase s)(i := Spinning saved), cpu_flags := (cpu_flags s)(i := f)\<rparr>)"

text \<open>\<open>compare_exchange_weak(false, true)\<close>; \<open>spurious\<close> is the hardware's choice to fail.\<close>

definition compare_exchange :: "bool \<Rightarrow> lock_state \<Rightarrow> bool \<times> lock_state" where
  "compare_exchange spurious s =
     (if locked s \<or> spurious then (False, s) else (True, s\<lparr>locked := True\<rparr>))"

definition force_release :: "lock_state \<Rightarrow> lock_state" where
  "force_release s = s\<lparr>locked := False\<rparr>"

inductive lock_step :: "lock_state \<Rightarrow> lock_state \<Rightarrow> bool" where
  enter: "phase s i = Outside \<Longrightarrow> lock_step s (enter i s)"
| won: "phase s i = Spinning f \<Longrightarrow> compare_exchange spurious s = (True, s') \<Longrightarrow>
    lock_step s (s'\<lparr>phase := (phase s)(i := Critical f)\<rparr>)"
| lost: "phase s i = Spinning f \<Longrightarrow> compare_exchange spurious s = (False, s') \<Longrightarrow> lock_step s s'"
| unlock: "phase s i = Critical f \<Longrightarrow>
    lock_step s (s\<lparr>locked := False, phase := (phase s)(i := Unlocked f)\<rparr>)"
| restore: "phase s i = Unlocked f \<Longrightarrow>
    lock_step s (s\<lparr>phase := (phase s)(i := Outside),
      cpu_flags := (cpu_flags s)(i := restore_flags f (cpu_flags s i))\<rparr>)"
| elsewhere: "phase s i = Outside \<Longrightarrow> lock_step s (s\<lparr>cpu_flags := (cpu_flags s)(i := f)\<rparr>)"

inductive lock_reachable :: "(nat \<Rightarrow> u64) \<Rightarrow> lock_state \<Rightarrow> bool" for fs where
  init: "lock_reachable fs (new_lock fs)"
| step: "lock_reachable fs s \<Longrightarrow> lock_step s s' \<Longrightarrow> lock_reachable fs s'"

inductive_cases lock_stepE: "lock_step s s'"

definition crit :: "lock_state \<Rightarrow> nat set" where
  "crit s = {i. \<exists>f. phase s i = Critical f}"

definition lock_inv :: "lock_state \<Rightarrow> bool" where
  "lock_inv s \<longleftrightarrow> (locked s \<longleftrightarrow> crit s \<noteq> {}) \<and> (\<forall>i \<in> crit s. \<forall>j \<in> crit s. i = j) \<and>
     (\<forall>i f. phase s i = Spinning f \<or> phase s i = Critical f \<or> phase s i = Unlocked f \<longrightarrow>
        cpu_flags s i = cli f)"

lemma crit_simps [simp]:
  "crit (s\<lparr>phase := (phase s)(i := Outside)\<rparr>) = crit s - {i}"
  "crit (s\<lparr>phase := (phase s)(i := Spinning f)\<rparr>) = crit s - {i}"
  "crit (s\<lparr>phase := (phase s)(i := Unlocked f)\<rparr>) = crit s - {i}"
  "crit (s\<lparr>phase := (phase s)(i := Critical f)\<rparr>) = insert i (crit s)"
  "crit (s\<lparr>locked := b\<rparr>) = crit s" "crit (s\<lparr>cpu_flags := fs\<rparr>) = crit s"
  by (auto simp: crit_def split: if_splits)

lemma crit_updates [simp]:
  "crit (s\<lparr>locked := b, phase := ph\<rparr>) = crit (s\<lparr>phase := ph\<rparr>)"
  "crit (s\<lparr>phase := ph, cpu_flags := fs\<rparr>) = crit (s\<lparr>phase := ph\<rparr>)"
  by (simp_all add: crit_def)

lemma crit_not [simp]:
  "phase s i = Outside \<Longrightarrow> i \<notin> crit s" "phase s i = Spinning f \<Longrightarrow> i \<notin> crit s"
  "phase s i = Unlocked f \<Longrightarrow> i \<notin> crit s" "phase s i = Critical f \<Longrightarrow> i \<in> crit s"
  by (simp_all add: crit_def)

lemma compare_exchange_cases:
  "compare_exchange sp s = (b, s') \<Longrightarrow>
     (b \<and> \<not> locked s \<and> s' = s\<lparr>locked := True\<rparr>) \<or> (\<not> b \<and> s' = s \<and> (locked s \<or> sp))"
  by (auto simp: compare_exchange_def split: if_splits)

lemma lock_step_inv: "lock_step s s' \<Longrightarrow> lock_inv s \<Longrightarrow> lock_inv s'"
proof (induction rule: lock_step.induct)
  case (enter s i)
  then show ?case by (simp add: lock_inv_def enter_def save_and_cli_def)
next
  case (won s i f spurious s')
  then have "\<not> locked s" "s' = s\<lparr>locked := True\<rparr>" using compare_exchange_cases by blast+
  with won show ?case by (simp add: lock_inv_def)
next
  case (lost s i f spurious s')
  then have "s' = s" using compare_exchange_cases by blast
  with lost show ?case by simp
next
  case (unlock s i f)
  then have "crit s = {i}" using crit_not(4) [of s i f] unfolding lock_inv_def by blast
  with unlock show ?case by (simp add: lock_inv_def)
next
  case (restore s i f)
  then show ?case by (simp add: lock_inv_def)
next
  case (elsewhere s i f)
  then show ?case by (simp add: lock_inv_def)
qed

lemma lock_reachable_inv: "lock_reachable fs s \<Longrightarrow> lock_inv s"
proof (induction rule: lock_reachable.induct)
  case init
  then show ?case by (simp add: lock_inv_def new_lock_def crit_def)
next
  case (step s s')
  then show ?case using lock_step_inv by blast
qed

section \<open>Properties\<close>

text \<open>
  Processor \<open>i\<close> has called \<open>acquire\<close> in state \<open>s0\<close> and, in \<open>s\<close>, has not yet returned from the guard's
  \<open>drop\<close>; the other processors do what they like in between.
\<close>

inductive acquiring :: "nat \<Rightarrow> lock_state \<Rightarrow> lock_state \<Rightarrow> bool" for i s0 where
  called: "phase s0 i = Outside \<Longrightarrow> acquiring i s0 (enter i s0)"
| goes_on: "acquiring i s0 s \<Longrightarrow> lock_step s s' \<Longrightarrow> phase s' i \<noteq> Outside \<Longrightarrow> acquiring i s0 s'"

definition saved_flags :: "phase \<Rightarrow> u64 option" where
  "saved_flags ph = (case ph of Outside \<Rightarrow> None | Spinning f \<Rightarrow> Some f | Critical f \<Rightarrow> Some f | Unlocked f \<Rightarrow> Some f)"

lemma step_saved:
  assumes "lock_step s s'" "saved_flags (phase s i) = Some f"
  shows "if phase s' i = Outside then cpu_flags s' i = f else saved_flags (phase s' i) = Some f"
  using assms
proof (induction rule: lock_step.induct)
  case (won s j g spurious s')
  then have "s' = s\<lparr>locked := True\<rparr>" using compare_exchange_cases by blast
  with won show ?case by (auto simp: saved_flags_def split: phase.splits)
next
  case (lost s j g spurious s')
  then have "s' = s" using compare_exchange_cases by blast
  with lost show ?case by (auto simp: saved_flags_def split: phase.splits)
qed (auto simp: saved_flags_def enter_def save_and_cli_def restore_flags_def split: phase.splits)

lemma acquiring_saved: "acquiring i s0 s \<Longrightarrow> saved_flags (phase s i) = Some (cpu_flags s0 i)"
proof (induction rule: acquiring.induct)
  case called
  then show ?case by (simp add: enter_def save_and_cli_def saved_flags_def)
next
  case (goes_on s s')
  then show ?case using step_saved [of s s' i "cpu_flags s0 i"] by simp
qed

text \<open>
  C21: mutual exclusion, with interrupts off. In every interleaving of any number of processors,
  at most one is in its critical section, and the lock word is set while one is and clear while none is; a
  processor that spins, holds the lock or has not yet restored its flags runs with interrupts disabled, so it
  cannot be interrupted into waiting for itself; and whatever happened since its call of \<open>acquire\<close>, the step that
  takes it out again leaves it with the very flags it had at that call.
\<close>

theorem spinlock_mutual_exclusion:
  assumes "lock_reachable fs s"
  shows "(\<forall>i j f g. phase s i = Critical f \<and> phase s j = Critical g \<longrightarrow> i = j) \<and>
    (locked s \<longleftrightarrow> (\<exists>i f. phase s i = Critical f)) \<and>
    (\<forall>i. phase s i \<noteq> Outside \<longrightarrow> \<not> interrupts_on (cpu_flags s i)) \<and>
    (\<forall>i s0 s'. acquiring i s0 s \<and> lock_step s s' \<and> phase s' i = Outside \<longrightarrow> cpu_flags s' i = cpu_flags s0 i)"
proof -
  note inv = lock_reachable_inv [OF assms, unfolded lock_inv_def]
  have "i = j" if "phase s i = Critical f" "phase s j = Critical g" for i j f g
    using inv crit_not(4) [OF that(1)] crit_not(4) [OF that(2)] by blast
  moreover have "locked s \<longleftrightarrow> (\<exists>i f. phase s i = Critical f)" using inv by (auto simp: crit_def)
  moreover have "\<not> interrupts_on (cpu_flags s i)" if "phase s i \<noteq> Outside" for i
  proof -
    have "\<forall>f. phase s i = Spinning f \<or> phase s i = Critical f \<or> phase s i = Unlocked f \<longrightarrow> cpu_flags s i = cli f"
      using inv by blast
    with that have "\<exists>f. cpu_flags s i = cli f" by (cases "phase s i") auto
    then show ?thesis by auto
  qed
  moreover have "cpu_flags s' i = cpu_flags s0 i"
    if "acquiring i s0 s" "lock_step s s'" "phase s' i = Outside" for i s0 s'
    using step_saved [OF that(2) acquiring_saved [OF that(1)]] that(3) by simp
  ultimately show ?thesis by blast
qed

theorem spinlock_mutual_exclusion_witness:
  "\<exists>s s'. lock_reachable (\<lambda>i. 0x202) s \<and> phase s 0 = Unlocked 0x202 \<and> phase s 1 = Spinning 0x202 \<and>
     \<not> locked s \<and> \<not> interrupts_on (cpu_flags s 1) \<and> lock_step s s' \<and> cpu_flags s' 0 = 0x202"
proof -
  let ?s0 = "new_lock (\<lambda>i. 0x202)"
  let ?s1 = "enter 0 ?s0"
  let ?s2 = "enter 1 ?s1"
  let ?s3 = "?s2\<lparr>locked := True, phase := (phase ?s2)(0 := Critical 0x202)\<rparr>"
  let ?s4 = "?s3\<lparr>locked := False, phase := (phase ?s3)(0 := Unlocked 0x202)\<rparr>"
  let ?s5 = "?s4\<lparr>phase := (phase ?s4)(0 := Outside), cpu_flags := (cpu_flags ?s4)(0 := restore_flags 0x202 (cpu_flags ?s4 0))\<rparr>"
  have 1: "lock_step ?s0 ?s1" by (rule lock_step.enter) (simp add: new_lock_def)
  have 2: "lock_step ?s1 ?s2" by (rule lock_step.enter) (simp add: new_lock_def enter_def save_and_cli_def)
  have "compare_exchange False ?s2 = (True, ?s2\<lparr>locked := True\<rparr>)"
    by (simp add: compare_exchange_def new_lock_def enter_def save_and_cli_def)
  from lock_step.won [OF _ this, of 0 "0x202"] have 3: "lock_step ?s2 ?s3"
    by (simp add: new_lock_def enter_def save_and_cli_def)
  have 4: "lock_step ?s3 ?s4" by (rule lock_step.unlock) simp
  have 5: "lock_step ?s4 ?s5" by (rule lock_step.restore) simp
  have r: "lock_reachable (\<lambda>i. 0x202) ?s4"
    by (rule lock_reachable.step [OF lock_reachable.step [OF lock_reachable.step [OF lock_reachable.step [OF
      lock_reachable.init 1] 2] 3] 4])
  have "acquiring 0 ?s0 ?s1" by (rule acquiring.called) (simp add: new_lock_def)
  from acquiring.goes_on [OF this 2] have "acquiring 0 ?s0 ?s2" by (simp add: enter_def save_and_cli_def)
  from acquiring.goes_on [OF this 3] have "acquiring 0 ?s0 ?s3" by simp
  from acquiring.goes_on [OF this 4] have a: "acquiring 0 ?s0 ?s4" by simp
  have out: "phase ?s5 0 = Outside" "phase ?s4 1 = Spinning 0x202" "phase ?s4 0 = Unlocked 0x202" "\<not> locked ?s4"
    by (simp_all add: new_lock_def enter_def save_and_cli_def)
  note me = spinlock_mutual_exclusion [OF r]
  have "cpu_flags ?s5 0 = cpu_flags ?s0 0" using me a 5 out(1) by blast
  then have "cpu_flags ?s5 0 = 0x202" by (simp add: new_lock_def)
  moreover have "phase ?s4 1 \<noteq> Outside" by (simp only: out(2) phase.distinct simp_thms)
  then have "\<not> interrupts_on (cpu_flags ?s4 1)" using me by blast
  ultimately show ?thesis using r 5 out(2-4)
    by - (rule exI [of _ ?s4], rule exI [of _ ?s5], intro conjI; assumption)
qed

text \<open>
  C22: the lock never gets stuck. In every reachable state in which some processor wants the
  lock, some processor can take a step that makes progress: the holder can always release it
  (whatever the others do), and when nobody holds it every spinning processor's next
  compare-exchange may succeed.
\<close>

theorem spinlock_progress:
  assumes "lock_reachable fs s" "phase s i = Spinning f"
  shows "(\<exists>j g. phase s j = Critical g \<and>
      lock_step s (s\<lparr>locked := False, phase := (phase s)(j := Unlocked g)\<rparr>)) \<or>
    lock_step s (s\<lparr>locked := True, phase := (phase s)(i := Critical f)\<rparr>)"
proof (cases "locked s")
  case True
  then obtain j g where "phase s j = Critical g"
    using lock_reachable_inv [OF assms(1)] by (auto simp: lock_inv_def crit_def)
  then show ?thesis using lock_step.unlock by blast
next
  case False
  then have "compare_exchange False s = (True, s\<lparr>locked := True\<rparr>)" by (simp add: compare_exchange_def)
  from lock_step.won [OF assms(2) this] show ?thesis by simp
qed

theorem spinlock_progress_witness:
  "\<exists>s. lock_reachable (\<lambda>i. 0x202) s \<and> phase s 3 = Spinning 0x202 \<and>
     lock_step s (s\<lparr>locked := True, phase := (phase s)(3 := Critical 0x202)\<rparr>)"
proof -
  let ?s = "enter 3 (new_lock (\<lambda>i. 0x202))"
  have r: "lock_reachable (\<lambda>i. 0x202) ?s"
    by (rule lock_reachable.step [OF lock_reachable.init], rule lock_step.enter) (simp add: new_lock_def)
  have p: "phase ?s j = (if j = 3 then Spinning 0x202 else Outside)" for j
    by (simp add: new_lock_def enter_def save_and_cli_def)
  from spinlock_progress [OF r, of 3 "0x202"] r p show ?thesis
    by (intro exI [of _ ?s]) (auto split: if_splits)
qed

end
