(* ===== verification/Task.thy ===== *)
theory Task
  imports Keyboard Spinlock
begin

text \<open>
  The task table (\<open>multitask/task.rs\<close>): thirty-two slots, their states, creation with a stack from
  the frame allocator, blocking, waking, termination and lookup. The table is a list; an index
  outside it is \<open>OutOfBounds\<close>. Messages go through the serial driver, so each operation's result
  carries the bus history; \<open>prints\<close> is the class of computations that do nothing else.
\<close>

section \<open>State\<close>

definition MAX_TASKS :: nat where [simp]: "MAX_TASKS = 32"
definition STACK_PAGES :: nat where "STACK_PAGES = 2"
definition STACK_SIZE :: nat where "STACK_SIZE = STACK_PAGES * PAGE_SIZE"
definition INITIAL_RFLAGS :: u64 where "INITIAL_RFLAGS = 0x202"

datatype tstate = Empty | Created | Ready | Running | Blocked | Terminated

record task =
  t_rsp :: nat
  tstate :: tstate
  pid :: u32
  tname :: "u8 list"
  stack_base :: nat
  stack_top :: nat
  ticks_run :: u64
  sleep_until :: u64
  wait_for_pid :: "u32 option"
  exit_code :: u32

definition task_empty :: task where
  "task_empty = \<lparr>t_rsp = 0, tstate = Empty, pid = 0, tname = replicate 16 0, stack_base = 0,
     stack_top = 0, ticks_run = 0, sleep_until = 0, wait_for_pid = None, exit_code = 0\<rparr>"

record task_state = kbd_state +
  tasks :: "task list"
  task_lock :: bool
  next_pid :: u32
  current :: nat
  rflags_reg :: u64

definition initial_tasks :: "task list" where
  "initial_tasks = replicate MAX_TASKS task_empty"

section \<open>Operations\<close>

definition get_task :: "nat \<Rightarrow> 'a task_state_scheme \<Rightarrow> task res" where
  "get_task i s = (if i < length (tasks s) then Inr (tasks s ! i) else Inl OutOfBounds)"

definition set_task :: "nat \<Rightarrow> task \<Rightarrow> 'a task_state_scheme \<Rightarrow> 'a task_state_scheme" where
  "set_task i t s = s\<lparr>tasks := (tasks s)[i := t]\<rparr>"

definition current_task :: "'a task_state_scheme \<Rightarrow> task res" where
  "current_task s = get_task (current s) s"

definition current_pid :: "'a task_state_scheme \<Rightarrow> u32 res" where
  "current_pid s = andThen (current_task s) (\<lambda>t. Inr (pid t))"

definition alloc_pid :: "profile \<Rightarrow> 'a task_state_scheme \<Rightarrow> (u32 \<times> 'a task_state_scheme) res" where
  "alloc_pid pr s =
     (if pr = Dev \<and> next_pid s = -1 then Inl Overflow
      else Inr (next_pid s, s\<lparr>next_pid := next_pid s + 1\<rparr>))"

text \<open>\<open>for i in 0..MAX_TASKS\<close>: the list holds the indices left.\<close>

fun alloc_slot_loop :: "nat list \<Rightarrow> 'a task_state_scheme \<Rightarrow> nat option res" where
  "alloc_slot_loop [] s = Inr None"
| "alloc_slot_loop (i # is) s =
     andThen (get_task i s) (\<lambda>t. if tstate t = Empty then Inr (Some i) else alloc_slot_loop is s)"

definition alloc_slot :: "'a task_state_scheme \<Rightarrow> nat option res" where
  "alloc_slot s = alloc_slot_loop [0..<MAX_TASKS] s"

definition FRAME_WORDS :: nat where "FRAME_WORDS = 7"

text \<open>\<open>frame.add(i).write(v)\<close> on a \<open>*mut usize\<close>.\<close>

definition write_word :: "nat \<Rightarrow> nat \<Rightarrow> u64 \<Rightarrow> 'a vmm_state_scheme \<Rightarrow> 'a vmm_state_scheme" where
  "write_word frame i v s = s\<lparr>cells := (cells s)(frame + 8 * i := v)\<rparr>"

definition setup_initial_stack ::
    "profile \<Rightarrow> nat \<Rightarrow> u64 \<Rightarrow> 'a vmm_state_scheme \<Rightarrow> (nat \<times> 'a vmm_state_scheme) res" where
  "setup_initial_stack pr stk_top entry s =
     andThen (usub pr stk_top (FRAME_WORDS * 8)) (\<lambda>frame_start.
       Inr (frame_start,
         write_word frame_start 6 entry (write_word frame_start 5 0 (write_word frame_start 4 0
          (write_word frame_start 3 0 (write_word frame_start 2 0 (write_word frame_start 1 0
           (write_word frame_start 0 0 s))))))))"

text \<open>\<open>alloc_page().or_else(|| { free_page(phys0); None })\<close>.\<close>

definition alloc_second ::
    "profile \<Rightarrow> nat \<Rightarrow> 'a pmm_state_scheme \<Rightarrow> (nat option \<times> 'a pmm_state_scheme) res" where
  "alloc_second pr phys0 s =
     andThen (alloc_page pr s) (\<lambda>(r, s).
       case r of
         Some p \<Rightarrow> Inr (Some p, s)
       | None \<Rightarrow> andThen (free_page pr phys0 s) (\<lambda>s. Inr (None, s)))"

definition copy_name :: "u8 list \<Rightarrow> u8 list \<Rightarrow> u8 list" where
  "copy_name nm old = (let copy_len = min (length nm) 15 in
     (take copy_len nm @ drop copy_len old)[copy_len := 0])"

fun print_chars :: "u8 list \<Rightarrow> 'a machine_scheme \<Rightarrow> 'a machine_scheme res" where
  "print_chars [] s = Inr s"
| "print_chars (b # bs) s = andThen (serial_putc b s) (print_chars bs)"

definition print_created ::
    "profile \<Rightarrow> u8 list \<Rightarrow> u32 \<Rightarrow> nat \<Rightarrow> 'a machine_scheme \<Rightarrow> 'a machine_scheme res" where
  "print_created pr nm p slot s =
     andThen (serial_print (''[task] created '' @ [CHR 0x27]) s) (\<lambda>s.
     andThen (print_chars nm s) (\<lambda>s.
     andThen (serial_print (CHR 0x27 # '' pid='') s) (\<lambda>s.
     andThen (serial_print_usize pr (unat p) s) (\<lambda>s.
     andThen (serial_print '' slot='' s) (\<lambda>s.
     andThen (serial_print_usize pr slot s) (serial_print ''\<newline>''))))))"

definition new_kernel_task ::
    "profile \<Rightarrow> u8 list \<Rightarrow> u64 \<Rightarrow> 'a task_state_scheme \<Rightarrow> (u32 option \<times> 'a task_state_scheme) res" where
  "new_kernel_task pr nm entry s =
     andThen (alloc_slot s) (\<lambda>r. case r of None \<Rightarrow> Inr (None, s) | Some slot \<Rightarrow>
     andThen (alloc_page pr s) (\<lambda>(r, s). case r of None \<Rightarrow> Inr (None, s) | Some phys0 \<Rightarrow>
     andThen (alloc_second pr phys0 s) (\<lambda>(r, s). case r of None \<Rightarrow> Inr (None, s) | Some phys1 \<Rightarrow>
     let hhdm = hhdm_offset s in
     andThen (uadd pr phys0 hhdm) (\<lambda>_.
     andThen (uadd pr phys1 PAGE_SIZE) (\<lambda>x. andThen (uadd pr x hhdm) (\<lambda>stack_virt_top.
     andThen (alloc_pid pr s) (\<lambda>(p, s).
     andThen (setup_initial_stack pr stack_virt_top entry s) (\<lambda>(rsp, s).
     andThen (get_task slot s) (\<lambda>t.
     let t = t\<lparr>t_rsp := rsp, pid := p, tstate := Ready, stack_base := phys0,
               stack_top := stack_virt_top, ticks_run := 0, sleep_until := 0,
               wait_for_pid := None, exit_code := 0, tname := copy_name nm (tname t)\<rparr>;
         s = set_task slot t s in
     andThen (print_created pr (take (min (length nm) 15) (tname t)) p slot s) (\<lambda>s.
       Inr (Some p, s)))))))))))"

fun find_pid_loop :: "u32 \<Rightarrow> nat list \<Rightarrow> 'a task_state_scheme \<Rightarrow> nat option res" where
  "find_pid_loop p [] s = Inr None"
| "find_pid_loop p (i # is) s =
     andThen (get_task i s) (\<lambda>t.
       if tstate t \<noteq> Empty \<and> pid t = p then Inr (Some i) else find_pid_loop p is s)"

definition find_pid :: "u32 \<Rightarrow> 'a task_state_scheme \<Rightarrow> nat option res" where
  "find_pid p s = find_pid_loop p [0..<MAX_TASKS] s"

definition block_until :: "nat \<Rightarrow> u64 \<Rightarrow> 'a task_state_scheme \<Rightarrow> 'a task_state_scheme res" where
  "block_until slot wake_tick s =
     andThen (get_task slot s) (\<lambda>t.
       Inr (set_task slot (t\<lparr>tstate := Blocked, sleep_until := wake_tick\<rparr>) s))"

definition print_woke :: "profile \<Rightarrow> u32 \<Rightarrow> 'a machine_scheme \<Rightarrow> 'a machine_scheme res" where
  "print_woke pr p s =
     andThen (serial_print ''[task] woke pid'' s) (\<lambda>s.
     andThen (serial_print_usize pr (unat p) s) (serial_print ''\<newline>''))"

fun wake_loop :: "profile \<Rightarrow> u64 \<Rightarrow> nat list \<Rightarrow> 'a task_state_scheme \<Rightarrow> 'a task_state_scheme res" where
  "wake_loop pr now [] s = Inr s"
| "wake_loop pr now (i # is) s =
     andThen (get_task i s) (\<lambda>t.
       if tstate t = Blocked \<and> sleep_until t \<noteq> 0 \<and> sleep_until t \<le> now then
         let s = set_task i (t\<lparr>tstate := Ready, sleep_until := 0\<rparr>) s in
         andThen (print_woke pr (pid t) s) (wake_loop pr now is)
       else wake_loop pr now is s)"

definition wake_sleeping_tasks ::
    "profile \<Rightarrow> u64 \<Rightarrow> 'a task_state_scheme \<Rightarrow> 'a task_state_scheme res" where
  "wake_sleeping_tasks pr now s = wake_loop pr now [0..<MAX_TASKS] s"

text \<open>\<open>exit_code as usize\<close> sign-extends the \<open>i32\<close>.\<close>

definition i32_as_usize :: "u32 \<Rightarrow> nat" where
  "i32_as_usize c = unat (scast c :: u64)"

definition print_terminated ::
    "profile \<Rightarrow> u32 \<Rightarrow> u32 \<Rightarrow> 'a machine_scheme \<Rightarrow> 'a machine_scheme res" where
  "print_terminated pr p code s =
     andThen (serial_print ''[task] terminated pid='' s) (\<lambda>s.
     andThen (serial_print_usize pr (unat p) s) (\<lambda>s.
     andThen (serial_print '' exit='' s) (\<lambda>s.
     andThen (serial_print_usize pr (i32_as_usize code) s) (serial_print ''\<newline>''))))"

definition terminate :: "profile \<Rightarrow> nat \<Rightarrow> u32 \<Rightarrow> 'a task_state_scheme \<Rightarrow> 'a task_state_scheme res" where
  "terminate pr slot code s =
     andThen (get_task slot s) (\<lambda>t.
     let s = set_task slot (t\<lparr>tstate := Terminated, exit_code := code\<rparr>) s in
     andThen (free_page pr (stack_base t) s) (print_terminated pr (pid t) code))"

definition init_tasks :: "'a task_state_scheme \<Rightarrow> 'a task_state_scheme res" where
  "init_tasks s =
     andThen (get_task 0 s) (\<lambda>t.
     let t = t\<lparr>tstate := Running, pid := 0, tname := asc ''idle'' @ drop 4 (tname t)\<rparr>;
         s = (set_task 0 t s)\<lparr>current := 0, next_pid := 1\<rparr> in
     serial_print ''[task] idle task initialised (slot 0)\<newline>'' s)"

fun state_name :: "tstate \<Rightarrow> string" where
  "state_name Empty = ''empty''"
| "state_name Created = ''created''"
| "state_name Ready = ''ready''"
| "state_name Running = ''running''"
| "state_name Blocked = ''blocked''"
| "state_name Terminated = ''terminated''"

fun dump_loop :: "profile \<Rightarrow> nat list \<Rightarrow> 'a task_state_scheme \<Rightarrow> 'a task_state_scheme res" where
  "dump_loop pr [] s = Inr s"
| "dump_loop pr (i # is) s =
     andThen (get_task i s) (\<lambda>t.
     if tstate t = Empty then dump_loop pr is s
     else
       andThen (serial_print '' ['' s) (\<lambda>s. andThen (serial_print_usize pr i s) (\<lambda>s.
       andThen (serial_print ''] pid='' s) (\<lambda>s. andThen (serial_print_usize pr (unat (pid t)) s) (\<lambda>s.
       andThen (serial_print '' state='' s) (\<lambda>s. andThen (serial_print (state_name (tstate t)) s) (\<lambda>s.
       andThen (serial_print '' ticks='' s) (\<lambda>s.
       andThen (serial_print_usize pr (unat (ticks_run t)) s) (\<lambda>s.
       andThen (serial_print '' name='' s) (\<lambda>s.
       andThen (print_chars (takeWhile (\<lambda>b. b \<noteq> 0) (tname t)) s) (\<lambda>s.
       andThen (serial_print ''\<newline>'' s) (dump_loop pr is))))))))))))"

definition dump_tasks :: "profile \<Rightarrow> 'a task_state_scheme \<Rightarrow> 'a task_state_scheme res" where
  "dump_tasks pr s =
     andThen (serial_print ''\<newline>--- Task Table ---\<newline>'' s) (\<lambda>s.
     andThen (dump_loop pr [0..<MAX_TASKS] s) (\<lambda>s.
       serial_print ''----------------------\<newline>'' s))"

section \<open>Computations that only print\<close>

definition prints :: "('a machine_scheme \<Rightarrow> 'a machine_scheme res) \<Rightarrow> bool" where
  "prints m \<longleftrightarrow>
     (\<forall>s. serial_good s \<longrightarrow> (\<exists>bs. m s = Inr (s\<lparr>io_log := tx_log (dev_in s) (io_log s) bs\<rparr>)))"

lemma printsD: "prints m \<Longrightarrow> serial_good s \<Longrightarrow> \<exists>l. m s = Inr (s\<lparr>io_log := l\<rparr>)"
  by (auto simp: prints_def)

lemma prints_andThen:
  assumes "prints m" "prints k"
  shows "prints (\<lambda>s. andThen (m s) k)"
  unfolding prints_def
proof (intro allI impI)
  fix s :: "'a machine_scheme" assume good: "serial_good s"
  obtain bs where 1: "m s = Inr (s\<lparr>io_log := tx_log (dev_in s) (io_log s) bs\<rparr>)"
    using assms(1) good unfolding prints_def by blast
  let ?s = "s\<lparr>io_log := tx_log (dev_in s) (io_log s) bs\<rparr>"
  have "serial_good ?s" using good by simp
  then obtain bs' where "k ?s = Inr (?s\<lparr>io_log := tx_log (dev_in ?s) (io_log ?s) bs'\<rparr>)"
    using assms(2) unfolding prints_def by blast
  with 1 show "\<exists>bs. andThen (m s) k = Inr (s\<lparr>io_log := tx_log (dev_in s) (io_log s) bs\<rparr>)"
    by (intro exI [of _ "bs @ bs'"]) (simp add: tx_log_append)
qed

lemma prints_basic:
  "prints (serial_print str)" "prints (serial_putc b)" "v < usize_lim \<Longrightarrow> prints (serial_print_usize pr v)"
  "prints (serial_print_hex64 w)"
  by (auto simp: prints_def serial_eqs simp del: tx_log.simps intro!: exI)

lemma prints_Inr: "prints Inr"
  unfolding prints_def
proof (intro allI impI)
  fix s :: "'a machine_scheme"
  show "\<exists>bs. Inr s = Inr (s\<lparr>io_log := tx_log (dev_in s) (io_log s) bs\<rparr>)" by (rule exI [of _ "[]"]) simp
qed

lemma prints_chars: "prints (print_chars bs)"
proof (induction bs)
  case Nil
  have "print_chars [] = Inr" by (simp add: fun_eq_iff)
  then show ?case by (simp add: prints_Inr)
next
  case (Cons b bs)
  have "print_chars (b # bs) = (\<lambda>s. andThen (serial_putc b s) (print_chars bs))" by (simp add: fun_eq_iff)
  then show ?case using prints_andThen [OF prints_basic(2) Cons] by simp
qed

lemma word_usize:
  "unat (p :: u32) < usize_lim" "unat (t :: u64) < usize_lim" "i32_as_usize c < usize_lim"
  using unsigned_less [of p, where ?'a = nat] unsigned_less [of t, where ?'a = nat]
    unsigned_less [of "scast c :: u64", where ?'a = nat]
  by (simp_all add: i32_as_usize_def)

lemma prints_messages:
  "slot < usize_lim \<Longrightarrow> prints (print_created pr nm p slot)" "prints (print_woke pr p)"
  "prints (print_terminated pr p c)"
  unfolding print_created_def [abs_def] print_woke_def [abs_def] print_terminated_def [abs_def]
  by (intro prints_andThen prints_basic prints_chars word_usize; assumption)+

text \<open>\<open>s'\<close> comes from \<open>s\<close> by sending bytes on the serial line, as far as the bus is concerned.\<close>

definition sent :: "'a machine_scheme \<Rightarrow> 'a machine_scheme \<Rightarrow> bool" where
  "sent s s' \<longleftrightarrow> dev_in s' = dev_in s \<and> (\<exists>bs. io_log s' = tx_log (dev_in s) (io_log s) bs)"

lemma sent_same: "dev_in s' = dev_in s \<Longrightarrow> io_log s' = io_log s \<Longrightarrow> sent s s'"
  unfolding sent_def by (metis tx_log.simps(1))

lemma sent_trans: "sent s s' \<Longrightarrow> sent s' s'' \<Longrightarrow> sent s s''"
  unfolding sent_def by (metis tx_log_append)

lemma sent_prints: "prints m \<Longrightarrow> serial_good s \<Longrightarrow> m s = Inr s' \<Longrightarrow> sent s s'"
  unfolding prints_def sent_def by fastforce

lemma sent_good: "sent s s' \<Longrightarrow> serial_good s \<Longrightarrow> serial_good s'"
  by (simp add: sent_def)

text \<open>A message leaves everything but the bus history alone.\<close>

lemma log_fields [simp]:
  "tasks (s\<lparr>io_log := l\<rparr>) = tasks s" "current (s\<lparr>io_log := l\<rparr>) = current s"
  "next_pid (s\<lparr>io_log := l\<rparr>) = next_pid s" "task_lock (s\<lparr>io_log := l\<rparr>) = task_lock s"
  "rflags_reg (s\<lparr>io_log := l\<rparr>) = rflags_reg s"
  by simp_all

section \<open>The table\<close>

definition table_ok :: "'a task_state_scheme \<Rightarrow> bool" where
  "table_ok s \<longleftrightarrow> length (tasks s) = MAX_TASKS \<and> current s < MAX_TASKS \<and>
     (\<forall>t \<in> set (tasks s). length (tname t) = 16)"

lemma get_task_ok: "table_ok s \<Longrightarrow> i < 32 \<Longrightarrow> get_task i s = Inr (tasks s ! i)"
  by (simp add: get_task_def table_ok_def)

lemma tasks_set_task [simp]:
  "tasks (set_task i t s) = (tasks s)[i := t]" "current (set_task i t s) = current s"
  "dev_in (set_task i t s) = dev_in s" "io_log (set_task i t s) = io_log s"
  "next_pid (set_task i t s) = next_pid s" "task_lock (set_task i t s) = task_lock s"
  "rflags_reg (set_task i t s) = rflags_reg s"
  by (simp_all add: set_task_def)

lemma set_task_set_task [simp]: "set_task i t (set_task i t' s) = set_task i t s"
  by (simp add: set_task_def)

lemma alloc_slot_loop_eq:
  "\<forall>i \<in> set is. i < length (tasks s) \<Longrightarrow>
     alloc_slot_loop is s = Inr (find (\<lambda>i. tstate (tasks s ! i) = Empty) is)"
  by (induction "is") (simp_all add: get_task_def)

lemma alloc_slot_eq:
  "table_ok s \<Longrightarrow> alloc_slot s = Inr (find (\<lambda>i. tstate (tasks s ! i) = Empty) [0..<32])"
  by (simp add: alloc_slot_def alloc_slot_loop_eq table_ok_def)

lemma find_pid_loop_eq:
  "\<forall>i \<in> set is. i < length (tasks s) \<Longrightarrow>
     find_pid_loop p is s = Inr (find (\<lambda>i. tstate (tasks s ! i) \<noteq> Empty \<and> pid (tasks s ! i) = p) is)"
  by (induction "is") (simp_all add: get_task_def)

lemma find_pid_eq:
  "table_ok s \<Longrightarrow>
     find_pid p s = Inr (find (\<lambda>i. tstate (tasks s ! i) \<noteq> Empty \<and> pid (tasks s ! i) = p) [0..<32])"
  by (simp add: find_pid_def find_pid_loop_eq table_ok_def)

lemma find_upt_Some:
  "find P [0..<n] = Some i \<longleftrightarrow> i < n \<and> P i \<and> (\<forall>j < i. \<not> P j)" for n :: nat
  by (auto simp: find_Some_iff)

lemma find_upt_None: "find P [0..<n] = None \<longleftrightarrow> (\<forall>i < n. \<not> P i)" for n :: nat
  by (auto simp: find_None_iff)

section \<open>Waking\<close>

definition due :: "u64 \<Rightarrow> task \<Rightarrow> bool" where
  "due now t \<longleftrightarrow> tstate t = Blocked \<and> sleep_until t \<noteq> 0 \<and> sleep_until t \<le> now"

definition wake :: "u64 \<Rightarrow> task \<Rightarrow> task" where
  "wake now t = (if due now t then t\<lparr>tstate := Ready, sleep_until := 0\<rparr> else t)"

lemma wake_loop_eq:
  "serial_good s \<Longrightarrow> \<forall>i \<in> set is. i < length (tasks s) \<Longrightarrow> distinct is \<Longrightarrow>
     \<exists>l. wake_loop pr now is s =
       Inr (s\<lparr>tasks := map (\<lambda>i. if i \<in> set is then wake now (tasks s ! i) else tasks s ! i) [0..<length (tasks s)],
         io_log := l\<rparr>)"
proof (induction "is" arbitrary: s)
  case Nil
  have "map ((!) (tasks s)) [0..<length (tasks s)] = tasks s" by (rule map_nth)
  then show ?case by (intro exI [of _ "io_log s"]) simp
next
  case (Cons i "is")
  let ?t = "tasks s ! i"
  let ?w = "\<lambda>s. map (\<lambda>j. if j \<in> set is then wake now (tasks s ! j) else tasks s ! j) [0..<length (tasks s)]"
  have i: "i < length (tasks s)" "i \<notin> set is" using Cons.prems by auto
  show ?case
  proof (cases "due now ?t")
    case True
    let ?s = "set_task i (?t\<lparr>tstate := Ready, sleep_until := 0\<rparr>) s"
    obtain l where l: "print_woke pr (pid ?t) ?s = Inr (?s\<lparr>io_log := l\<rparr>)"
      using printsD [OF prints_messages(2), of ?s pr "pid ?t"] Cons.prems(1) by auto
    obtain l' where l': "wake_loop pr now is (?s\<lparr>io_log := l\<rparr>) =
        Inr (?s\<lparr>io_log := l\<rparr>\<lparr>tasks := ?w (?s\<lparr>io_log := l\<rparr>), io_log := l'\<rparr>)"
      using Cons.IH [of "?s\<lparr>io_log := l\<rparr>"] Cons.prems by auto
    have "?w (?s\<lparr>io_log := l\<rparr>) =
        map (\<lambda>j. if j \<in> set (i # is) then wake now (tasks s ! j) else tasks s ! j) [0..<length (tasks s)]"
      using True i by (auto simp: wake_def nth_list_update_if)
    moreover have "wake_loop pr now (i # is) s = wake_loop pr now is (?s\<lparr>io_log := l\<rparr>)"
      using True i l by (simp add: get_task_def due_def Let_def)
    ultimately show ?thesis using l' by (intro exI [of _ l']) (simp add: set_task_def)
  next
    case False
    have "?w s = map (\<lambda>j. if j \<in> set (i # is) then wake now (tasks s ! j) else tasks s ! j) [0..<length (tasks s)]"
      using False by (auto simp: wake_def)
    moreover have "wake_loop pr now (i # is) s = wake_loop pr now is s"
      using False i by (auto simp: get_task_def due_def)
    moreover obtain l where "wake_loop pr now is s = Inr (s\<lparr>tasks := ?w s, io_log := l\<rparr>)"
      using Cons.IH [of s] Cons.prems by auto
    ultimately show ?thesis by (intro exI [of _ l]) (simp only:)
  qed
qed

lemma wake_loop_sent:
  "wake_loop pr now is s = Inr s' \<Longrightarrow> serial_good s \<Longrightarrow> sent s s'"
proof (induction "is" arbitrary: s)
  case Nil
  then show ?case by (simp add: sent_same)
next
  case (Cons i "is")
  obtain t where t: "get_task i s = Inr t" using Cons.prems(1) by (cases "get_task i s") auto
  let ?s = "set_task i (t\<lparr>tstate := Ready, sleep_until := 0\<rparr>) s"
  show ?case
  proof (cases "tstate t = Blocked \<and> sleep_until t \<noteq> 0 \<and> sleep_until t \<le> now")
    case True
    then obtain s1 where s1: "print_woke pr (pid t) ?s = Inr s1" "wake_loop pr now is s1 = Inr s'"
      using Cons.prems(1) t by (auto simp: Let_def)
    have "sent s ?s" by (simp add: sent_same set_task_def)
    moreover have "sent ?s s1"
      by (rule sent_prints [OF prints_messages(2) _ s1(1)]) (use Cons.prems(2) in \<open>simp add: set_task_def\<close>)
    ultimately have "sent s s1" by (rule sent_trans)
    then show ?thesis using Cons.IH [OF s1(2) sent_good [OF _ Cons.prems(2)]] sent_trans by blast
  next
    case False
    then have "wake_loop pr now is s = Inr s'" using Cons.prems(1) t by auto
    then show ?thesis by (rule Cons.IH) (rule Cons.prems(2))
  qed
qed

lemma wake_sleeping_tasks_eq:
  assumes "serial_good s" "table_ok s"
  shows "\<exists>l. wake_sleeping_tasks pr now s = Inr (s\<lparr>tasks := map (wake now) (tasks s), io_log := l\<rparr>)"
proof -
  have len: "length (tasks s) = 32" using assms(2) by (simp add: table_ok_def)
  have "map (\<lambda>i. if i \<in> set [0..<32] then wake now (tasks s ! i) else tasks s ! i) [0..<length (tasks s)] =
      map (wake now) (tasks s)"
    unfolding len by (intro nth_equalityI) (simp_all add: len)
  then show ?thesis
    using wake_loop_eq [of s "[0..<32]" pr now] assms(1) by (simp add: wake_sleeping_tasks_def len del: upt_Suc)
qed

section \<open>Creation\<close>

lemma setup_initial_stack_eq:
  "\<exists>m. setup_initial_stack pr (b + 56) entry s = Inr (b, s\<lparr>cells := m\<rparr>) \<and>
     (\<forall>i < 6. m (b + 8 * i) = 0) \<and> m (b + 48) = entry \<and>
     (\<forall>a. \<not> (b \<le> a \<and> a < b + 56) \<longrightarrow> m a = cells s a)"
proof -
  let ?m = "(cells s)(b := 0, b + 8 := 0, b + 16 := 0, b + 24 := 0, b + 32 := 0, b + 40 := 0, b + 48 := entry)"
  have "setup_initial_stack pr (b + 56) entry s = Inr (b, s\<lparr>cells := ?m\<rparr>)"
    by (simp add: setup_initial_stack_def FRAME_WORDS_def write_word_def)
  moreover have "?m (b + 8 * i) = 0" if "i < 6" for i
  proof -
    have "i \<in> {0, 1, 2, 3, 4, 5}" using that by auto
    then show ?thesis by auto
  qed
  moreover have "?m a = cells s a" if "\<not> (b \<le> a \<and> a < b + 56)" for a
  proof -
    have "a \<noteq> b" "a \<noteq> b + 8" "a \<noteq> b + 16" "a \<noteq> b + 24" "a \<noteq> b + 32" "a \<noteq> b + 40" "a \<noteq> b + 48"
      using that by auto
    then show ?thesis by simp
  qed
  ultimately show ?thesis by (intro exI [of _ ?m]) simp
qed

text \<open>The two frames of a new task's stack, and the machine without them.\<close>

lemma alloc_second_eq:
  assumes inv: "pmm_inv s" and ne: "free_pages s \<noteq> {}"
  defines "p0 \<equiv> Min (free_pages s)"
  shows "alloc_second pr (p0 * PAGE_SIZE) (take_page p0 s) =
    (if card (free_pages s) = 1 then Inr (None, s)
     else Inr (Some (Min (free_pages s - {p0}) * PAGE_SIZE),
       take_page (Min (free_pages s - {p0})) (take_page p0 s)))"
proof -
  have p0: "p0 \<in> free_pages s" unfolding p0_def by (rule Min_free_pages [OF ne])
  have inv1: "pmm_inv (take_page p0 s)" by (rule pmm_inv_take [OF inv p0])
  have fp: "free_pages (take_page p0 s) = free_pages s - {p0}"
    by (rule free_pages_take [OF inv free_pages_lt [OF p0]])
  have al: "alloc_page pr s = Inr (Some (p0 * PAGE_SIZE), take_page p0 s)"
    using alloc_page_eq [OF inv, of pr] ne by (simp add: p0_def)
  have "free_page pr (p0 * PAGE_SIZE) (take_page p0 s) = Inr s" by (rule pmm.release_undo [OF inv al])
  moreover have "free_pages s - {p0} = {} \<longleftrightarrow> card (free_pages s) = 1"
    using card_Suc_Diff1 [OF finite_free_pages p0]
    by (metis One_nat_def Suc_inject card_0_eq finite_Diff finite_free_pages)
  ultimately show ?thesis by (simp add: alloc_second_def alloc_page_eq [OF inv1] fp)
qed

text \<open>What a successful creation does.\<close>

definition created ::
    "nat \<Rightarrow> u8 list \<Rightarrow> u64 \<Rightarrow> 'a task_state_scheme \<Rightarrow> 'a task_state_scheme \<Rightarrow> bool" where
  "created slot nm entry s s' \<longleftrightarrow>
     (\<exists>f0 f1 t. f0 \<in> avail_frames s \<and> f1 \<in> avail_frames s \<and> f0 \<noteq> f1 \<and>
        avail_frames s' = avail_frames s - {f0, f1} \<and>
        tasks s' = (tasks s)[slot := t] \<and>
        tstate t = Ready \<and> pid t = next_pid s \<and> stack_base t = f0 \<and>
        stack_top t = f1 + PAGE_SIZE + hhdm_offset s \<and> t_rsp t + 56 = stack_top t \<and>
        ticks_run t = 0 \<and> sleep_until t = 0 \<and> wait_for_pid t = None \<and> exit_code t = 0 \<and>
        tname t = copy_name nm (tname (tasks s ! slot)) \<and>
        (\<forall>i < 6. cells s' (t_rsp t + 8 * i) = 0) \<and> cells s' (t_rsp t + 48) = entry \<and>
        (\<forall>a. \<not> (t_rsp t \<le> a \<and> a < t_rsp t + 56) \<longrightarrow> cells s' a = cells s a)) \<and>
     next_pid s' = next_pid s + 1 \<and> vm_inv s' \<and> sent s s' \<and>
     s' = s\<lparr>io_log := io_log s', bitmap := bitmap s', free_count := free_count s', cells := cells s',
       tasks := tasks s', next_pid := next_pid s'\<rparr> \<and>
     (\<forall>ps. table_path ps \<longrightarrow> tab s' ps = tab s ps) \<and>
     (\<forall>v. pte_of s' (split_indices v) = pte_of s (split_indices v)) \<and> same_large s s'"

lemma created_same:
  assumes "created slot nm entry s s'"
  shows "current s' = current s" "all_frames s' = all_frames s" "hhdm_offset s' = hhdm_offset s"
    "dev_in s' = dev_in s" "task_lock s' = task_lock s" "rflags_reg s' = rflags_reg s"
    "task_state.more s' = task_state.more s"
proof -
  have s': "s' = s\<lparr>io_log := io_log s', bitmap := bitmap s', free_count := free_count s', cells := cells s',
       tasks := tasks s', next_pid := next_pid s'\<rparr>"
    using assms unfolding created_def by blast
  show "current s' = current s" "all_frames s' = all_frames s" "hhdm_offset s' = hhdm_offset s"
    "dev_in s' = dev_in s" "task_lock s' = task_lock s" "rflags_reg s' = rflags_reg s"
    "task_state.more s' = task_state.more s"
    by (subst s', simp add: all_frames_def)+
qed

lemma task_fields_take [simp]:
  "tasks (take_page p s) = tasks s" "current (take_page p s) = current s"
  "next_pid (take_page p s) = next_pid s" "task_lock (take_page p s) = task_lock s"
  "rflags_reg (take_page p s) = rflags_reg s" "dev_in (take_page p s) = dev_in s"
  "all_frames (take_page p s) = all_frames s"
  by (simp_all add: take_page_def all_frames_def)

lemma two_frames:
  assumes inv: "vm_inv s" and two: "2 \<le> card (free_pages s)"
  obtains f0 f1 s2 where "alloc_page pr s = Inr (Some f0, take_page (f0 div PAGE_SIZE) s)"
    "alloc_second pr f0 (take_page (f0 div PAGE_SIZE) s) = Inr (Some f1, s2)"
    "s2 = take_page (f1 div PAGE_SIZE) (take_page (f0 div PAGE_SIZE) s)"
    "vm_inv s2" "f0 \<in> avail_frames s" "f1 \<in> avail_frames s" "f0 \<noteq> f1"
    "avail_frames s2 = avail_frames s - {f0, f1}" "tab s2 = tab s"
proof -
  let ?p0 = "Min (free_pages s)"
  let ?p1 = "Min (free_pages s - {?p0})"
  let ?s1 = "take_page ?p0 s"
  let ?s2 = "take_page ?p1 ?s1"
  note pinv = vm_invD(1) [OF inv]
  have ne: "free_pages s \<noteq> {}" using two by auto
  have p0: "?p0 \<in> free_pages s" by (rule Min_free_pages [OF ne])
  have inv1: "vm_inv ?s1" by (rule vm_inv_take [OF inv p0])
  have fp1: "free_pages ?s1 = free_pages s - {?p0}"
    by (rule free_pages_take [OF pinv free_pages_lt [OF p0]])
  have "card (free_pages s - {?p0}) \<noteq> 0" using two card_Suc_Diff1 [OF finite_free_pages p0] by linarith
  then have "free_pages s - {?p0} \<noteq> {}" by auto
  then have p1: "?p1 \<in> free_pages ?s1" unfolding fp1 by (intro Min_in) auto
  show ?thesis
  proof (rule that [of "?p0 * PAGE_SIZE" "?p1 * PAGE_SIZE" ?s2])
    show "alloc_page pr s = Inr (Some (?p0 * PAGE_SIZE), take_page (?p0 * PAGE_SIZE div PAGE_SIZE) s)"
      using alloc_page_eq [OF pinv, of pr] ne by simp
    show "alloc_second pr (?p0 * PAGE_SIZE) (take_page (?p0 * PAGE_SIZE div PAGE_SIZE) s) =
        Inr (Some (?p1 * PAGE_SIZE), ?s2)"
      using alloc_second_eq [OF pinv ne, of pr] two by simp
    show "vm_inv ?s2" by (rule vm_inv_take [OF inv1 p1])
    show "avail_frames ?s2 = avail_frames s - {?p0 * PAGE_SIZE, ?p1 * PAGE_SIZE}"
      using avail_frames_take [OF pinv free_pages_lt [OF p0]]
        avail_frames_take [OF vm_invD(1) [OF inv1] free_pages_lt [OF p1]] by auto
    show "tab ?s2 = tab s" by (rule same_memory) simp_all
  qed (use p0 p1 fp1 in \<open>auto simp: avail_frames_def\<close>)
qed

lemma new_kernel_task_success:
  assumes inv: "vm_inv s" and ok: "table_ok s" and ser: "serial_good s"
    and slot: "alloc_slot s = Inr (Some slot)" and two: "2 \<le> card (free_pages s)"
    and pid: "next_pid s \<noteq> -1"
  shows "\<exists>s'. new_kernel_task pr nm entry s = Inr (Some (next_pid s), s') \<and> created slot nm entry s s'"
proof -
  obtain f0 f1 s2 where al: "alloc_page pr s = Inr (Some f0, take_page (f0 div PAGE_SIZE) s)"
    "alloc_second pr f0 (take_page (f0 div PAGE_SIZE) s) = Inr (Some f1, s2)"
    and s2: "s2 = take_page (f1 div PAGE_SIZE) (take_page (f0 div PAGE_SIZE) s)"
    and inv2: "vm_inv s2" and f: "f0 \<in> avail_frames s" "f1 \<in> avail_frames s" "f0 \<noteq> f1"
    and av: "avail_frames s2 = avail_frames s - {f0, f1}" and tab2: "tab s2 = tab s"
    by (rule two_frames [OF inv two])
  let ?h = "hhdm_offset s"
  let ?s3 = "s2\<lparr>next_pid := next_pid s + 1\<rparr>"
  let ?b = "f1 + 4040 + ?h"
  have same2: "tasks s2 = tasks s" "current s2 = current s" "next_pid s2 = next_pid s" "hhdm_offset s2 = ?h"
    "all_frames s2 = all_frames s" "dev_in s2 = dev_in s" "task_lock s2 = task_lock s"
    "rflags_reg s2 = rflags_reg s" "cells s2 = cells s" "cr3 s2 = cr3 s" "total_pages s2 = total_pages s"
    by (simp_all add: s2)
  obtain m where m: "setup_initial_stack pr (?b + 56) entry ?s3 = Inr (?b, ?s3\<lparr>cells := m\<rparr>)"
    "\<forall>i < 6. m (?b + 8 * i) = 0" "m (?b + 48) = entry"
    "\<forall>a. \<not> (?b \<le> a \<and> a < ?b + 56) \<longrightarrow> m a = cells s a"
    using setup_initial_stack_eq [of pr ?b entry ?s3] same2(9) by auto
  have i: "slot < 32" "tasks s ! slot \<in> set (tasks s)"
    using slot ok by (auto simp: alloc_slot_eq find_upt_Some table_ok_def)
  let ?t = "(tasks s ! slot)\<lparr>t_rsp := ?b, pid := next_pid s, tstate := Ready, stack_base := f0,
      stack_top := ?b + 56, ticks_run := 0, sleep_until := 0, wait_for_pid := None, exit_code := 0,
      tname := copy_name nm (tname (tasks s ! slot))\<rparr>"
  let ?s4 = "set_task slot ?t (?s3\<lparr>cells := m\<rparr>)"
  have ser4: "serial_good ?s4" and slim: "slot < usize_lim" using ser i(1) same2 by simp_all
  have same_log: "io_log ?s4 = io_log s" "dev_in ?s4 = dev_in s" by (simp_all add: s2 take_page_def set_task_def)
  obtain l where l: "print_created pr (take (min (length nm) 15) (tname ?t)) (next_pid s) slot ?s4 =
      Inr (?s4\<lparr>io_log := l\<rparr>)"
    using printsD [OF prints_messages(1) [OF slim] ser4, of pr "take (min (length nm) 15) (tname ?t)" "next_pid s"]
    by blast
  note lim = avail_frame(3) [OF inv f(1)] avail_frame(3) [OF inv f(2)]
  have get: "get_task slot (?s3\<lparr>cells := m\<rparr>) = Inr (tasks s ! slot)"
    using i(1) ok same2 by (simp add: get_task_def table_ok_def)
  have pid': "alloc_pid pr s2 = Inr (next_pid s, ?s3)" using pid same2 by (simp add: alloc_pid_def)
  have adds: "uadd pr f0 ?h = Inr (f0 + ?h)" "uadd pr f1 PAGE_SIZE = Inr (f1 + PAGE_SIZE)"
    "uadd pr (f1 + PAGE_SIZE) ?h = Inr (?b + 56)"
    using lim by simp_all
  have "new_kernel_task pr nm entry s = Inr (Some (next_pid s), ?s4\<lparr>io_log := l\<rparr>)"
    by (simp only: new_kernel_task_def slot al andThen.simps option.case prod.case Let_def same2(4) adds
        pid' m(1) get l)
  moreover have "created slot nm entry s (?s4\<lparr>io_log := l\<rparr>)"
  proof -
    let ?s5 = "?s4\<lparr>io_log := l\<rparr>"
    have same5: "hhdm_offset ?s5 = hhdm_offset s2" "cr3 ?s5 = cr3 s2" "total_pages ?s5 = total_pages s2"
      "avail_frames ?s5 = avail_frames s2" "pmm_inv ?s5" "cells ?s5 = m"
      using vm_invD(1) [OF inv2]
      by (simp_all add: set_task_def avail_frames_def free_pages_def pmm_inv_def)
    have no_tab: "t \<noteq> f1" if "table_path ps" "tab s2 ps = Some t" for ps t
      using vm_invD(4) [OF inv that(1)] that(2) f(2) tab2 by auto
    have cells5: "cells ?s5 a = cells s2 a" if "\<not> (f1 + hhdm_offset s2 \<le> a \<and> a < f1 + hhdm_offset s2 + 4096)" for a
    proof -
      have "\<not> (?b \<le> a \<and> a < ?b + 56)" using that same2(4) by linarith
      then show ?thesis using m(4) same2(9) unfolding same5(6) by simp
    qed
    note w = frame_write [OF inv2 avail_frame(1) [OF inv f(2)] no_tab same5(1-5) cells5]
    have ent2: "ent s2 = ent s" by (rule same_memory) (simp_all add: s2)
    then have pte: "pte_of s2 idx = pte_of s idx" for idx by (rule same_pte) (rule tab2)
    have large2: "same_large s s2" by (rule same_large_eq [OF same_large_of [OF ent2 tab2]])
    have frame: "?s5 = s\<lparr>io_log := io_log ?s5, bitmap := bitmap ?s5, free_count := free_count ?s5,
        cells := cells ?s5, tasks := tasks ?s5, next_pid := next_pid ?s5\<rparr>"
      by (simp add: set_task_def s2 take_page_def)
    have "tab ?s5 ps = tab s2 ps" if "table_path ps" for ps
      by (rule frame_write(2) [OF inv2 avail_frame(1) [OF inv f(2)] no_tab same5(1-5) cells5 that])
    then have tabs: "\<forall>ps. table_path ps \<longrightarrow> tab ?s5 ps = tab s ps" using tab2 by simp
    have "same_large s2 ?s5"
      by (rule frame_write(4) [OF inv2 avail_frame(1) [OF inv f(2)] no_tab same5(1-5) cells5])
    then have large: "same_large s ?s5" by (rule same_large_trans [OF large2])
    show ?thesis unfolding created_def
    proof (intro conjI)
      show "same_large s ?s5" by (rule large)
      show "\<exists>f0 f1 t. f0 \<in> avail_frames s \<and> f1 \<in> avail_frames s \<and> f0 \<noteq> f1 \<and>
          avail_frames ?s5 = avail_frames s - {f0, f1} \<and> tasks ?s5 = (tasks s)[slot := t] \<and>
          tstate t = Ready \<and> pid t = next_pid s \<and> stack_base t = f0 \<and>
          stack_top t = f1 + PAGE_SIZE + ?h \<and> t_rsp t + 56 = stack_top t \<and>
          ticks_run t = 0 \<and> sleep_until t = 0 \<and> wait_for_pid t = None \<and> exit_code t = 0 \<and>
          tname t = copy_name nm (tname (tasks s ! slot)) \<and>
          (\<forall>i < 6. cells ?s5 (t_rsp t + 8 * i) = 0) \<and> cells ?s5 (t_rsp t + 48) = entry \<and>
          (\<forall>a. \<not> (t_rsp t \<le> a \<and> a < t_rsp t + 56) \<longrightarrow> cells ?s5 a = cells s a)"
        unfolding same5 using f av m(2-4) same2
        by (intro exI [of _ f0] exI [of _ f1] exI [of _ ?t]) (simp add: set_task_def)
      show "\<forall>ps. table_path ps \<longrightarrow> tab ?s5 ps = tab s ps" by (rule tabs)
      show "sent s ?s5" using sent_prints [OF prints_messages(1) [OF slim] ser4 l] same2 same_log
        by (auto simp: sent_def)
      show "?s5 = s\<lparr>io_log := io_log ?s5, bitmap := bitmap ?s5, free_count := free_count ?s5,
        cells := cells ?s5, tasks := tasks ?s5, next_pid := next_pid ?s5\<rparr>" by (rule frame)
    qed (use w pte tabs same2 in \<open>simp_all add: set_task_def\<close>)
  qed
  ultimately show ?thesis by blast
qed

section \<open>Properties\<close>

text \<open>A machine with the table as it is linked, and five free frames.\<close>

definition small_tasks :: task_state where
  "small_tasks = (small_vmm undefined)\<lparr>dev_in := (\<lambda>l p. 0xff), tasks := initial_tasks,
     task_lock := False, next_pid := 1, current := 0, rflags_reg := 0x202\<rparr>"

lemma uart_ready_ff: "uart_ready (\<lambda>l p. 0xff)"
  by (simp add: uart_ready_def)

lemma small_tasks_ok:
  "vm_inv small_tasks" "table_ok small_tasks" "serial_good small_tasks" "next_pid small_tasks = 1"
  "free_pages small_tasks = {10, 11, 12, 13, 14}" "tasks small_tasks = initial_tasks"
proof -
  have same: "vm_part small_tasks = vm_part (small_vmm undefined :: task_state)"
    by (simp add: small_tasks_def vm_part_def)
  note eq = vm_part_cong [OF same]
  show "vm_inv small_tasks" unfolding eq by (rule small_vmm_inv)
  show "free_pages small_tasks = {10, 11, 12, 13, 14}" unfolding eq by (rule small_vmm_free)
  show "serial_good small_tasks" by (simp add: small_tasks_def uart_ready_ff)
  show "table_ok small_tasks" "next_pid small_tasks = 1" "tasks small_tasks = initial_tasks"
    by (simp_all add: small_tasks_def table_ok_def initial_tasks_def task_empty_def)
qed

text \<open>Creation on every path.\<close>

lemma new_kernel_task_result:
  assumes "vm_inv s" "table_ok s" "serial_good s" "next_pid s \<noteq> -1"
  shows "case find (\<lambda>i. tstate (tasks s ! i) = Empty) [0..<32] of
      None \<Rightarrow> new_kernel_task pr nm entry s = Inr (None, s)
    | Some slot \<Rightarrow>
        if card (free_pages s) < 2 then new_kernel_task pr nm entry s = Inr (None, s)
        else \<exists>s'. new_kernel_task pr nm entry s = Inr (Some (next_pid s), s') \<and>
               created slot nm entry s s'"
proof (cases "find (\<lambda>i. tstate (tasks s ! i) = Empty) [0..<32]")
  case None
  then show ?thesis using assms(2) by (simp add: new_kernel_task_def alloc_slot_eq del: upt_Suc)
next
  case (Some slot)
  then have slot: "alloc_slot s = Inr (Some slot)" using assms(2) by (simp add: alloc_slot_eq del: upt_Suc)
  note pinv = vm_invD(1) [OF assms(1)]
  consider "free_pages s = {}" | "free_pages s \<noteq> {}" "card (free_pages s) = 1" | "2 \<le> card (free_pages s)"
    using card_gt_0_iff [of "free_pages s"] by fastforce
  then show ?thesis
  proof cases
    case 1
    then show ?thesis using Some slot alloc_page_eq [OF pinv] by (simp add: new_kernel_task_def del: upt_Suc)
  next
    case 2
    then show ?thesis
      using Some slot alloc_page_eq [OF pinv] alloc_second_eq [OF pinv]
      by (simp add: new_kernel_task_def del: upt_Suc)
  next
    case 3
    then show ?thesis using Some new_kernel_task_success [OF assms(1-3) slot 3 assms(4)] by (simp del: upt_Suc)
  qed
qed

text \<open>
  C17: Creating a task, on every path: with no empty slot, or fewer than two free frames, nothing
  changes (a frame already taken is given back) and the result is \<open>None\<close>; otherwise the lowest
  empty slot becomes a ready task with the next pid and a stack of two frames taken from the
  allocator, on which lies the frame that \<open>switch_to\<close> pops (six zero registers below the entry
  address), no other slot and no other word of memory
  changes, and the address space keeps its mappings and its invariant. (The pids are assumed not to be
  used up: at \<open>u32::MAX\<close> the counter overflows.)
\<close>

theorem new_kernel_task_correct:
  assumes "vm_inv s" "table_ok s" "serial_good s" "next_pid s \<noteq> -1"
  shows "case find (\<lambda>i. tstate (tasks s ! i) = Empty) [0..<32] of
      None \<Rightarrow> new_kernel_task pr nm entry s = Inr (None, s)
    | Some slot \<Rightarrow>
        if card (free_pages s) < 2 then new_kernel_task pr nm entry s = Inr (None, s)
        else \<exists>s'. new_kernel_task pr nm entry s = Inr (Some (next_pid s), s') \<and>
               created slot nm entry s s'"
  by (rule new_kernel_task_result [OF assms])

theorem new_kernel_task_correct_witness:
  "\<exists>s'. new_kernel_task Dev [0x61] 0x1000 small_tasks = Inr (Some 1, s') \<and>
     created 0 [0x61] 0x1000 small_tasks s'"
proof -
  have "find (\<lambda>i. tstate (tasks small_tasks ! i) = Empty) [0..<32] = Some 0"
    unfolding find_upt_Some by (simp add: small_tasks_ok initial_tasks_def task_empty_def)
  then show ?thesis
    using new_kernel_task_correct [of small_tasks Dev "[0x61]" "0x1000"] small_tasks_ok
    by (simp del: upt_Suc)
qed

end
