(* ===== verification/Scheduler.thy ===== *)
theory Scheduler
  imports Task
begin

text \<open>
  The scheduler (\<open>multitask/scheduler.rs\<close>): the context switch as a program of the CPU model, the
  round-robin choice under the task lock, the timer tick with its time slice, and the ways a task
  gives the processor up (yield, sleep, exit, wait).

  \<open>switch_to\<close> changes stacks, so what follows it in the source runs when the task is switched
  back in. An operation that ends in \<open>schedule\<close> therefore returns the switch it performs last
  (\<open>Some (curr_idx, next_idx)\<close>) or \<open>None\<close> when \<open>schedule\<close> returns to its caller at once.
\<close>

section \<open>The context switch\<close>

definition switch_to :: "instr list" where
  "switch_to =
     [Push RBP, Push RBX, Push R12, Push R13, Push R14, Push R15, Mov_at_rdi_rsp, Mov_rsp_at_rsi,
      Pop R15, Pop R14, Pop R13, Pop R12, Pop RBX, Pop RBP, Ret]"

section \<open>Operations\<close>

definition TIME_SLICE_TICKS :: u64 where "TIME_SLICE_TICKS = 3"
definition TICKS_PER_SECOND :: u32 where "TICKS_PER_SECOND = 100"

record sched_state = task_state +
  ticks_on_current :: u64
  tick_count :: u64

text \<open>
  \<open>TASK_LOCK.acquire()\<close> and the guard's \<open>drop\<close> on the processor that runs the kernel: interrupts
  are off while it spins, so a lock that is taken is never released.
\<close>

definition acquire :: "'a task_state_scheme \<Rightarrow> (u64 \<times> 'a task_state_scheme) res" where
  "acquire s = (case save_and_cli (rflags_reg s) of (saved, f) \<Rightarrow>
     if task_lock s then Inl Hang else Inr (saved, s\<lparr>rflags_reg := f, task_lock := True\<rparr>))"

definition drop_guard :: "u64 \<Rightarrow> 'a task_state_scheme \<Rightarrow> 'a task_state_scheme" where
  "drop_guard saved s = s\<lparr>task_lock := False, rflags_reg := restore_flags saved (rflags_reg s)\<rparr>"

text \<open>\<open>for _ in 0..MAX_TASKS\<close>: the first argument counts the iterations left.\<close>

fun find_ready :: "profile \<Rightarrow> nat \<Rightarrow> nat \<Rightarrow> 'a task_state_scheme \<Rightarrow> (nat \<times> bool) res" where
  "find_ready pr 0 next_idx s = Inr (next_idx, False)"
| "find_ready pr (Suc n) next_idx s =
     andThen (get_task next_idx s) (\<lambda>t.
       if tstate t = Ready then Inr (next_idx, True)
       else andThen (uadd pr next_idx 1) (\<lambda>i. find_ready pr n (i mod MAX_TASKS) s))"

definition print_switch :: "profile \<Rightarrow> nat \<Rightarrow> nat \<Rightarrow> 'a machine_scheme \<Rightarrow> 'a machine_scheme res" where
  "print_switch pr c n s =
     andThen (serial_print ''[sched] switch '' s) (\<lambda>s.
     andThen (serial_print_usize pr c s) (\<lambda>s.
     andThen (serial_print '' -> '' s) (\<lambda>s.
     andThen (serial_print_usize pr n s) (serial_print ''\<newline>''))))"

definition schedule ::
    "profile \<Rightarrow> 'a sched_state_scheme \<Rightarrow> ((nat \<times> nat) option \<times> 'a sched_state_scheme) res" where
  "schedule pr s =
     andThen (acquire s) (\<lambda>(saved, s).
     let curr_idx = current s in
     andThen (get_task curr_idx s) (\<lambda>curr.
     let s = (if tstate curr = Running then set_task curr_idx (curr\<lparr>tstate := Ready\<rparr>) s else s) in
     andThen (uadd pr curr_idx 1) (\<lambda>i.
     andThen (find_ready pr MAX_TASKS (i mod MAX_TASKS) s) (\<lambda>(next_idx, found).
     andThen (get_task curr_idx s) (\<lambda>curr.
     if \<not> found then
       Inr (None, drop_guard saved
         (if tstate curr \<noteq> Running then set_task curr_idx (curr\<lparr>tstate := Running\<rparr>) s else s))
     else if next_idx = curr_idx then
       Inr (None, drop_guard saved (set_task curr_idx (curr\<lparr>tstate := Running\<rparr>) s))
     else
       andThen (get_task next_idx s) (\<lambda>next_task.
       let s = (set_task next_idx (next_task\<lparr>tstate := Running\<rparr>) (s\<lparr>current := next_idx\<rparr>))
                  \<lparr>ticks_on_current := 0\<rparr> in
       andThen (print_switch pr curr_idx next_idx s) (\<lambda>s.
         Inr (Some (curr_idx, next_idx), drop_guard saved s))))))))"

definition tick ::
    "profile \<Rightarrow> u64 \<Rightarrow> 'a sched_state_scheme \<Rightarrow> ((nat \<times> nat) option \<times> 'a sched_state_scheme) res" where
  "tick pr current_tick s =
     andThen (serial_print ''[sched tick]\<newline>'' s) (\<lambda>s.
     andThen (wake_sleeping_tasks pr current_tick s) (\<lambda>s.
     andThen (current_task s) (\<lambda>curr.
     andThen (wadd pr (ticks_run curr) 1) (\<lambda>tr.
     let s = set_task (current s) (curr\<lparr>ticks_run := tr\<rparr>) s in
     andThen (wadd pr (ticks_on_current s) 1) (\<lambda>n.
     let s = s\<lparr>ticks_on_current := n\<rparr> in
     if TIME_SLICE_TICKS \<le> n then schedule pr (s\<lparr>ticks_on_current := 0\<rparr>)
     else Inr (None, s))))))"

definition cli_insn :: "'a task_state_scheme \<Rightarrow> 'a task_state_scheme" where
  "cli_insn s = s\<lparr>rflags_reg := cli (rflags_reg s)\<rparr>"

definition sti_insn :: "'a task_state_scheme \<Rightarrow> 'a task_state_scheme" where
  "sti_insn s = s\<lparr>rflags_reg := sti (rflags_reg s)\<rparr>"

definition yield_cpu ::
    "profile \<Rightarrow> 'a sched_state_scheme \<Rightarrow> ((nat \<times> nat) option \<times> 'a sched_state_scheme) res" where
  "yield_cpu pr s =
     (let s = cli_insn s in
      andThen (current_task s) (\<lambda>curr. schedule pr (set_task (current s) (curr\<lparr>tstate := Ready\<rparr>) s)))"

definition ticks :: "'a sched_state_scheme \<Rightarrow> u64" where
  "ticks s = tick_count s"

definition sleep_ms ::
    "profile \<Rightarrow> u64 \<Rightarrow> 'a sched_state_scheme \<Rightarrow> ((nat \<times> nat) option \<times> 'a sched_state_scheme) res" where
  "sleep_ms pr ms s =
     andThen (wmul pr ms (ucast TICKS_PER_SECOND)) (\<lambda>x.
     let ticks_to_wait = x div 1000 in
     andThen (wadd pr (ticks s) (max ticks_to_wait 1)) (\<lambda>wake_at.
     let s = cli_insn s in
     andThen (block_until (current s) wake_at s) (schedule pr)))"

text \<open>The loop of \<open>exit\<close> over the tasks that wait for the exiting one.\<close>

fun release_waiters :: "u32 \<Rightarrow> u32 \<Rightarrow> nat list \<Rightarrow> 'a task_state_scheme \<Rightarrow> 'a task_state_scheme res" where
  "release_waiters our_pid code [] s = Inr s"
| "release_waiters our_pid code (i # is) s =
     andThen (get_task i s) (\<lambda>t.
       release_waiters our_pid code is
         (if tstate t = Blocked \<and> wait_for_pid t = Some our_pid
          then set_task i (t\<lparr>tstate := Ready, wait_for_pid := None, exit_code := code\<rparr>) s
          else s))"

definition exit_task ::
    "profile \<Rightarrow> u32 \<Rightarrow> 'a sched_state_scheme \<Rightarrow> ((nat \<times> nat) \<times> 'a sched_state_scheme) res" where
  "exit_task pr code s =
     (let s = cli_insn s; curr_idx = current s in
      andThen (get_task curr_idx s) (\<lambda>t.
      andThen (release_waiters (pid t) code [0..<MAX_TASKS] s) (\<lambda>s.
      andThen (terminate pr curr_idx code s) (\<lambda>s.
      andThen (schedule pr s) (\<lambda>(sw, s).
        case sw of
          Some sw \<Rightarrow> Inr (sw, s)
        | None \<Rightarrow> Inl (Panic ''internal error: entered unreachable code: exit: schedule() returned''))))))"

text \<open>
  One iteration of the loop of \<open>wait_for\<close>: it returns a code, or blocks and is \<open>Again\<close> at the
  top of the loop once \<open>schedule\<close> has returned.
\<close>

datatype wait_result = Returned u32 | Again "(nat \<times> nat) option"

definition wait_for ::
    "profile \<Rightarrow> u32 \<Rightarrow> 'a sched_state_scheme \<Rightarrow> (wait_result \<times> 'a sched_state_scheme) res" where
  "wait_for pr p s =
     (let s = cli_insn s in
      andThen (find_pid p s) (\<lambda>r.
      case r of
        None \<Rightarrow> Inr (Returned (-1), sti_insn s)
      | Some slot \<Rightarrow>
          andThen (get_task slot s) (\<lambda>t.
          if tstate t = Terminated then
            Inr (Returned (exit_code t), sti_insn (set_task slot (t\<lparr>tstate := Empty\<rparr>) s))
          else
            andThen (get_task (current s) s) (\<lambda>curr.
            andThen (schedule pr (set_task (current s)
                (curr\<lparr>tstate := Blocked, wait_for_pid := Some p\<rparr>) s)) (\<lambda>(sw, s).
              Inr (Again sw, s))))))"

section \<open>The round-robin choice\<close>

text \<open>The slots in the order in which \<open>schedule\<close> looks at them when \<open>c\<close> is running.\<close>

definition rotation :: "nat \<Rightarrow> nat list" where
  "rotation c = map (\<lambda>k. (c + 1 + k) mod 32) [0..<32]"

text \<open>How many slots come before \<open>j\<close> in that order.\<close>

definition cdist :: "nat \<Rightarrow> nat \<Rightarrow> nat" where
  "cdist c j = (j + 31 - c) mod 32"

definition demote :: "task list \<Rightarrow> nat \<Rightarrow> task list" where
  "demote ts c = (if tstate (ts ! c) = Running then ts[c := (ts ! c)\<lparr>tstate := Ready\<rparr>] else ts)"

definition chosen :: "task list \<Rightarrow> nat \<Rightarrow> nat option" where
  "chosen ts c = find (\<lambda>j. tstate (demote ts c ! j) = Ready) (rotation c)"

definition runs :: "task \<Rightarrow> task" where
  "runs t = t\<lparr>tstate := Running\<rparr>"

lemma cdist_eq:
  assumes "c < 32" "j < 32"
  shows "cdist c j = (if j \<le> c then j + 31 - c else j - c - 1)"
proof (cases "j \<le> c")
  case True
  then have "j + 31 - c < 32" by simp
  then show ?thesis using True by (simp add: cdist_def)
next
  case False
  then have "j + 31 - c = 32 + (j - c - 1)" by simp
  moreover have "j - c - 1 < 32" using assms by simp
  ultimately show ?thesis using False unfolding cdist_def by (metis mod_add_self1 mod_less)
qed

lemma wrap_32:
  fixes c k :: nat
  assumes "c < 32" "k < 32"
  shows "(c + 1 + k) mod 32 = (if c + 1 + k < 32 then c + 1 + k else c + 1 + k - 32)"
proof (cases "c + 1 + k < 32")
  case False
  then have "c + 1 + k = 32 + (c + 1 + k - 32)" by simp
  moreover have "c + 1 + k - 32 < 32" using assms by simp
  ultimately show ?thesis using False by (metis mod_add_self1 mod_less)
qed simp

lemma cdist_rotation:
  assumes "c < 32" "k < 32"
  shows "cdist c ((c + 1 + k) mod 32) = k"
proof -
  have "(c + 1 + k) mod 32 < 32" by simp
  then show ?thesis using assms wrap_32 [OF assms] by (subst cdist_eq) auto
qed

lemma rotation_cdist:
  assumes "c < 32" "j < 32"
  shows "(c + 1 + cdist c j) mod 32 = j \<and> cdist c j < 32"
proof -
  have "cdist c j < 32" by (simp add: cdist_def)
  then show ?thesis using assms wrap_32 [of c "cdist c j"] by (auto simp: cdist_eq)
qed

lemma cdist_self: "c < 32 \<Longrightarrow> cdist c c = 31"
  by (simp add: cdist_eq)

lemma cdist_less: "c < 32 \<Longrightarrow> j < 32 \<Longrightarrow> j \<noteq> c \<Longrightarrow> cdist c j < 31"
  by (auto simp: cdist_eq)

lemma cdist_advance:
  assumes "c < 32" "n < 32" "j < 32" "cdist c n < cdist c j"
  shows "cdist n j + (cdist c n + 1) = cdist c j"
  using assms by (cases "j \<le> c"; cases "n \<le> c"; cases "j \<le> n") (simp_all add: cdist_eq)

lemma length_demote [simp]: "length (demote ts c) = length ts"
  by (simp add: demote_def)

lemma nth_rotation [simp]: "k < 32 \<Longrightarrow> rotation c ! k = (c + 1 + k) mod 32" "length (rotation c) = 32"
  by (simp_all add: rotation_def del: upt_Suc)

lemma rotation_less: "j \<in> set (rotation c) \<Longrightarrow> j < 32"
  by (auto simp: rotation_def)

text \<open>The choice is the ready slot with the least distance.\<close>

lemma find_rotation_Some:
  assumes "c < 32"
  shows "find P (rotation c) = Some n \<longleftrightarrow> n < 32 \<and> P n \<and> (\<forall>j < 32. P j \<longrightarrow> cdist c n \<le> cdist c j)"
proof
  assume "find P (rotation c) = Some n"
  then obtain k where k: "k < 32" "P (rotation c ! k)" "n = rotation c ! k" "\<forall>i < k. \<not> P (rotation c ! i)"
    by (auto simp: find_Some_iff)
  have d: "cdist c n = k" using k cdist_rotation [OF assms k(1)] by simp
  have "cdist c n \<le> cdist c j" if j: "j < 32" "P j" for j
  proof (rule ccontr)
    assume "\<not> cdist c n \<le> cdist c j"
    then have "cdist c j < k" using d by simp
    moreover from this have "rotation c ! cdist c j = j" using k(1) rotation_cdist [OF assms j(1)] by simp
    ultimately show False using k(4) j(2) by metis
  qed
  moreover have "n < 32" using k(1,3) by simp
  ultimately show "n < 32 \<and> P n \<and> (\<forall>j < 32. P j \<longrightarrow> cdist c n \<le> cdist c j)" using k(2,3) by blast
next
  assume n: "n < 32 \<and> P n \<and> (\<forall>j < 32. P j \<longrightarrow> cdist c n \<le> cdist c j)"
  have at: "rotation c ! cdist c n = n" "cdist c n < 32" using rotation_cdist [of c n] assms n by simp_all
  have "\<not> P (rotation c ! i)" if "i < cdist c n" for i
    proof
    assume "P (rotation c ! i)"
    then have P: "P ((c + 1 + i) mod 32)" using that at(2) by simp
    have "i < 32" using that at(2) by linarith
    then have "cdist c n \<le> i" using n P cdist_rotation [OF assms] by (metis mod_less_divisor zero_less_numeral)
    then show False using that by simp
  qed
  then show "find P (rotation c) = Some n" unfolding find_Some_iff using at n by (intro exI [of _ "cdist c n"]) simp
qed

lemma find_rotation_None:
  assumes "c < 32" shows "find P (rotation c) = None \<longleftrightarrow> (\<forall>j < 32. \<not> P j)"
proof -
  have "set (rotation c) = {0..<32}"
    using rotation_cdist [OF assms] by (force simp: rotation_def)
  then show ?thesis by (auto simp: find_None_iff)
qed

lemma find_ready_eq:
  "length (tasks s) = 32 \<Longrightarrow> i < 32 \<Longrightarrow>
     find_ready pr n i s =
       Inr (case find (\<lambda>j. tstate (tasks s ! j) = Ready) (map (\<lambda>k. (i + k) mod 32) [0..<n]) of
              Some j \<Rightarrow> (j, True) | None \<Rightarrow> ((i + n) mod 32, False))"
proof (induction n arbitrary: i)
  case (Suc n)
  have "map (\<lambda>k. (i + k) mod 32) [0..<Suc n] = i # map (\<lambda>k. ((i + 1) mod 32 + k) mod 32) [0..<n]"
    using Suc.prems(2) by (simp add: upt_conv_Cons map_Suc_upt [symmetric] mod_simps o_def del: upt_Suc)
  moreover have "((i + 1) mod 32 + n) mod 32 = (i + Suc n) mod 32" by (simp add: mod_simps)
  ultimately show ?case
    using Suc.prems Suc.IH [of "(i + 1) mod 32"]
    by (simp add: get_task_def del: upt_Suc Suc_eq_plus1 [symmetric] split: option.split)
      (simp add: ac_simps)?
qed simp

lemma find_ready_rotation:
  "length (tasks s) = 32 \<Longrightarrow> c < 32 \<Longrightarrow>
     find_ready pr 32 ((c + 1) mod 32) s =
       Inr (case find (\<lambda>j. tstate (tasks s ! j) = Ready) (rotation c) of
              Some j \<Rightarrow> (j, True) | None \<Rightarrow> ((c + 33) mod 32, False))"
proof -
  have "((c + 1) mod 32 + k) mod 32 = (c + 1 + k) mod 32" for k by (simp only: mod_simps)
  moreover have "c + 1 + 32 = c + 33" by simp
  ultimately show "length (tasks s) = 32 \<Longrightarrow> c < 32 \<Longrightarrow> ?thesis"
    by (subst find_ready_eq) (simp_all only: rotation_def mod_less_divisor zero_less_numeral)
qed

section \<open>What \<open>schedule\<close> does\<close>

lemma prints_switch: "c < usize_lim \<Longrightarrow> n < usize_lim \<Longrightarrow> prints (print_switch pr c n)"
  unfolding print_switch_def [abs_def] by (intro prints_andThen prints_basic; assumption)

lemma acquire_eq:
  "\<not> task_lock s \<Longrightarrow>
     acquire s = Inr (rflags_reg s, s\<lparr>rflags_reg := cli (rflags_reg s), task_lock := True\<rparr>)"
  by (simp add: acquire_def save_and_cli_def)

lemma table_okD: "table_ok s \<Longrightarrow> length (tasks s) = 32" "table_ok s \<Longrightarrow> current s < 32"
  by (simp_all add: table_ok_def)

lemma find_demoted:
  assumes "table_ok s" "tasks s' = demote (tasks s) (current s)"
  shows "find_ready pr 32 ((current s + 1) mod 32) s' =
    Inr (case chosen (tasks s) (current s) of
           Some j \<Rightarrow> (j, True) | None \<Rightarrow> ((current s + 33) mod 32, False))"
  using find_ready_rotation [of s' "current s" pr] table_okD [OF assms(1)]
  by (simp add: assms(2) chosen_def)

lemma demote_set_task:
  "tasks (if tstate (tasks s ! c) = Running then set_task c ((tasks s ! c)\<lparr>tstate := Ready\<rparr>) s else s) =
     demote (tasks s) c"
  by (simp add: demote_def)

lemma schedule_result:
  fixes s :: "'a sched_state_scheme"
  assumes ok: "table_ok s" and free: "\<not> task_lock s" and ser: "serial_good s"
  defines "c \<equiv> current s"
  shows "case chosen (tasks s) c of
      None \<Rightarrow> schedule pr s = Inr (None, s\<lparr>tasks := (tasks s)[c := runs (tasks s ! c)]\<rparr>)
    | Some n \<Rightarrow>
        if n = c then schedule pr s = Inr (None, s\<lparr>tasks := (tasks s)[c := runs (tasks s ! c)]\<rparr>)
        else \<exists>bs. schedule pr s = Inr (Some (c, n),
          s\<lparr>tasks := (demote (tasks s) c)[n := runs (tasks s ! n)], current := n,
            ticks_on_current := 0, io_log := tx_log (dev_in s) (io_log s) bs\<rparr>)"
proof -
  note len = table_okD [OF ok]
  have c: "c < 32" "c < length (tasks s)" using len by (simp_all add: c_def)
  define s1 where "s1 = s\<lparr>rflags_reg := cli (rflags_reg s), task_lock := True\<rparr>"
  define s2 where "s2 = (if tstate (tasks s ! c) = Running then set_task c ((tasks s ! c)\<lparr>tstate := Ready\<rparr>) s1 else s1)"
  have s2: "s2 = s1\<lparr>tasks := demote (tasks s) c\<rparr>" by (simp add: s2_def s1_def demote_def set_task_def)
  have fr: "find_ready pr 32 ((c + 1) mod 32) s2 =
      Inr (case chosen (tasks s) c of Some j \<Rightarrow> (j, True) | None \<Rightarrow> ((c + 33) mod 32, False))"
    unfolding c_def by (rule find_demoted [OF ok]) (simp add: s2 c_def)
  have get1: "get_task c s1 = Inr (tasks s ! c)" using c by (simp add: get_task_def s1_def)
  have get2: "get_task i s2 = Inr (demote (tasks s) c ! i)" if "i < 32" for i
    using that len(1) by (simp add: get_task_def s2)
  have acq: "acquire s = Inr (rflags_reg s, s1)" unfolding s1_def by (rule acquire_eq [OF free])
  have cur: "current s1 = c" "uadd pr c 1 = Inr (c + 1)" using c by (simp_all add: s1_def c_def)
  have idle: "tstate (demote (tasks s) c ! c) \<noteq> Running" using c by (simp add: demote_def)
  have stay: "drop_guard (rflags_reg s) (set_task c ((demote (tasks s) c ! c)\<lparr>tstate := Running\<rparr>) s2) =
      s\<lparr>tasks := (tasks s)[c := runs (tasks s ! c)]\<rparr>"
    using free c by (intro sched_state.equality)
      (simp_all add: drop_guard_def restore_flags_def set_task_def runs_def demote_def s1_def s2)
  note start = schedule_def acq andThen.simps prod.case Let_def cur get1 s2_def [symmetric]
    MAX_TASKS_def fr get2 [OF c(1)]
  show ?thesis
  proof (cases "chosen (tasks s) c")
    case None
    have "schedule pr s = Inr (None, s\<lparr>tasks := (tasks s)[c := runs (tasks s ! c)]\<rparr>)"
      by (simp only: start None option.case idle not_False_eq_True simp_thms if_True if_False stay)
    then show ?thesis by (simp only: None option.case)
  next
    case (Some n)
    show ?thesis
    proof (cases "n = c")
      case True
      have "schedule pr s = Inr (None, s\<lparr>tasks := (tasks s)[c := runs (tasks s ! c)]\<rparr>)"
        by (simp only: start Some True option.case simp_thms if_True if_False stay)
      then show ?thesis by (simp only: Some True option.case simp_thms if_True)
    next
      case False
      have n: "n < 32" using Some by (auto simp: chosen_def find_rotation_Some [OF c(1)])
      define s3 where "s3 = (set_task n ((demote (tasks s) c ! n)\<lparr>tstate := Running\<rparr>) (s2\<lparr>current := n\<rparr>))
          \<lparr>ticks_on_current := 0\<rparr>"
      have ser3: "serial_good s3" using ser by (simp add: s3_def s2 s1_def)
      have lim: "c < usize_lim" "n < usize_lim" using c n by simp_all
      have log3: "dev_in s3 = dev_in s" "io_log s3 = io_log s" by (simp_all add: s3_def s2 s1_def)
      obtain bs where "print_switch pr c n s3 = Inr (s3\<lparr>io_log := tx_log (dev_in s) (io_log s) bs\<rparr>)"
        using prints_switch [OF lim, of pr] ser3 unfolding prints_def by (metis log3)
      moreover define l where "l = tx_log (dev_in s) (io_log s) bs"
      ultimately have l: "print_switch pr c n s3 = Inr (s3\<lparr>io_log := l\<rparr>)" by simp
      have fin: "drop_guard (rflags_reg s) (s3\<lparr>io_log := l\<rparr>) =
          s\<lparr>tasks := (demote (tasks s) c)[n := runs (tasks s ! n)], current := n,
            ticks_on_current := 0, io_log := l\<rparr>"
        using free False by (intro sched_state.equality)
          (simp_all add: drop_guard_def restore_flags_def set_task_def runs_def demote_def s3_def s2 s1_def)
      have "schedule pr s = Inr (Some (c, n), s\<lparr>tasks := (demote (tasks s) c)[n := runs (tasks s ! n)],
          current := n, ticks_on_current := 0, io_log := l\<rparr>)"
        by (simp only: start Some option.case False simp_thms if_False get2 [OF n] s3_def [symmetric] l fin)
      then have "\<exists>bs. schedule pr s = Inr (Some (c, n),
          s\<lparr>tasks := (demote (tasks s) c)[n := runs (tasks s ! n)], current := n,
            ticks_on_current := 0, io_log := tx_log (dev_in s) (io_log s) bs\<rparr>)" unfolding l_def by (rule exI [of _ bs])
      then show ?thesis by (simp only: Some option.case False if_False)
    qed
  qed
qed

section \<open>The context switch saves and restores a task\<close>

definition callee_saved :: "reg list" where
  "callee_saved = [R15, R14, R13, R12, RBX, RBP]"

text \<open>The registers and the return address as they lie on the stack of a task that is switched out.\<close>

definition switch_frame :: "(nat \<Rightarrow> u64) \<Rightarrow> nat \<Rightarrow> u64 list" where
  "switch_frame m b = map (\<lambda>i. m (b + 8 * i)) [0..<7]"

definition save_code :: "instr list" where
  "save_code = take 7 switch_to"

definition load_code :: "instr list" where
  "load_code = drop 7 switch_to"

lemma switch_to_split: "switch_to = save_code @ load_code"
  by (simp add: save_code_def load_code_def)

text \<open>Addresses of the 64-bit cells from \<open>a\<close> up to \<open>b\<close> that an access at \<open>x\<close> can touch.\<close>

definition apart :: "nat \<Rightarrow> nat \<Rightarrow> nat \<Rightarrow> bool" where
  "apart x a b \<longleftrightarrow> x + 8 \<le> a \<or> b \<le> x"

lemma save_code_effect:
  assumes "48 \<le> sp c"
  shows "exec_all f save_code c = c\<lparr>sp := sp c - 48,
    mem := (mem c)(sp c - 8 := gpr c RBP, sp c - 16 := gpr c RBX, sp c - 24 := gpr c R12,
      sp c - 32 := gpr c R13, sp c - 40 := gpr c R14, sp c - 48 := gpr c R15,
      unat (gpr c RDI) := of_nat (sp c - 48))\<rparr>"
  using assms by (simp add: save_code_def switch_to_def push_def)

lemma load_code_effect:
  assumes "unat (mem c (unat (gpr c RSI))) = n"
  shows "exec_all f load_code c = c\<lparr>sp := n + 56, ip := mem c (n + 48),
    gpr := (gpr c)(R15 := mem c n, R14 := mem c (n + 8), R13 := mem c (n + 16), R12 := mem c (n + 24),
      RBX := mem c (n + 32), RBP := mem c (n + 40))\<rparr>"
  using assms by (simp add: load_code_def switch_to_def add.assoc)

definition switch_ok :: "cpu \<Rightarrow> nat \<Rightarrow> bool" where
  "switch_ok c n \<longleftrightarrow>
     48 \<le> sp c \<and> sp c + 8 \<le> usize_lim \<and> unat (mem c (unat (gpr c RSI))) = n \<and>
     apart (unat (gpr c RDI)) (sp c - 48) (sp c + 8) \<and> apart (unat (gpr c RSI)) (sp c - 48) (sp c) \<and>
     apart (unat (gpr c RDI)) (unat (gpr c RSI)) (unat (gpr c RSI) + 8) \<and>
     apart (unat (gpr c RDI)) n (n + 56) \<and> (n + 56 \<le> sp c - 48 \<or> sp c \<le> n)"

lemma switch_frame_eq:
  "switch_frame m b = [m b, m (b + 8), m (b + 16), m (b + 24), m (b + 32), m (b + 40), m (b + 48)]"
  by (simp add: switch_frame_def upt_rec)

lemma switch_to_effect:
  fixes f :: callee
  assumes "switch_ok c n"
  defines "d \<equiv> exec_all f switch_to c"
  shows "sp d = n + 56" "ip d = mem c (n + 48)"
    "map (gpr d) callee_saved @ [mem c (n + 48)] = switch_frame (mem c) n"
    "unat (mem d (unat (gpr c RDI))) = sp c - 48"
    "switch_frame (mem d) (sp c - 48) = map (gpr c) callee_saved @ [mem c (sp c)]"
proof -
  define b where "b = sp c - 48"
  have sp: "sp c = b + 48" and lim: "b + 56 \<le> usize_lim" using assms(1) by (simp_all add: switch_ok_def b_def)
  let ?di = "unat (gpr c RDI)" and ?si = "unat (gpr c RSI)"
  have at: "apart ?di b (b + 56)" "apart ?si b (b + 48)" "apart ?di ?si (?si + 8)" "apart ?di n (n + 56)"
    "n + 56 \<le> b \<or> b + 48 \<le> n" "unat (mem c ?si) = n"
    using assms(1) sp by (simp_all add: switch_ok_def add.commute [of 56])
  define m where "m = (mem c)(b + 40 := gpr c RBP, b + 32 := gpr c RBX, b + 24 := gpr c R12,
      b + 16 := gpr c R13, b + 8 := gpr c R14, b := gpr c R15, ?di := of_nat b)"
  have save: "exec_all f save_code c = c\<lparr>sp := b, mem := m\<rparr>"
    using save_code_effect [of c f] sp by (simp add: m_def add.commute [of b])
  have keep: "m a = mem c a" if "apart a b (b + 48)" "a \<noteq> ?di" for a
    using that by (auto simp: m_def apart_def)
  have si: "m ?si = mem c ?si" using at by (intro keep) (auto simp: apart_def)
  have fr: "m (n + i) = mem c (n + i)" if "i + 8 \<le> 56" for i
    using at(4,5) that by (intro keep) (auto simp: apart_def)
  have n: "unat (mem (c\<lparr>sp := b, mem := m\<rparr>) (unat (gpr (c\<lparr>sp := b, mem := m\<rparr>) RSI))) = n"
    using si at(6) by simp
  have d: "d = c\<lparr>sp := n + 56, mem := m, ip := mem c (n + 48),
      gpr := (gpr c)(R15 := mem c n, R14 := mem c (n + 8), R13 := mem c (n + 16), R12 := mem c (n + 24),
        RBX := mem c (n + 32), RBP := mem c (n + 40))\<rparr>"
    using load_code_effect [OF n, of f] fr [of 0] fr [of 8] fr [of 16] fr [of 24] fr [of 32] fr [of 40] fr [of 48]
    by (simp add: d_def switch_to_split exec_all_append save)
  show "sp d = n + 56" "ip d = mem c (n + 48)" by (simp_all add: d)
  show "map (gpr d) callee_saved @ [mem c (n + 48)] = switch_frame (mem c) n"
    by (simp add: d callee_saved_def switch_frame_eq)
  have "unat (of_nat b :: u64) = b" using lim by (simp add: unat_of_nat)
  then show "unat (mem d ?di) = sp c - 48" by (simp add: d m_def sp)
  have ne: "?di \<noteq> b + 8 * i" if "i < 7" for i using at(1) that by (auto simp: apart_def)
  have "switch_frame (mem d) b = map (gpr c) callee_saved @ [mem c (b + 48)]"
    using ne [of 0] ne [of 1] ne [of 2] ne [of 3] ne [of 4] ne [of 5] ne [of 6]
    by (simp add: d m_def switch_frame_eq callee_saved_def)
  then show "switch_frame (mem d) (sp c - 48) = map (gpr c) callee_saved @ [mem c (sp c)]" by (simp add: sp)
qed

text \<open>
  C11: A task that is switched out and later switched back in continues where it called
  \<open>switch_to\<close>: if nothing wrote its saved frame or its saved stack pointer in between, the second
  \<open>switch_to\<close> (from whatever task, on whatever other stack) leaves the stack pointer just above the
  return address of the first call, jumps to that address, and has every callee-saved register
  back at its value.
\<close>

theorem switch_roundtrip:
  assumes "switch_ok c n" "c1 = exec_all f switch_to c"
    and "switch_frame (mem c2) (sp c - 48) = switch_frame (mem c1) (sp c - 48)"
    and "gpr c2 RSI = gpr c RDI" "mem c2 (unat (gpr c RDI)) = mem c1 (unat (gpr c RDI))"
    and "switch_ok c2 m"
  shows "sp (exec_all f switch_to c2) = sp c + 8 \<and> ip (exec_all f switch_to c2) = mem c (sp c) \<and>
    map (gpr (exec_all f switch_to c2)) callee_saved = map (gpr c) callee_saved"
proof -
  note out = switch_to_effect [OF assms(1), of f, folded assms(2)]
  have m: "m = sp c - 48" using assms(4-6) out(4) by (simp add: switch_ok_def)
  note back_in = switch_to_effect [OF assms(6), of f, unfolded m]
  have "48 \<le> sp c" using assms(1) by (simp add: switch_ok_def)
  moreover have "map (gpr (exec_all f switch_to c2)) callee_saved @ [mem c2 (sp c - 48 + 48)] =
      map (gpr c) callee_saved @ [mem c (sp c)]"
    using back_in(3) out(5) assms(3) by simp
  ultimately show ?thesis using back_in(1,2) by simp
qed

definition small_cpu :: cpu where
  "small_cpu = \<lparr>gpr = (\<lambda>r. 7)(RDI := 0x5000, RSI := 0x5008), sp = 0x1000, ip = 0, flags = 2,
     code_seg = 0x28, stack_seg = 0x30, mem = (\<lambda>a. 0)(0x5008 := 0x2000, 0x1000 := 0x1234)\<rparr>"

theorem switch_roundtrip_witness:
  "let c1 = exec_all (\<lambda>g m. (g, m)) switch_to small_cpu;
       c2 = c1\<lparr>gpr := (gpr c1)(RDI := 0x5008, RSI := 0x5000)\<rparr>;
       d = exec_all (\<lambda>g m. (g, m)) switch_to c2 in
   sp d = 0x1008 \<and> ip d = 0x1234 \<and> gpr d R15 = 7 \<and> sp c1 = 0x2038"
proof -
  let ?f = "\<lambda>(g :: reg \<Rightarrow> u64) (m :: nat \<Rightarrow> u64). (g, m)"
  let ?c1 = "exec_all ?f switch_to small_cpu"
  let ?c2 = "?c1\<lparr>gpr := (gpr ?c1)(RDI := 0x5008, RSI := 0x5000)\<rparr>"
  have ok: "switch_ok small_cpu 0x2000" by (simp add: switch_ok_def small_cpu_def apart_def)
  have sp1: "sp ?c1 = 0x2038" using switch_to_effect(1) [OF ok] by simp
  have "switch_ok ?c2 (0x1000 - 48)"
    by (simp add: switch_ok_def small_cpu_def apart_def switch_to_def push_def)
  then show ?thesis
    using switch_roundtrip [OF ok refl, of ?c2 ?f "0x1000 - 48"] sp1
    by (simp add: Let_def callee_saved_def small_cpu_def)
qed

lemma created_start:
  assumes "created slot nm entry s s'" "slot < length (tasks s)"
    and "\<forall>a. t_rsp (tasks s' ! slot) \<le> a \<and> a < stack_top (tasks s' ! slot) \<longrightarrow> mem c a = cells s' a"
    and "switch_ok c (t_rsp (tasks s' ! slot))"
  shows "ip (exec_all f switch_to c) = entry \<and>
    sp (exec_all f switch_to c) = stack_top (tasks s' ! slot) \<and>
    map (gpr (exec_all f switch_to c)) callee_saved = replicate 6 0"
proof -
  obtain t where t: "tasks s' = (tasks s)[slot := t]" "t_rsp t + 56 = stack_top t"
    "\<forall>i < 6. cells s' (t_rsp t + 8 * i) = 0" "cells s' (t_rsp t + 48) = entry"
    using assms(1) unfolding created_def by blast
  have ts: "tasks s' ! slot = t" using t(1) assms(2) by simp
  have m: "mem c (t_rsp t + i) = cells s' (t_rsp t + i)" if "i < 56" for i
    using assms(3) that t(2) unfolding ts by simp
  have z: "mem c (t_rsp t + 8 * i) = 0" if "i < 6" for i using m [of "8 * i"] t(3) that by simp
  note eff = switch_to_effect [OF assms(4), of f, unfolded ts]
  have "switch_frame (mem c) (t_rsp t) = replicate 6 0 @ [entry]"
    using z [of 0] z [of 1] z [of 2] z [of 3] z [of 4] z [of 5] m [of 48] t(4)
    by (simp add: switch_frame_eq numeral_eq_Suc)
  then show ?thesis using eff(1-3) m [of 48] t(2,4) unfolding ts by simp
qed

text \<open>
  C24: A task that \<open>new_kernel_task\<close> creates starts at its entry function. Whenever the call returns a pid, there is a
  slot that was empty and now holds a ready task with that pid, and switching to it, from any stack and with any
  registers, while its initial frame (the 56 bytes below the top of its stack) is as the call left it,
  lands on the entry address with the stack pointer at the top of the task's own
  stack and zero in every callee-saved register.
\<close>

theorem fresh_task_start:
  assumes "vm_inv s" "table_ok s" "serial_good s" "next_pid s \<noteq> -1"
    and "new_kernel_task pr nm entry s = Inr (Some p, s')"
  shows "\<exists>slot < 32. tstate (tasks s ! slot) = Empty \<and> tstate (tasks s' ! slot) = Ready \<and> pid (tasks s' ! slot) = p \<and>
    t_rsp (tasks s' ! slot) + 56 = stack_top (tasks s' ! slot) \<and>
    (\<forall>c f. (\<forall>a. t_rsp (tasks s' ! slot) \<le> a \<and> a < stack_top (tasks s' ! slot) \<longrightarrow> mem c a = cells s' a) \<and>
        switch_ok c (t_rsp (tasks s' ! slot)) \<longrightarrow>
      ip (exec_all f switch_to c) = entry \<and>
      sp (exec_all f switch_to c) = stack_top (tasks s' ! slot) \<and>
      map (gpr (exec_all f switch_to c)) callee_saved = replicate 6 0)"
proof -
  note r = new_kernel_task_result [OF assms(1-4), of pr nm entry]
  obtain slot where slot: "find (\<lambda>i. tstate (tasks s ! i) = Empty) [0..<32] = Some slot"
    using r assms(5) by (cases "find (\<lambda>i. tstate (tasks s ! i) = Empty) [0..<32]") (simp_all del: upt_Suc)
  have "\<not> card (free_pages s) < 2" using r assms(5) unfolding slot option.case by (auto split: if_splits)
  then obtain s1 where "new_kernel_task pr nm entry s = Inr (Some (next_pid s), s1)" "created slot nm entry s s1"
    using r unfolding slot option.case if_not_P [OF \<open>\<not> card (free_pages s) < 2\<close>] by blast
  then have cr: "created slot nm entry s s'" "p = next_pid s" using assms(5) by simp_all
  have e: "slot < 32" "tstate (tasks s ! slot) = Empty" using slot unfolding find_upt_Some by blast+
  then have len: "slot < length (tasks s)" using assms(2) by (simp add: table_ok_def)
  obtain t where t: "tasks s' = (tasks s)[slot := t]" "tstate t = Ready" "pid t = next_pid s" "t_rsp t + 56 = stack_top t"
    using cr(1) unfolding created_def by blast
  have "tasks s' ! slot = t" using t(1) len by simp
  then show ?thesis using e t(2-4) cr(2) created_start [OF cr(1) len]
    by (intro exI [of _ slot]) blast
qed

theorem fresh_task_start_witness:
  "\<exists>s' c. new_kernel_task Dev [] 0x4000 small_tasks = Inr (Some 1, s') \<and>
     ip (exec_all (\<lambda>g m. (g, m)) switch_to c) = 0x4000"
proof -
  have "find (\<lambda>i. tstate (tasks small_tasks ! i) = Empty) [0..<32] = Some 0"
    unfolding find_upt_Some by (simp add: small_tasks_ok initial_tasks_def task_empty_def)
  then have slot: "alloc_slot small_tasks = Inr (Some 0)" using small_tasks_ok(2) by (simp add: alloc_slot_eq)
  obtain s' where s': "new_kernel_task Dev [] 0x4000 small_tasks = Inr (Some 1, s')"
    "created 0 [] 0x4000 small_tasks s'"
    using new_kernel_task_success [OF small_tasks_ok(1-3) slot, of Dev "[]" "0x4000"] small_tasks_ok(4,5) by auto
  have len: "length (tasks small_tasks) = 32" using small_tasks_ok(6) by (simp add: initial_tasks_def)
  obtain f1 t where t: "f1 \<in> avail_frames small_tasks" "tasks s' = (tasks small_tasks)[0 := t]"
    "stack_top t = f1 + PAGE_SIZE + hhdm_offset small_tasks" "t_rsp t + 56 = stack_top t"
    using s'(2) unfolding created_def by blast
  have pid0: "next_pid small_tasks \<noteq> -1" by (simp add: small_tasks_ok(4))
  obtain k where k: "k < 32" "tstate (tasks s' ! k) = Ready"
    and start: "\<And>c. \<forall>a. t_rsp (tasks s' ! k) \<le> a \<and> a < stack_top (tasks s' ! k) \<longrightarrow> mem c a = cells s' a \<Longrightarrow>
        switch_ok c (t_rsp (tasks s' ! k)) \<Longrightarrow> ip (exec_all (\<lambda>g m. (g, m)) switch_to c) = 0x4000"
    using fresh_task_start [OF small_tasks_ok(1-3) pid0 s'(1)] by blast
  have k0: "k = 0"
  proof (rule ccontr)
    assume "k \<noteq> 0"
    then have "tasks s' ! k = task_empty" using k(1) t(2) by (simp add: small_tasks_ok(6) initial_tasks_def)
    then show False using k(2) by (simp add: task_empty_def)
  qed
  have tk: "tasks s' ! k = t" using t(2) len k0 by simp
  have "f1 \<in> {10 * 4096, 11 * 4096, 12 * 4096, 13 * 4096, 14 * 4096}"
    using t(1) by (auto simp: avail_frames_def small_tasks_ok)
  then have n: "0x6000 < t_rsp t" "t_rsp t + 56 < usize_lim"
    using t(3,4) by (auto simp: small_tasks_def small_vmm_def)
  let ?c = "small_cpu\<lparr>mem := (cells s')(0x5008 := of_nat (t_rsp t))\<rparr>"
  have "unat (of_nat (t_rsp t) :: u64) = t_rsp t" using n(2) by (simp add: unat_of_nat)
  then have "switch_ok ?c (t_rsp (tasks s' ! k))"
    using n by (simp add: switch_ok_def small_cpu_def apart_def tk)
  moreover have "\<forall>a. t_rsp (tasks s' ! k) \<le> a \<and> a < stack_top (tasks s' ! k) \<longrightarrow> mem ?c a = cells s' a"
    using n by (auto simp: tk)
  ultimately show ?thesis using start [of ?c] s'(1) by blast
qed

text \<open>
  C10: \<open>schedule\<close> is round robin: from any table with the lock free it gives the processor to the
  nearest runnable slot after the current one in cyclic order (a running current task counts as
  runnable and comes last), keeps the current task when it is the only runnable one, marks exactly
  the new task as running and the old one as ready if it was running, restarts the time slice only
  when it switches, and gives back the lock and the interrupt flag as it found them. With no
  runnable task it returns to the caller and marks it as running.
\<close>

theorem schedule_round_robin:
  fixes s :: "'a sched_state_scheme"
  assumes "table_ok s" "\<not> task_lock s" "serial_good s"
  defines "c \<equiv> current s"
    and "runnable \<equiv> \<lambda>i. tstate (tasks s ! i) = Ready \<or> i = current s \<and> tstate (tasks s ! i) = Running"
  shows "if \<exists>i < 32. runnable i
    then \<exists>n < 32. runnable n \<and> (\<forall>i < 32. runnable i \<longrightarrow> cdist c n \<le> cdist c i) \<and>
      (if n = c then schedule pr s = Inr (None, s\<lparr>tasks := (tasks s)[c := runs (tasks s ! c)]\<rparr>)
       else \<exists>bs. schedule pr s = Inr (Some (c, n),
         s\<lparr>tasks := (demote (tasks s) c)[n := runs (tasks s ! n)], current := n,
           ticks_on_current := 0, io_log := tx_log (dev_in s) (io_log s) bs\<rparr>))
    else schedule pr s = Inr (None, s\<lparr>tasks := (tasks s)[c := runs (tasks s ! c)]\<rparr>)"
proof -
  have c: "c < 32" "length (tasks s) = 32" using table_okD [OF assms(1)] by (simp_all add: c_def)
  have ready: "tstate (demote (tasks s) c ! i) = Ready \<longleftrightarrow> runnable i" if "i < 32" for i
    using that c by (auto simp: demote_def runnable_def c_def nth_list_update)
  note res = schedule_result [OF assms(1-3), of pr, folded c_def]
  show ?thesis
  proof (cases "chosen (tasks s) c")
    case None
    then have "\<not> (\<exists>i < 32. runnable i)"
      using ready unfolding chosen_def find_rotation_None [OF c(1)] by blast
    then show ?thesis using res unfolding None option.case by (simp only: if_False simp_thms)
  next
    case (Some n)
    then have n: "n < 32" "runnable n" "\<forall>i < 32. runnable i \<longrightarrow> cdist c n \<le> cdist c i"
      using ready unfolding chosen_def find_rotation_Some [OF c(1)] by blast+
    then have ex: "\<exists>i < 32. runnable i" by blast
    have r: "if n = c then schedule pr s = Inr (None, s\<lparr>tasks := (tasks s)[c := runs (tasks s ! c)]\<rparr>)
       else \<exists>bs. schedule pr s = Inr (Some (c, n),
         s\<lparr>tasks := (demote (tasks s) c)[n := runs (tasks s ! n)], current := n,
           ticks_on_current := 0, io_log := tx_log (dev_in s) (io_log s) bs\<rparr>)"
      using res unfolding Some option.case .
    show ?thesis unfolding if_P [OF ex] by (rule exI [of _ n]) (intro conjI n r)
  qed
qed

definition three_tasks :: sched_state where
  "three_tasks = (undefined :: sched_state)\<lparr>dev_in := (\<lambda>l p. 0xff), task_lock := False, current := 30,
     tasks := initial_tasks[30 := task_empty\<lparr>tstate := Running\<rparr>, 2 := task_empty\<lparr>tstate := Ready\<rparr>,
       5 := task_empty\<lparr>tstate := Ready\<rparr>]\<rparr>"

theorem schedule_round_robin_witness:
  "\<exists>s'. schedule Dev three_tasks = Inr (Some (30, 2), s') \<and> current s' = 2"
proof -
  let ?ts = "tasks three_tasks"
  have st: "tstate (?ts ! i) = (if i = 30 then Running else if i = 2 \<or> i = 5 then Ready else Empty)" if "i < 32" for i
    using that by (simp add: three_tasks_def initial_tasks_def task_empty_def nth_list_update)
  have len: "length ?ts = 32" by (simp add: three_tasks_def initial_tasks_def)
  have "length (tname (?ts ! i)) = 16" if "i < 32" for i
    using that by (simp add: three_tasks_def initial_tasks_def task_empty_def nth_list_update)
  then have "\<forall>t \<in> set ?ts. length (tname t) = 16" using len by (auto simp: in_set_conv_nth)
  then have ok: "table_ok three_tasks" "\<not> task_lock three_tasks" "serial_good three_tasks"
    using len by (simp_all add: table_ok_def uart_ready_ff) (simp_all add: three_tasks_def uart_ready_ff)
  have cur: "current three_tasks = 30" by (simp add: three_tasks_def)
  let ?r = "\<lambda>i. tstate (?ts ! i) = Ready \<or> i = current three_tasks \<and> tstate (?ts ! i) = Running"
  have r2: "?r 2" by (simp add: st)
  then have ex: "\<exists>i < 32. ?r i" by (intro exI [of _ 2]) simp
  obtain n where n: "n < 32" "?r n" "\<forall>i < 32. ?r i \<longrightarrow> cdist 30 n \<le> cdist 30 i"
    "if n = 30 then schedule Dev three_tasks = Inr (None, three_tasks\<lparr>tasks := ?ts[30 := runs (?ts ! 30)]\<rparr>)
     else \<exists>bs. schedule Dev three_tasks = Inr (Some (30, n), three_tasks\<lparr>tasks := (demote ?ts 30)[n := runs (?ts ! n)],
           current := n, ticks_on_current := 0, io_log := tx_log (dev_in three_tasks) (io_log three_tasks) bs\<rparr>)"
    using schedule_round_robin [OF ok, of Dev] unfolding cur if_P [OF ex [unfolded cur]] by blast
  have "n \<in> {2, 5, 30}" using n(1,2) st [of n] by (auto simp: cur split: if_splits)
  moreover have "cdist 30 n \<le> cdist 30 2" by (rule n(3) [rule_format, OF _ r2]) simp
  ultimately have "n = 2" by (auto simp: cdist_eq)
  then show ?thesis using n(4) by auto
qed

end
