(* ===== verification/Pit.thy ===== *)
theory Pit
  imports Scheduler
begin

text \<open>
  The timer (\<open>interrupt/pit.rs\<close>): programming channel 0, the tick handler, which drives the
  scheduler, the tick counter, and the busy sleep that halts between interrupts.
\<close>

section \<open>Operations\<close>

definition PIT_CHANNEL0 :: u16 where "PIT_CHANNEL0 = 0x40"
definition PIT_COMMAND :: u16 where "PIT_COMMAND = 0x43"
definition PIT_BASE_FREQUENCY :: u32 where "PIT_BASE_FREQUENCY = 1193182"

definition pit_init :: "'a idt_state_scheme \<Rightarrow> 'a idt_state_scheme res" where
  "pit_init s =
     (let divisor = PIT_BASE_FREQUENCY div TICKS_PER_SECOND in
      andThen (ensure (divisor \<le> 0xffff) ''PIT: divisor overflow - frequency too low'') (\<lambda>_.
      let s = outb PIT_COMMAND 0x36 s;
          s = outb PIT_CHANNEL0 (ucast (divisor AND 0xff)) s;
          s = outb PIT_CHANNEL0 (ucast (drop_bit 8 divisor AND 0xff)) s in
      register_irq_handler 0 On_tick s))"

definition on_tick ::
    "profile \<Rightarrow> 'a sched_state_scheme \<Rightarrow> ((nat \<times> nat) option \<times> 'a sched_state_scheme) res" where
  "on_tick pr s = (let s = s\<lparr>tick_count := tick_count s + 1\<rparr> in tick pr (tick_count s) s)"

text \<open>
  The loop of \<open>sleep_ms\<close>; \<open>hlt\<close> is what the machine does from one \<open>hlt\<close> to the next instruction,
  handlers included.
\<close>

partial_function (option) hlt_until ::
    "('s \<Rightarrow> 's) \<Rightarrow> ('s \<Rightarrow> u64) \<Rightarrow> u64 \<Rightarrow> u64 \<Rightarrow> 's \<Rightarrow> 's option" where
  "hlt_until hlt now start ticks_to_wait s =
     (if now s - start < ticks_to_wait then hlt_until hlt now start ticks_to_wait (hlt s) else Some s)"

definition pit_sleep_ms ::
    "profile \<Rightarrow> ('a sched_state_scheme \<Rightarrow> 'a sched_state_scheme) \<Rightarrow> u64 \<Rightarrow> 'a sched_state_scheme \<Rightarrow>
     'a sched_state_scheme res" where
  "pit_sleep_ms pr hlt ms s =
     andThen (wmul pr ms (ucast TICKS_PER_SECOND)) (\<lambda>x.
     andThen (wadd pr x 999) (\<lambda>y.
       case hlt_until hlt ticks (ticks s) (y div 1000) s of None \<Rightarrow> Inl Hang | Some s' \<Rightarrow> Inr s'))"

section \<open>Programming the timer\<close>

text \<open>The divisor written in two bytes, and the frequency it gives.\<close>

lemma pit_divisor:
  "PIT_BASE_FREQUENCY div TICKS_PER_SECOND = 11931"
  "11931 * 100 \<le> (1193182 :: nat) \<and> 1193182 < 11932 * (100 :: nat)"
  by (simp_all add: PIT_BASE_FREQUENCY_def TICKS_PER_SECOND_def)

lemma pit_init_eq:
  assumes "length (irq_handles s) = 16"
  shows "pit_init s = Inr (s\<lparr>io_log := io_log s @ [Out 0x43 0x36, Out 0x40 0x9b, Out 0x40 0x2e],
    irq_handles := (irq_handles s)[0 := Some On_tick]\<rparr>)"
  using assms
  by (simp add: pit_init_def pit_divisor register_irq_handler_def outb_def PIT_COMMAND_def PIT_CHANNEL0_def Let_def)

section \<open>The busy sleep\<close>

text \<open>
  It returns when the counter has advanced far enough, in at most that many halts when every halt
  sees a tick.
\<close>

lemma hlt_until_ticks:
  assumes "\<And>s. now (hlt s) = now s + 1" "unat (now s - start) + k = unat n"
  shows "hlt_until hlt now start n s = Some ((hlt ^^ k) s)"
  using assms(2)
proof (induction k arbitrary: s)
  case 0
  then show ?case by (subst hlt_until.simps) (simp add: word_less_nat_alt)
next
  case (Suc k)
  have less: "now s - start < n" using Suc.prems by (simp add: word_less_nat_alt)
  have "unat (now s - start) + 1 < 2 ^ 64" using Suc.prems unsigned_less [of n, where ?'a = nat] by simp
  then have "unat (now s - start + 1) = unat (now s - start) + 1"
    using unat_add_lem [of "now s - start" 1] by simp
  moreover have "now (hlt s) - start = now s - start + 1" using assms(1) by (simp add: diff_add_eq)
  ultimately have "unat (now (hlt s) - start) + k = unat n" using Suc.prems by (simp only:)
  then have "hlt_until hlt now start n (hlt s) = Some ((hlt ^^ k) (hlt s))" by (rule Suc.IH)
  then show ?case using less by (subst hlt_until.simps) (simp add: funpow_swap1)
qed

lemma unat_u64_small:
  "n < usize_lim \<Longrightarrow> unat (of_nat n :: u64) = n"
  by (simp add: unat_of_nat)

text \<open>
  \<open>pit::sleep_ms\<close> ends: when every halt is followed by one tick of the counter, it returns after
  exactly the number of ticks that covers \<open>ms\<close> milliseconds, rounded up, whatever the counter's
  value is when it starts (also when the counter wraps during the wait), in both build profiles,
  as long as the product fits in 64 bits.
\<close>

theorem pit_sleep_ms_returns:
  assumes "\<forall>s. tick_count (hlt s) = tick_count s + 1" "unat ms * 100 + 999 < usize_lim"
  shows "pit_sleep_ms pr hlt ms s = Inr ((hlt ^^ ((unat ms * 100 + 999) div 1000)) s) \<and>
    unat ms \<le> (unat ms * 100 + 999) div 1000 * 10 \<and>
    tick_count ((hlt ^^ n) s) = tick_count s + of_nat n"
proof -
  have prod: "unat (ms * 100 :: u64) = unat ms * 100"
    using assms(2) unat_mult_lem [of ms 100] by simp
  then have sum: "unat (ms * 100 + 999 :: u64) = unat ms * 100 + 999"
    using assms(2) unat_add_lem [of "ms * 100" 999] by simp
  let ?n = "(ms * 100 + 999) div 1000 :: u64"
  have n: "unat ?n = (unat ms * 100 + 999) div 1000" by (simp add: unat_div sum)
  have "wmul pr ms (ucast TICKS_PER_SECOND) = Inr (ms * 100)" "wadd pr (ms * 100) 999 = Inr (ms * 100 + 999)"
    using assms(2) prod by (simp_all add: wmul_def wadd_def TICKS_PER_SECOND_def)
  moreover have "hlt_until hlt ticks (ticks s) ?n s = Some ((hlt ^^ ((unat ms * 100 + 999) div 1000)) s)"
    by (rule hlt_until_ticks) (use assms(1) in \<open>simp_all add: ticks_def n\<close>)
  moreover have "tick_count ((hlt ^^ n) s) = tick_count s + of_nat n"
    by (induction n) (simp_all add: assms(1) ac_simps)
  ultimately show ?thesis by (simp add: pit_sleep_ms_def)
qed

theorem pit_sleep_ms_returns_witness:
  "\<forall>s. pit_sleep_ms Dev (\<lambda>s :: sched_state. s\<lparr>tick_count := tick_count s + 1\<rparr>) 25 s =
     Inr (((\<lambda>s. s\<lparr>tick_count := tick_count s + 1\<rparr>) ^^ 3) s)"
  using pit_sleep_ms_returns [of "\<lambda>s :: sched_state. s\<lparr>tick_count := tick_count s + 1\<rparr>" 25 Dev] by simp

end
