(* ===== verification/Multitask.thy ===== *)
theory Multitask
  imports Pit
begin

text \<open>
  Multitasking as a whole: the events that drive the task table (timer ticks, creation, yield,
  sleep, exit, wait), the invariant they keep, and what follows from it: the processor always goes
  to a ready task, in bounded time to every ready task, and stacks are never shared.
\<close>

section \<open>Events\<close>

datatype event = Tick | Create "u8 list" u64 | Yield | Sleep u64 | Exit u32 | Wait u32

definition perform ::
    "profile \<Rightarrow> event \<Rightarrow> 'a sched_state_scheme \<Rightarrow> ((nat \<times> nat) option \<times> 'a sched_state_scheme) res" where
  "perform pr ev s =
     (case ev of
        Tick \<Rightarrow> on_tick pr s
      | Create nm entry \<Rightarrow> andThen (new_kernel_task pr nm entry s) (\<lambda>(p, s). Inr (None, s))
      | Yield \<Rightarrow> yield_cpu pr s
      | Sleep ms \<Rightarrow> sleep_ms pr ms s
      | Exit code \<Rightarrow> andThen (exit_task pr code s) (\<lambda>(sw, s). Inr (Some sw, s))
      | Wait p \<Rightarrow> andThen (wait_for pr p s) (\<lambda>(r, s).
          Inr (case r of Returned code \<Rightarrow> None | Again sw \<Rightarrow> sw, s)))"

text \<open>\<open>switch_to\<close> stores the stack pointer of the task it leaves.\<close>

definition switched :: "nat \<Rightarrow> (nat \<times> nat) option \<Rightarrow> 'a task_state_scheme \<Rightarrow> 'a task_state_scheme" where
  "switched saved_sp sw s = (case sw of None \<Rightarrow> s | Some (c, n) \<Rightarrow> set_task c ((tasks s ! c)\<lparr>t_rsp := saved_sp\<rparr>) s)"

text \<open>
  When an event can happen: the idle task only halts and creates tasks; pids and, where overflow
  panics, tick counters have not run out.
\<close>

definition allowed :: "profile \<Rightarrow> event \<Rightarrow> 'a sched_state_scheme \<Rightarrow> bool" where
  "allowed pr ev s =
     (case ev of
        Tick \<Rightarrow> pr = Dev \<longrightarrow> unat (ticks_run (tasks s ! current s)) + 1 < usize_lim
      | Create nm entry \<Rightarrow> next_pid s \<noteq> -1
      | Yield \<Rightarrow> current s \<noteq> 0
      | Sleep ms \<Rightarrow> current s \<noteq> 0 \<and>
          (pr = Dev \<longrightarrow> unat ms * 100 < usize_lim \<and> unat (tick_count s) + unat ms + 1 < usize_lim)
      | Exit code \<Rightarrow> current s \<noteq> 0
      | Wait p \<Rightarrow> current s \<noteq> 0)"

section \<open>The invariant\<close>

definition alive :: "task \<Rightarrow> bool" where
  "alive t \<longleftrightarrow> tstate t \<noteq> Empty \<and> tstate t \<noteq> Terminated"

text \<open>The frames of a task's stack; \<open>terminate\<close> has given the first one back.\<close>

definition top_frame :: "nat \<Rightarrow> task \<Rightarrow> nat" where
  "top_frame h t = stack_top t - PAGE_SIZE - h"

definition owned :: "nat \<Rightarrow> task \<Rightarrow> nat set" where
  "owned h t = (if tstate t = Empty then {} else if tstate t = Terminated then {top_frame h t}
     else {stack_base t, top_frame h t})"

definition pids_ok :: "task list \<Rightarrow> u32 \<Rightarrow> bool" where
  "pids_ok ts np \<longleftrightarrow> pid (ts ! 0) = 0 \<and>
     (\<forall>i < 32. 0 < i \<and> tstate (ts ! i) \<noteq> Empty \<longrightarrow> 0 < pid (ts ! i) \<and> pid (ts ! i) < np) \<and>
     (\<forall>i < 32. \<forall>j < 32. i \<noteq> j \<and> tstate (ts ! i) \<noteq> Empty \<and> tstate (ts ! j) \<noteq> Empty \<longrightarrow>
        pid (ts ! i) \<noteq> pid (ts ! j))"

text \<open>\<open>F\<close>: the frames a stack may use, i.e. those that exist, are not free and hold no table.\<close>

definition stacks_ok :: "task list \<Rightarrow> nat set \<Rightarrow> nat \<Rightarrow> bool" where
  "stacks_ok ts F h \<longleftrightarrow>
     (\<forall>i < 32. 0 < i \<longrightarrow> owned h (ts ! i) \<subseteq> F \<and> (alive (ts ! i) \<longrightarrow> stack_base (ts ! i) \<noteq> top_frame h (ts ! i))) \<and>
     (\<forall>i < 32. \<forall>j < 32. 0 < i \<and> 0 < j \<and> i \<noteq> j \<longrightarrow> owned h (ts ! i) \<inter> owned h (ts ! j) = {})"

definition table_frames :: "'a vmm_state_scheme \<Rightarrow> nat set" where
  "table_frames s = {t. \<exists>ps. table_path ps \<and> tab s ps = Some t}"

definition stack_space :: "'a vmm_state_scheme \<Rightarrow> nat set" where
  "stack_space s = all_frames s - avail_frames s - table_frames s"

definition table_inv :: "'a sched_state_scheme \<Rightarrow> bool" where
  "table_inv s \<longleftrightarrow>
     table_ok s \<and> vm_inv s \<and> serial_good s \<and> \<not> task_lock s \<and> ticks_on_current s < 3 \<and> next_pid s \<noteq> 0 \<and>
     pids_ok (tasks s) (next_pid s) \<and> stacks_ok (tasks s) (stack_space s) (hhdm_offset s)"

definition one_running :: "task list \<Rightarrow> nat \<Rightarrow> bool" where
  "one_running ts c \<longleftrightarrow> (\<forall>i < 32. tstate (ts ! i) = Running \<longleftrightarrow> i = c)"

definition idle_ok :: "task list \<Rightarrow> nat \<Rightarrow> bool" where
  "idle_ok ts c \<longleftrightarrow> tstate (ts ! 0) = Ready \<or> c = 0 \<and> tstate (ts ! 0) = Running"

definition sched_inv :: "'a sched_state_scheme \<Rightarrow> bool" where
  "sched_inv s \<longleftrightarrow> table_inv s \<and> one_running (tasks s) (current s) \<and> idle_ok (tasks s) (current s)"

text \<open>Before \<open>schedule\<close> the current task may already be ready, blocked or terminated.\<close>

definition leaving :: "'a sched_state_scheme \<Rightarrow> bool" where
  "leaving s \<longleftrightarrow> table_inv s \<and> (\<forall>i < 32. tstate (tasks s ! i) = Running \<longrightarrow> i = current s) \<and>
     idle_ok (tasks s) (current s)"

lemma sched_inv_leaving: "sched_inv s \<Longrightarrow> leaving s"
  by (auto simp: sched_inv_def leaving_def one_running_def)

section \<open>Changes that keep the invariant\<close>

text \<open>The task stays what it is, up to its scheduling state, or its slot is emptied.\<close>

definition keeps :: "task \<Rightarrow> task \<Rightarrow> bool" where
  "keeps t t' \<longleftrightarrow> length (tname t') = length (tname t) \<and> pid t' = pid t \<and>
     (tstate t' = Empty \<or>
      tstate t \<noteq> Empty \<and> (tstate t' = Terminated \<longleftrightarrow> tstate t = Terminated) \<and>
      stack_base t' = stack_base t \<and> stack_top t' = stack_top t)"

lemma keeps_refl [simp]: "keeps t t"
  by (auto simp: keeps_def)

lemma keeps_trans: "keeps t t' \<Longrightarrow> keeps t' t'' \<Longrightarrow> keeps t t''"
  by (auto simp: keeps_def)

definition keeps_all :: "task list \<Rightarrow> task list \<Rightarrow> bool" where
  "keeps_all ts ts' \<longleftrightarrow> length ts' = length ts \<and> (\<forall>i < length ts. keeps (ts ! i) (ts' ! i))"

lemma keeps_all_refl [simp]: "keeps_all ts ts"
  by (simp add: keeps_all_def)

lemma keeps_all_trans: "keeps_all ts ts' \<Longrightarrow> keeps_all ts' ts'' \<Longrightarrow> keeps_all ts ts''"
  by (auto simp: keeps_all_def intro: keeps_trans)

lemma keeps_all_update: "keeps (ts ! i) t \<Longrightarrow> keeps_all ts (ts[i := t])"
  by (cases "i < length ts") (auto simp: keeps_all_def nth_list_update)

lemma keeps_owned: "keeps t t' \<Longrightarrow> owned h t' \<subseteq> owned h t"
  by (auto simp: keeps_def owned_def top_frame_def)

lemma keeps_live: "keeps t t' \<Longrightarrow> alive t' \<Longrightarrow> alive t \<and> stack_base t' = stack_base t \<and> top_frame h t' = top_frame h t"
  by (auto simp: keeps_def alive_def top_frame_def)

lemma keeps_pids:
  assumes "keeps_all ts ts'" "length ts = 32" "pids_ok ts np"
  shows "pids_ok ts' np"
proof -
  have k: "pid (ts' ! i) = pid (ts ! i)" "tstate (ts' ! i) \<noteq> Empty \<Longrightarrow> tstate (ts ! i) \<noteq> Empty" if "i < 32" for i
    using assms(1,2) that by (auto simp: keeps_all_def keeps_def)
  show ?thesis using assms(3) k(2) by (simp add: pids_ok_def k(1))
qed

lemma keeps_stacks:
  assumes "keeps_all ts ts'" "length ts = 32" "stacks_ok ts F h"
  shows "stacks_ok ts' F h"
proof -
  have k: "keeps (ts ! i) (ts' ! i)" if "i < 32" for i using assms(1,2) that by (auto simp: keeps_all_def)
  show ?thesis unfolding stacks_ok_def
  proof (intro conjI allI impI)
    fix i :: nat assume i: "i < 32" "0 < i"
    show "owned h (ts' ! i) \<subseteq> F" using keeps_owned [OF k [OF i(1)], of h] assms(3) i by (auto simp: stacks_ok_def)
    show "stack_base (ts' ! i) \<noteq> top_frame h (ts' ! i)" if "alive (ts' ! i)"
      using keeps_live [OF k [OF i(1)] that, of h] assms(3) i by (auto simp: stacks_ok_def)
  next
    fix i j :: nat assume ij: "i < 32" "j < 32" "0 < i \<and> 0 < j \<and> i \<noteq> j"
    then have "owned h (ts ! i) \<inter> owned h (ts ! j) = {}" using assms(3) by (simp add: stacks_ok_def)
    then show "owned h (ts' ! i) \<inter> owned h (ts' ! j) = {}"
      using keeps_owned [OF k [OF ij(1)], of h] keeps_owned [OF k [OF ij(2)], of h] by blast
  qed
qed

lemma keeps_table_ok:
  assumes "keeps_all (tasks s) (tasks s')" "table_ok s" "current s' < 32"
  shows "table_ok s'"
proof -
  have len: "length (tasks s') = 32" "length (tasks s) = 32" using assms by (auto simp: table_ok_def keeps_all_def)
  have "length (tname (tasks s' ! i)) = 16" if "i < 32" for i
    using assms(1,2) that len by (auto simp: table_ok_def keeps_all_def keeps_def)
  then have "\<forall>t \<in> set (tasks s'). length (tname t) = 16" using len(1) by (auto simp: in_set_conv_nth)
  then show ?thesis using assms(3) len by (simp add: table_ok_def)
qed

lemma table_inv_keeps:
  assumes inv: "table_inv s" and keeps: "keeps_all (tasks s) (tasks s')" and vm: "vm_part s' = vm_part s"
    and same: "dev_in s' = dev_in s" "\<not> task_lock s'" "next_pid s' = next_pid s"
    and new: "current s' < 32" "ticks_on_current s' < 3"
  shows "table_inv s'"
proof -
  note eq = vm_part_cong [OF vm]
  have h: "hhdm_offset s' = hhdm_offset s" using vm by (simp add: vm_part_def)
  have "stack_space s' = stack_space s" by (simp add: stack_space_def table_frames_def eq)
  moreover have len: "length (tasks s) = 32" "table_ok s" using inv by (simp_all add: table_inv_def table_ok_def)
  ultimately show ?thesis
    using inv keeps_pids [OF keeps len(1)] keeps_stacks [OF keeps len(1)] keeps_table_ok [OF keeps len(2) new(1)]
    by (simp add: table_inv_def eq same h new)
qed

section \<open>The scheduler under the invariant\<close>

lemma demote_nth: "c < length ts \<Longrightarrow> i < length ts \<Longrightarrow> demote ts c ! i =
    (if i = c \<and> tstate (ts ! c) = Running then (ts ! c)\<lparr>tstate := Ready\<rparr> else ts ! i)"
  by (auto simp: demote_def nth_list_update)

lemma leavingD:
  assumes "leaving s"
  shows "table_ok s" "serial_good s" "\<not> task_lock s" "length (tasks s) = 32" "current s < 32" "table_inv s"
    "i < 32 \<Longrightarrow> tstate (tasks s ! i) = Running \<Longrightarrow> i = current s" "idle_ok (tasks s) (current s)"
    "ticks_on_current s < 3"
  using assms by (auto simp: leaving_def table_inv_def table_ok_def)

text \<open>The idle task is ready whenever another task leaves the processor, so a task is always found.\<close>

lemma chosen_idle:
  assumes "leaving s"
  obtains n where "chosen (tasks s) (current s) = Some n" "n < 32"
    "tstate (demote (tasks s) (current s) ! n) = Ready"
    "\<forall>j < 32. tstate (demote (tasks s) (current s) ! j) = Ready \<longrightarrow> cdist (current s) n \<le> cdist (current s) j"
proof -
  note l = leavingD [OF assms]
  have "tstate (demote (tasks s) (current s) ! 0) = Ready"
    using l(4,5,8) by (auto simp: demote_nth idle_ok_def)
  then have "chosen (tasks s) (current s) \<noteq> None"
    unfolding chosen_def find_rotation_None [OF l(5)] by (metis zero_less_numeral)
  then obtain n where n: "chosen (tasks s) (current s) = Some n" by auto
  then show ?thesis using that [OF n] unfolding chosen_def find_rotation_Some [OF l(5)] by blast
qed

text \<open>What \<open>schedule\<close> leaves behind: task \<open>n\<close> runs, every other one is as it was, demoted.\<close>

definition handed_over :: "'a sched_state_scheme \<Rightarrow> nat \<Rightarrow> (nat \<times> nat) option \<Rightarrow> 'a sched_state_scheme \<Rightarrow> bool" where
  "handed_over s n sw s' \<longleftrightarrow>
     n < 32 \<and> current s' = n \<and> sw = (if n = current s then None else Some (current s, n)) \<and>
     tstate (demote (tasks s) (current s) ! n) = Ready \<and>
     (\<forall>j < 32. tstate (demote (tasks s) (current s) ! j) = Ready \<longrightarrow> cdist (current s) n \<le> cdist (current s) j) \<and>
     tasks s' = (demote (tasks s) (current s))[n := runs (tasks s ! n)] \<and>
     ticks_on_current s' = (if n = current s then ticks_on_current s else 0) \<and>
     vm_part s' = vm_part s \<and> dev_in s' = dev_in s \<and> sent s s' \<and> task_lock s' = task_lock s \<and>
     rflags_reg s' = rflags_reg s \<and> next_pid s' = next_pid s \<and> tick_count s' = tick_count s"

lemma schedule_hands_over:
  assumes "leaving s"
  shows "\<exists>n sw s'. schedule pr s = Inr (sw, s') \<and> handed_over s n sw s'"
proof -
  let ?c = "current s"
  note l = leavingD [OF assms]
  obtain n where n: "chosen (tasks s) ?c = Some n" "n < 32" "tstate (demote (tasks s) ?c ! n) = Ready"
    "\<forall>j < 32. tstate (demote (tasks s) ?c ! j) = Ready \<longrightarrow> cdist ?c n \<le> cdist ?c j"
    by (rule chosen_idle [OF assms])
  note res = schedule_result [OF l(1,3,2), of pr, unfolded n(1) option.case]
  show ?thesis
  proof (cases "n = ?c")
    case True
    let ?s = "s\<lparr>tasks := (tasks s)[?c := runs (tasks s ! ?c)]\<rparr>"
    have "schedule pr s = Inr (None, ?s)" using res True by simp
    moreover have "handed_over s n None ?s"
      using True n(2-4) by (simp add: handed_over_def vm_part_def demote_def sent_same)
    ultimately show ?thesis by blast
  next
    case False
    then obtain bs where "schedule pr s = Inr (Some (?c, n),
        s\<lparr>tasks := (demote (tasks s) ?c)[n := runs (tasks s ! n)], current := n,
          ticks_on_current := 0, io_log := tx_log (dev_in s) (io_log s) bs\<rparr>)" using res by auto
    moreover have "handed_over s n (Some (?c, n)) (s\<lparr>tasks := (demote (tasks s) ?c)[n := runs (tasks s ! n)],
        current := n, ticks_on_current := 0, io_log := tx_log (dev_in s) (io_log s) bs\<rparr>)"
      using False n(2-4) by (auto simp: handed_over_def vm_part_def sent_def)
    ultimately show ?thesis by blast
  qed
qed

lemma keeps_demote: "keeps_all ts (demote ts c)"
  unfolding demote_def by (auto intro!: keeps_all_update simp: keeps_def)

lemma handed_over_nth:
  assumes "handed_over s n sw s'" "leaving s" "i < 32"
  shows "tasks s' ! i = (if i = n then runs (tasks s ! n)
    else if i = current s \<and> tstate (tasks s ! i) = Running then (tasks s ! i)\<lparr>tstate := Ready\<rparr> else tasks s ! i)"
  using assms(1,3) leavingD(4,5) [OF assms(2)]
  by (auto simp: handed_over_def nth_list_update demote_nth)

lemma handed_over_keeps:
  assumes "handed_over s n sw s'" "leaving s"
  shows "keeps_all (tasks s) (tasks s')"
proof -
  have n: "n < 32" "tstate (demote (tasks s) (current s) ! n) = Ready" using assms(1) by (auto simp: handed_over_def)
  then have "keeps (tasks s ! n) (runs (tasks s ! n))"
    using leavingD(4,5) [OF assms(2)] by (auto simp: demote_nth keeps_def runs_def split: if_splits)
  then show ?thesis
    using assms(1) handed_over_nth [OF assms] leavingD(4,5) [OF assms(2)]
    by (auto simp: keeps_all_def handed_over_def) (auto simp: keeps_def)
qed

lemma handed_over_inv:
  assumes "handed_over s n sw s'" "leaving s"
  shows "sched_inv s'"
proof -
  note l = leavingD [OF assms(2)]
  have t: "tasks s' ! i = (if i = n then runs (tasks s ! n)
      else if i = current s \<and> tstate (tasks s ! i) = Running then (tasks s ! i)\<lparr>tstate := Ready\<rparr> else tasks s ! i)"
    if "i < 32" for i by (rule handed_over_nth [OF assms that])
  have n: "n < 32" "current s' = n" using assms(1) by (auto simp: handed_over_def)
  have "one_running (tasks s') n"
    unfolding one_running_def using t l(7) by (auto simp: runs_def)
  moreover have "idle_ok (tasks s') n"
    using l(8) t [of 0] n by (auto simp: idle_ok_def runs_def)
  moreover have "table_inv s'"
    by (rule table_inv_keeps [OF l(6) handed_over_keeps [OF assms]])
      (use assms(1) l in \<open>auto simp: handed_over_def\<close>)
  ultimately show ?thesis using n by (simp add: sched_inv_def)
qed

section \<open>What one event does\<close>

text \<open>
  For the tasks that are ready: they stay ready or run, and the processor moves only to the nearest
  of them; the time slice advances with each tick.
\<close>

definition step_summary :: "event \<Rightarrow> 'a sched_state_scheme \<Rightarrow> 'a sched_state_scheme \<Rightarrow> bool" where
  "step_summary ev s s' \<longleftrightarrow>
     (\<forall>j < 32. tstate (tasks s ! j) = Ready \<longrightarrow> tstate (tasks s' ! j) = Ready \<or> j = current s') \<and>
     (current s' = current s \<and>
        unat (ticks_on_current s') = unat (ticks_on_current s) + (if ev = Tick then 1 else 0) \<or>
      (\<forall>j < 32. tstate (tasks s ! j) = Ready \<longrightarrow> cdist (current s) (current s') \<le> cdist (current s) j) \<and>
        (current s' \<noteq> current s \<longrightarrow> ticks_on_current s' = 0))"

lemma handed_summary:
  assumes "handed_over s1 n sw s'" "leaving s1" "current s1 = current s"
    and ready: "\<And>j. j < 32 \<Longrightarrow> tstate (tasks s ! j) = Ready \<Longrightarrow> tstate (tasks s1 ! j) = Ready"
  shows "step_summary ev s s'"
proof -
  have n: "current s' = n" "ticks_on_current s' = (if n = current s1 then ticks_on_current s1 else 0)"
    "\<forall>j < 32. tstate (demote (tasks s1) (current s1) ! j) = Ready \<longrightarrow> cdist (current s1) n \<le> cdist (current s1) j"
    using assms(1) unfolding handed_over_def by blast+
  have "tstate (demote (tasks s1) (current s1) ! j) = Ready" if "j < 32" "tstate (tasks s1 ! j) = Ready" for j
    using that leavingD(4,5) [OF assms(2)] by (simp add: demote_nth)
  then have "\<forall>j < 32. tstate (tasks s ! j) = Ready \<longrightarrow> cdist (current s) (current s') \<le> cdist (current s) j"
    using n(1,3) ready assms(3) by simp
  moreover have "\<forall>j < 32. tstate (tasks s ! j) = Ready \<longrightarrow> tstate (tasks s' ! j) = Ready \<or> j = current s'"
    using handed_over_nth [OF assms(1,2)] ready n(1) by auto
  ultimately show ?thesis using n(1,2) assms(3) by (simp add: step_summary_def)
qed

lemma leaving_keeps:
  assumes inv: "sched_inv s" and keeps: "keeps_all (tasks s) (tasks s1)" and vm: "vm_part s1 = vm_part s"
    and same: "dev_in s1 = dev_in s" "task_lock s1 = task_lock s" "next_pid s1 = next_pid s" "current s1 = current s"
    and new: "ticks_on_current s1 < 3"
    and run: "\<And>i. i < 32 \<Longrightarrow> i \<noteq> current s \<Longrightarrow> tstate (tasks s1 ! i) \<noteq> Running"
    and idle: "idle_ok (tasks s1) (current s)"
  shows "leaving s1"
proof -
  have t: "table_inv s" using inv by (simp add: sched_inv_def)
  then have "\<not> task_lock s" "current s < 32" by (simp_all add: table_inv_def table_ok_def)
  then have "table_inv s1" by (intro table_inv_keeps [OF t keeps vm]) (simp_all add: same new)
  then show ?thesis using run idle same(4) by (auto simp: leaving_def)
qed

lemma sched_invD:
  assumes "sched_inv s"
  shows "length (tasks s) = 32" "current s < 32" "serial_good s" "table_ok s" "table_inv s" "vm_inv s"
    "ticks_on_current s < 3" "tstate (tasks s ! current s) = Running"
    "i < 32 \<Longrightarrow> i \<noteq> current s \<Longrightarrow> tstate (tasks s ! i) \<noteq> Running"
    "current s \<noteq> 0 \<Longrightarrow> tstate (tasks s ! 0) = Ready" "\<not> task_lock s" "next_pid s \<noteq> 0"
  using assms by (auto simp: sched_inv_def table_inv_def table_ok_def one_running_def idle_ok_def)

text \<open>A current task that changes only its own entry and then calls \<open>schedule\<close>.\<close>

lemma give_up:
  assumes inv: "sched_inv s" and c: "current s \<noteq> 0" and keeps: "keeps (tasks s ! current s) t"
    and s1: "s1 = set_task (current s) t (cli_insn s)"
  shows "\<exists>sw s'. schedule pr s1 = Inr (sw, s') \<and> sched_inv s' \<and> step_summary ev s s'"
proof -
  note d = sched_invD [OF inv]
  have t1: "tasks s1 = (tasks s)[current s := t]" "current s1 = current s" by (simp_all add: s1 cli_insn_def)
  have l: "leaving s1"
  proof (rule leaving_keeps [OF inv])
    show "keeps_all (tasks s) (tasks s1)" unfolding t1 by (rule keeps_all_update [OF keeps])
    show "idle_ok (tasks s1) (current s)" using c d(1,10) by (simp add: t1 idle_ok_def)
  qed (use d in \<open>simp_all add: s1 vm_part_def cli_insn_def set_task_def\<close>)
  obtain n sw s' where s': "schedule pr s1 = Inr (sw, s')" "handed_over s1 n sw s'"
    using schedule_hands_over [OF l] by blast
  have "step_summary ev s s'"
  proof (rule handed_summary [OF s'(2) l t1(2)])
    fix j assume "j < 32" "tstate (tasks s ! j) = Ready"
    then show "tstate (tasks s1 ! j) = Ready" using d(8) by (cases "j = current s") (simp_all add: t1)
  qed
  then show ?thesis using s'(1) handed_over_inv [OF s'(2) l] by blast
qed

lemma yield_ok:
  assumes inv: "sched_inv s" and c: "current s \<noteq> 0"
  shows "\<exists>sw s'. yield_cpu pr s = Inr (sw, s') \<and> sched_inv s' \<and> step_summary ev s s'"
proof -
  note d = sched_invD [OF inv]
  have "yield_cpu pr s = schedule pr (set_task (current s) ((tasks s ! current s)\<lparr>tstate := Ready\<rparr>) (cli_insn s))"
    using d(1,2) by (simp add: yield_cpu_def Let_def current_task_def get_task_def cli_insn_def)
  then show ?thesis using give_up [OF inv c _ refl] d(8) by (simp add: keeps_def)
qed

lemma sleep_ok:
  assumes inv: "sched_inv s" and c: "current s \<noteq> 0" and fits: "allowed pr (Sleep ms) s"
  shows "\<exists>sw s'. sleep_ms pr ms s = Inr (sw, s') \<and> sched_inv s' \<and> step_summary ev s s'"
proof -
  note d = sched_invD [OF inv]
  let ?n = "ms * 100 div 1000 :: u64"
  have m: "wmul pr ms (ucast TICKS_PER_SECOND) = Inr (ms * 100)"
    using fits by (auto simp: wmul_def TICKS_PER_SECOND_def allowed_def)
  have "unat (max ?n 1) \<le> max (unat ms) 1" if "unat ms * 100 < usize_lim"
  proof -
    have "unat ?n = unat ms * 100 div 1000" using that unat_mult_lem [of ms 100] by (simp add: unat_div)
    then show ?thesis by (auto simp: max_def word_le_nat_alt)
  qed
  then have "unat (ticks s) + unat (max ?n 1) < usize_lim" if "pr = Dev"
    using fits that unsigned_less [of "ticks s", where ?'a = nat] by (auto simp: allowed_def ticks_def max_def split: if_splits)
  then have a: "wadd pr (ticks s) (max ?n 1) = Inr (ticks s + max ?n 1)" by (auto simp: wadd_def)
  have "sleep_ms pr ms s = schedule pr (set_task (current s)
      ((tasks s ! current s)\<lparr>tstate := Blocked, sleep_until := ticks s + max ?n 1\<rparr>) (cli_insn s))"
    using d(1,2) by (simp add: sleep_ms_def m a Let_def block_until_def get_task_def cli_insn_def)
  then show ?thesis using give_up [OF inv c _ refl] d(8) by (simp add: keeps_def)
qed

text \<open>An event after which the same task runs on.\<close>

lemma sched_inv_stays:
  assumes inv: "sched_inv s" and keeps: "keeps_all (tasks s) (tasks s')" and vm: "vm_part s' = vm_part s"
    and same: "dev_in s' = dev_in s" "task_lock s' = task_lock s" "next_pid s' = next_pid s" "current s' = current s"
    and new: "ticks_on_current s' < 3"
    and run: "\<And>i. i < 32 \<Longrightarrow> tstate (tasks s' ! i) = Running \<longleftrightarrow> tstate (tasks s ! i) = Running"
    and ready: "\<And>i. i < 32 \<Longrightarrow> tstate (tasks s ! i) = Ready \<Longrightarrow> tstate (tasks s' ! i) = Ready"
  shows "sched_inv s'"
proof -
  note d = sched_invD [OF inv]
  have "table_inv s'" by (rule table_inv_keeps [OF d(5) keeps vm]) (use d same new in simp_all)
  moreover have "one_running (tasks s') (current s)" using d(8,9) run by (auto simp: one_running_def)
  moreover have "idle_ok (tasks s') (current s)" using inv run [of 0] ready [of 0] by (auto simp: sched_inv_def idle_ok_def)
  ultimately show ?thesis using same(4) by (simp add: sched_inv_def)
qed

lemma wait_ok:
  assumes inv: "sched_inv s" and c: "current s \<noteq> 0"
  shows "\<exists>r s'. wait_for pr p s = Inr (r, s') \<and> sched_inv s' \<and> step_summary (Wait p) s s'"
proof -
  note d = sched_invD [OF inv]
  have cli [simp]: "tasks (cli_insn s) = tasks s" "current (cli_insn s) = current s" by (simp_all add: cli_insn_def)
  have "table_ok (cli_insn s)" using d(4) by (simp add: table_ok_def)
  note fp = find_pid_eq [OF this, of p]
  show ?thesis
  proof (cases "find (\<lambda>i. tstate (tasks s ! i) \<noteq> Empty \<and> pid (tasks s ! i) = p) [0..<32]")
    case None
    let ?s = "sti_insn (cli_insn s)"
    have "wait_for pr p s = Inr (Returned (-1), ?s)" using fp None by (simp add: wait_for_def Let_def del: upt_Suc)
    moreover have "sched_inv ?s"
      by (rule sched_inv_stays [OF inv]) (use d in \<open>simp_all add: sti_insn_def cli_insn_def vm_part_def\<close>)
    moreover have "step_summary (Wait p) s ?s" by (simp add: step_summary_def sti_insn_def cli_insn_def)
    ultimately show ?thesis by blast
  next
    case (Some slot)
    then have slot: "slot < 32" "tstate (tasks s ! slot) \<noteq> Empty" "pid (tasks s ! slot) = p"
      by (simp_all add: find_upt_Some)
    have get: "get_task slot (cli_insn s) = Inr (tasks s ! slot)"
      "get_task (current s) (cli_insn s) = Inr (tasks s ! current s)"
      using slot(1) d(1,2) by (simp_all add: get_task_def)
    show ?thesis
    proof (cases "tstate (tasks s ! slot) = Terminated")
      case True
      let ?s = "sti_insn (set_task slot ((tasks s ! slot)\<lparr>tstate := Empty\<rparr>) (cli_insn s))"
      have t: "tasks ?s = (tasks s)[slot := (tasks s ! slot)\<lparr>tstate := Empty\<rparr>]" by (simp add: sti_insn_def)
      have st: "tstate (tasks ?s ! i) = (if i = slot then Empty else tstate (tasks s ! i))" if "i < 32" for i
        using that d(1) by (simp add: t nth_list_update)
      have "wait_for pr p s = Inr (Returned (exit_code (tasks s ! slot)), ?s)"
        using fp Some get True by (simp add: wait_for_def Let_def del: upt_Suc)
      moreover have "sched_inv ?s"
      proof (rule sched_inv_stays [OF inv])
        show "keeps_all (tasks s) (tasks ?s)" unfolding t by (rule keeps_all_update) (simp add: keeps_def)
        show "\<And>i. i < 32 \<Longrightarrow> (tstate (tasks ?s ! i) = Running) = (tstate (tasks s ! i) = Running)"
          "\<And>i. i < 32 \<Longrightarrow> tstate (tasks s ! i) = Ready \<Longrightarrow> tstate (tasks ?s ! i) = Ready"
          using True by (auto simp: st)
      qed (use d in \<open>simp_all add: sti_insn_def cli_insn_def vm_part_def set_task_def\<close>)
      moreover have "step_summary (Wait p) s ?s"
        using True st by (auto simp: step_summary_def) (simp_all add: sti_insn_def cli_insn_def set_task_def)
      ultimately show ?thesis by blast
    next
      case False
      have "wait_for pr p s = andThen (schedule pr (set_task (current s)
          ((tasks s ! current s)\<lparr>tstate := Blocked, wait_for_pid := Some p\<rparr>) (cli_insn s))) (\<lambda>(sw, s). Inr (Again sw, s))"
        using fp Some get False by (simp add: wait_for_def Let_def del: upt_Suc)
      moreover obtain sw s' where "schedule pr (set_task (current s)
          ((tasks s ! current s)\<lparr>tstate := Blocked, wait_for_pid := Some p\<rparr>) (cli_insn s)) = Inr (sw, s')"
        "sched_inv s'" "step_summary (Wait p) s s'"
        using give_up [OF inv c _ refl, of "(tasks s ! current s)\<lparr>tstate := Blocked, wait_for_pid := Some p\<rparr>" pr "Wait p"] d(8)
        by (auto simp: keeps_def)
      ultimately show ?thesis by simp
    qed
  qed
qed

text \<open>A tick: the sleepers that are due wake, the running task is charged, and may be preempted.\<close>

definition ticked :: "u64 \<Rightarrow> io_event list \<Rightarrow> u64 \<Rightarrow> 'a sched_state_scheme \<Rightarrow> 'a sched_state_scheme" where
  "ticked now lg n s = s\<lparr>io_log := lg, tasks := (map (wake now) (tasks s))
       [current s := (tasks s ! current s)\<lparr>ticks_run := ticks_run (tasks s ! current s) + 1\<rparr>],
     ticks_on_current := n\<rparr>"

lemma tick_eq:
  assumes inv: "sched_inv s" and fits: "pr = Dev \<Longrightarrow> unat (ticks_run (tasks s ! current s)) + 1 < usize_lim"
  shows "\<exists>lg. (\<exists>bs. lg = tx_log (dev_in s) (io_log s) bs) \<and> tick pr now s =
    (if ticks_on_current s = 2 then schedule pr (ticked now lg 0 s)
     else Inr (None, ticked now lg (ticks_on_current s + 1) s))"
proof -
  note d = sched_invD [OF inv]
  obtain l1 where l1: "serial_print ''[sched tick]\<newline>'' s = Inr (s\<lparr>io_log := l1\<rparr>)"
    using printsD [OF prints_basic(1) d(3)] by blast
  have "table_ok (s\<lparr>io_log := l1\<rparr>)" using d(4) by (simp add: table_ok_def)
  then obtain l2 where l2: "wake_sleeping_tasks pr now (s\<lparr>io_log := l1\<rparr>) =
      Inr (s\<lparr>io_log := l1, tasks := map (wake now) (tasks s), io_log := l2\<rparr>)"
    using wake_sleeping_tasks_eq [of "s\<lparr>io_log := l1\<rparr>" pr now] d(3) by auto
  have wk: "wake now (tasks s ! current s) = tasks s ! current s" using d(8) by (simp add: wake_def due_def)
  have three: "TIME_SLICE_TICKS \<le> ticks_on_current s + 1 \<longleftrightarrow> ticks_on_current s = 2"
  proof -
    have "unat (ticks_on_current s) < 3" using d(7) by (simp add: word_less_nat_alt)
    then have "unat (ticks_on_current s + 1) = unat (ticks_on_current s) + 1"
      using unat_add_lem [of "ticks_on_current s" 1] by simp
    then show "TIME_SLICE_TICKS \<le> ticks_on_current s + 1 \<longleftrightarrow> ticks_on_current s = 2"
      using \<open>unat (ticks_on_current s) < 3\<close>
      by (auto simp: TIME_SLICE_TICKS_def word_le_nat_alt word_unat_eq_iff)
  qed
  have adds: "wadd pr (ticks_run (tasks s ! current s)) 1 = Inr (ticks_run (tasks s ! current s) + 1)"
    "wadd pr (ticks_on_current s) 1 = Inr (ticks_on_current s + 1)"
    using fits d(7) by (auto simp: wadd_def word_less_nat_alt)
  have "tick pr now s = (if ticks_on_current s = 2 then schedule pr (ticked now l2 0 s)
      else Inr (None, ticked now l2 (ticks_on_current s + 1) s))"
    using d(1,2) l1 l2 wk adds three
    by (simp add: tick_def current_task_def get_task_def Let_def ticked_def set_task_def cong: if_cong)
  moreover have "\<exists>bs. l2 = tx_log (dev_in s) (io_log s) bs"
  proof -
    have "sent s (s\<lparr>io_log := l1\<rparr>)" by (rule sent_prints [OF prints_basic(1) d(3) l1])
    moreover have "sent (s\<lparr>io_log := l1\<rparr>) (s\<lparr>io_log := l1, tasks := map (wake now) (tasks s), io_log := l2\<rparr>)"
      using wake_loop_sent [OF l2 [unfolded wake_sleeping_tasks_def]] d(3) by simp
    ultimately have "sent s (s\<lparr>io_log := l1, tasks := map (wake now) (tasks s), io_log := l2\<rparr>)" by (rule sent_trans)
    then show ?thesis by (simp add: sent_def)
  qed
  ultimately show ?thesis by blast
qed

lemma ticked_nth:
  "sched_inv s \<Longrightarrow> i < 32 \<Longrightarrow> tasks (ticked now lg n s) ! i =
     (if i = current s then (tasks s ! i)\<lparr>ticks_run := ticks_run (tasks s ! i) + 1\<rparr> else wake now (tasks s ! i))"
  using sched_invD(1,2) [of s] by (auto simp: ticked_def nth_list_update)

lemma keeps_wake: "keeps t (wake now t)"
  by (simp add: wake_def due_def keeps_def)

lemma ticked_keeps: "sched_inv s \<Longrightarrow> keeps_all (tasks s) (tasks (ticked now lg n s))"
  using sched_invD(1,8) [of s]
  by (auto simp: keeps_all_def ticked_nth keeps_wake) (auto simp: ticked_def keeps_def)

lemma ticked_leaving:
  assumes "sched_inv s" "n < 3"
  shows "leaving (ticked now lg n s)"
proof (rule leaving_keeps [OF assms(1) ticked_keeps [OF assms(1)]])
  note d = sched_invD [OF assms(1)]
  fix i assume "i < 32" "i \<noteq> current s"
  then show "tstate (tasks (ticked now lg n s) ! i) \<noteq> Running"
    using d(9) assms(1) by (simp add: ticked_nth wake_def)
next
  note d = sched_invD [OF assms(1)]
  show "idle_ok (tasks (ticked now lg n s)) (current s)"
    using d(8,10) assms(1) by (auto simp: idle_ok_def ticked_nth wake_def due_def)
qed (use assms(2) in \<open>simp_all add: ticked_def vm_part_def\<close>)

lemma tick_ok:
  assumes inv: "sched_inv s" and fits: "pr = Dev \<Longrightarrow> unat (ticks_run (tasks s ! current s)) + 1 < usize_lim"
  shows "\<exists>sw s'. tick pr now s = Inr (sw, s') \<and> sched_inv s' \<and> step_summary Tick s s'"
proof -
  note d = sched_invD [OF inv]
  obtain lg where lg: "tick pr now s =
    (if ticks_on_current s = 2 then schedule pr (ticked now lg 0 s)
     else Inr (None, ticked now lg (ticks_on_current s + 1) s))" using tick_eq [OF inv fits] by blast
  have ready: "tstate (tasks (ticked now lg n s) ! j) = Ready" if "j < 32" "tstate (tasks s ! j) = Ready" for j n
    using that d(8) by (auto simp: ticked_nth [OF inv] wake_def due_def)
  have cur: "current (ticked now lg n s) = current s" for n by (simp add: ticked_def)
  show ?thesis
  proof (cases "ticks_on_current s = 2")
    case True
    have l: "leaving (ticked now lg 0 s)" by (rule ticked_leaving [OF inv]) simp
    obtain n sw s' where s': "schedule pr (ticked now lg 0 s) = Inr (sw, s')" "handed_over (ticked now lg 0 s) n sw s'"
      using schedule_hands_over [OF l, of pr] by blast
    have "step_summary Tick s s'" by (rule handed_summary [OF s'(2) l cur ready]) simp_all
    then show ?thesis using lg True s' handed_over_inv [OF s'(2) l] by simp
  next
    case False
    let ?n = "ticks_on_current s + 1" and ?s = "ticked now lg (ticks_on_current s + 1) s"
    have n: "unat ?n = unat (ticks_on_current s) + 1" "?n < 3"
    proof -
      have b: "unat (ticks_on_current s) < 2" using d(7) False by (simp add: word_less_nat_alt word_unat_eq_iff)
      then show "unat ?n = unat (ticks_on_current s) + 1" using unat_add_lem [of "ticks_on_current s" 1] by simp
      then show "?n < 3" using b by (simp add: word_less_nat_alt)
    qed
    have "sched_inv ?s"
    proof (rule sched_inv_stays [OF inv ticked_keeps [OF inv]])
      show "\<And>i. i < 32 \<Longrightarrow> (tstate (tasks ?s ! i) = Running) = (tstate (tasks s ! i) = Running)"
        by (auto simp: ticked_nth [OF inv] wake_def due_def)
    qed (use n ready in \<open>simp_all add: ticked_def vm_part_def\<close>)
    moreover have "step_summary Tick s ?s" using ready n(1) by (simp add: step_summary_def cur) (simp add: ticked_def)
    ultimately show ?thesis using lg False by simp
  qed
qed

lemma on_tick_ok:
  assumes inv: "sched_inv s" and fits: "allowed pr Tick s"
  shows "\<exists>sw s'. on_tick pr s = Inr (sw, s') \<and> sched_inv s' \<and> step_summary Tick s s'"
proof -
  note d = sched_invD [OF inv]
  let ?s = "s\<lparr>tick_count := tick_count s + 1\<rparr>"
  have i: "sched_inv ?s" by (rule sched_inv_stays [OF inv]) (use d in \<open>simp_all add: vm_part_def\<close>)
  have "pr = Dev \<Longrightarrow> unat (ticks_run (tasks ?s ! current ?s)) + 1 < usize_lim" using fits by (simp add: allowed_def)
  from tick_ok [OF i this, where now = "tick_count s + 1"] show ?thesis by (simp add: on_tick_def Let_def step_summary_def)
qed

section \<open>Creation\<close>

lemma on_tick_sent:
  assumes inv: "sched_inv s" and fits: "allowed pr Tick s" and run: "on_tick pr s = Inr (sw, s')"
  shows "sent s s'"
proof -
  let ?s = "s\<lparr>tick_count := tick_count s + 1\<rparr>"
  have i: "sched_inv ?s"
    by (rule sched_inv_stays [OF inv]) (use sched_invD [OF inv] in \<open>simp_all add: vm_part_def\<close>)
  have "pr = Dev \<Longrightarrow> unat (ticks_run (tasks ?s ! current ?s)) + 1 < usize_lim" using fits by (simp add: allowed_def)
  from tick_eq [OF i this, where now = "tick_count s + 1"] obtain bs where
    bs: "tick pr (tick_count s + 1) ?s = (if ticks_on_current ?s = 2
      then schedule pr (ticked (tick_count s + 1) (tx_log (dev_in s) (io_log s) bs) 0 ?s)
      else Inr (None, ticked (tick_count s + 1) (tx_log (dev_in s) (io_log s) bs) (ticks_on_current ?s + 1) ?s))" by auto
  have t: "sent s (ticked now (tx_log (dev_in s) (io_log s) bs) n ?s)" for now n by (auto simp: sent_def ticked_def)
  show ?thesis
  proof (cases "ticks_on_current ?s = 2")
    case True
    let ?t = "ticked (tick_count s + 1) (tx_log (dev_in s) (io_log s) bs) 0 ?s"
    have "leaving ?t" by (rule ticked_leaving [OF i]) simp
    then obtain n sw1 s1 where s1: "schedule pr ?t = Inr (sw1, s1)" "handed_over ?t n sw1 s1"
      using schedule_hands_over by blast
    then have "s1 = s'" using run bs True by (simp add: on_tick_def Let_def)
    then show ?thesis using s1(2) t sent_trans unfolding handed_over_def by blast
  next
    case False
    then have "s' = ticked (tick_count s + 1) (tx_log (dev_in s) (io_log s) bs) (ticks_on_current ?s + 1) ?s"
      using run bs by (simp add: on_tick_def Let_def)
    then show ?thesis using t by simp
  qed
qed

lemma more_ticks:
  "task_state.more s' = task_state.more s \<Longrightarrow> ticks_on_current s' = ticks_on_current s"
  "task_state.more s' = task_state.more s \<Longrightarrow> tick_count s' = tick_count s"
  by (cases s; cases s'; simp)+

lemma stack_space_created:
  assumes "created slot nm entry s s'"
  shows "stack_space s \<subseteq> stack_space s'" "table_frames s' = table_frames s"
proof -
  have "tab s' ps = tab s ps" if "table_path ps" for ps using assms that unfolding created_def by blast
  then show tf: "table_frames s' = table_frames s" by (auto simp: table_frames_def)
  have "avail_frames s' \<subseteq> avail_frames s" using assms unfolding created_def by blast
  then show "stack_space s \<subseteq> stack_space s'" using created_same(2) [OF assms] tf by (auto simp: stack_space_def)
qed

lemma avail_not_table: "vm_inv s \<Longrightarrow> f \<in> avail_frames s \<Longrightarrow> f \<notin> table_frames s"
  using vm_invD(4) by (fastforce simp: table_frames_def)

lemma avail_existing: "avail_frames s \<subseteq> all_frames s"
  by (auto simp: avail_frames_def all_frames_def free_pages_def)

lemma created_inv:
  assumes inv: "sched_inv s" and cr: "created slot nm entry s s'" and slot: "slot < 32"
    and empty: "tstate (tasks s ! slot) = Empty" and np: "next_pid s \<noteq> -1"
  shows "sched_inv s'"
proof -
  note d = sched_invD [OF inv]
  note same = created_same [OF cr]
  obtain f0 f1 t where f: "f0 \<in> avail_frames s" "f1 \<in> avail_frames s" "f0 \<noteq> f1"
    "avail_frames s' = avail_frames s - {f0, f1}" "tasks s' = (tasks s)[slot := t]"
    "tstate t = Ready" "pid t = next_pid s" "stack_base t = f0"
    "stack_top t = f1 + PAGE_SIZE + hhdm_offset s" "tname t = copy_name nm (tname (tasks s ! slot))"
    using cr unfolding created_def by blast
  have s': "next_pid s' = next_pid s + 1" "vm_inv s'" using cr unfolding created_def by blast+
  have slot0: "0 < slot" using d(8,10) empty by (cases "slot = 0"; cases "current s = 0") auto
  have slotc: "slot \<noteq> current s" using d(8) empty by auto
  have nth: "tasks s' ! i = (if i = slot then t else tasks s ! i)" if "i < 32" for i
    using that d(1) f(5) by (simp add: nth_list_update)
  let ?h = "hhdm_offset s" and ?F = "stack_space s'"
  have own: "owned ?h t = {f0, f1}" "top_frame ?h t = f1" using f by (auto simp: owned_def top_frame_def)
  have fF: "{f0, f1} \<subseteq> ?F"
    using f avail_not_table [OF d(6)] avail_existing [of s] stack_space_created(2) [OF cr] same(2)
    by (auto simp: stack_space_def)
  have old: "owned ?h (tasks s ! i) \<subseteq> ?F \<and> owned ?h (tasks s ! i) \<inter> {f0, f1} = {}" if "i < 32" "0 < i" for i
  proof -
    have "owned ?h (tasks s ! i) \<subseteq> stack_space s" using d(5) that by (simp add: table_inv_def stacks_ok_def)
    then show ?thesis using stack_space_created(1) [OF cr] f(1,2) by (auto simp: stack_space_def)
  qed
  have st: "stacks_ok (tasks s) (stack_space s) ?h" "pids_ok (tasks s) (next_pid s)" using d(5) by (simp_all add: table_inv_def)
  have "stacks_ok (tasks s') ?F ?h"
    unfolding stacks_ok_def using st(1) old own fF f(3,8) slot0
    by (auto simp: nth stacks_ok_def)
  moreover have lt: "p < next_pid s \<Longrightarrow> p < next_pid s + 1" "next_pid s < next_pid s + 1" for p
  proof -
    have "1 + next_pid s \<noteq> 0" using np by (simp add: add_eq_0_iff)
    then have "unat (next_pid s + 1) = Suc (unat (next_pid s))" using unatSuc [of "next_pid s"] by (simp add: add.commute)
    then show "p < next_pid s \<Longrightarrow> p < next_pid s + 1" "next_pid s < next_pid s + 1"
      by (simp_all add: word_less_nat_alt)
  qed
  have "pid (tasks s ! i) \<noteq> next_pid s \<and> next_pid s \<noteq> pid (tasks s ! i)"
    if "i < 32" "tstate (tasks s ! i) \<noteq> Empty" for i
    using st(2) that d(12) by (cases "i = 0") (auto simp: pids_ok_def)
  with lt have "pids_ok (tasks s') (next_pid s + 1)"
    using st(2) slot0 f(6,7) d(12) by (auto simp: pids_ok_def nth word_gt_0)
  moreover have "table_ok s'"
  proof -
    have "length (copy_name nm (tname (tasks s ! slot))) = 16"
      using d(1,4) slot by (auto simp: table_ok_def copy_name_def Let_def)
    then show ?thesis using d(4) f(5,10) same(1) set_update_subset_insert [of "tasks s" slot t] by (auto simp: table_ok_def)
  qed
  moreover have "next_pid s + 1 \<noteq> 0" using lt(2) by auto
  moreover have "ticks_on_current s' = ticks_on_current s" using same(7) by (rule more_ticks)
  ultimately have "table_inv s'" using d(3,5,7,11) same s' by (simp add: table_inv_def)
  moreover have "one_running (tasks s') (current s')" "idle_ok (tasks s') (current s')"
    using inv slotc slot0 f(6) same(1) by (auto simp: sched_inv_def one_running_def idle_ok_def nth)
  ultimately show ?thesis by (simp add: sched_inv_def)
qed

lemma create_ok:
  assumes inv: "sched_inv s" and np: "next_pid s \<noteq> -1"
  shows "\<exists>r s'. new_kernel_task pr nm entry s = Inr (r, s') \<and> sched_inv s' \<and> step_summary (Create nm entry) s s'"
proof -
  note d = sched_invD [OF inv]
  note res = new_kernel_task_result [OF d(6,4,3) np, of pr nm entry]
  have same: "step_summary (Create nm entry) s s" by (simp add: step_summary_def)
  show ?thesis
  proof (cases "find (\<lambda>i. tstate (tasks s ! i) = Empty) [0..<32]")
    case None
    then show ?thesis using res inv same by auto
  next
    case (Some slot)
    then have slot: "slot < 32" "tstate (tasks s ! slot) = Empty" by (auto simp: find_upt_Some)
    show ?thesis
    proof (cases "card (free_pages s) < 2")
      case True
      then show ?thesis using res Some inv same by (simp del: upt_Suc)
    next
      case False
      then obtain s' where s': "new_kernel_task pr nm entry s = Inr (Some (next_pid s), s')"
        "created slot nm entry s s'" using res Some by (auto simp del: upt_Suc)
      obtain t where t: "tasks s' = (tasks s)[slot := t]" using s'(2) unfolding created_def by blast
      have "ticks_on_current s' = ticks_on_current s" using created_same(7) [OF s'(2)] by (rule more_ticks)
      moreover have "tstate (tasks s' ! j) = Ready" if "tstate (tasks s ! j) = Ready" for j
        using that slot(2) by (cases "j = slot") (simp_all add: t)
      ultimately have "step_summary (Create nm entry) s s'"
        using created_same(1) [OF s'(2)] by (simp add: step_summary_def)
      then show ?thesis using s'(1) created_inv [OF inv s'(2) slot np] by blast
    qed
  qed
qed

section \<open>Exit\<close>

text \<open>Giving back a frame that holds no page table.\<close>

lemma table_frames_cong: "tab s' = tab s \<Longrightarrow> table_frames s' = table_frames s"
  by (simp add: table_frames_def)

lemma put_page_vm:
  assumes inv: "vm_inv s" and p: "p < total_pages s" "p \<notin> free_pages s" and nt: "p * PAGE_SIZE \<notin> table_frames s"
  shows "vm_inv (put_page p s)" "stack_space (put_page p s) = stack_space s - {p * PAGE_SIZE}"
    "tab (put_page p s) = tab s" "hhdm_offset (put_page p s) = hhdm_offset s"
proof -
  note pinv = vm_invD(1) [OF inv]
  show tab: "tab (put_page p s) = tab s" by (rule same_memory) (simp_all add: put_page_def)
  have av: "avail_frames (put_page p s) = insert (p * PAGE_SIZE) (avail_frames s)"
    by (simp add: avail_frames_def free_pages_put [OF pinv p(1)])
  have same: "hhdm_offset (put_page p s) = hhdm_offset s" "total_pages (put_page p s) = total_pages s"
    by (simp_all add: put_page_def)
  show "hhdm_offset (put_page p s) = hhdm_offset s" by (rule same)
  have "t \<noteq> p * PAGE_SIZE" if "table_path is" "tab s is = Some t" for "is" t
    using nt that by (auto simp: table_frames_def)
  then show "vm_inv (put_page p s)"
    using inv pmm_inv_put [OF pinv p] unfolding vm_inv_def tab av same by blast
  show "stack_space (put_page p s) = stack_space s - {p * PAGE_SIZE}"
    using table_frames_cong [OF tab] by (auto simp: stack_space_def av all_frames_def same)
qed

definition delivered :: "u32 \<Rightarrow> u32 \<Rightarrow> task \<Rightarrow> task" where
  "delivered p code t =
     (if tstate t = Blocked \<and> wait_for_pid t = Some p
      then t\<lparr>tstate := Ready, wait_for_pid := None, exit_code := code\<rparr> else t)"

lemma release_waiters_eq:
  "\<forall>i \<in> set is. i < length (tasks s) \<Longrightarrow> distinct is \<Longrightarrow>
     release_waiters p code is s = Inr (s\<lparr>tasks :=
       map (\<lambda>i. if i \<in> set is then delivered p code (tasks s ! i) else tasks s ! i) [0..<length (tasks s)]\<rparr>)"
proof (induction "is" arbitrary: s)
  case Nil
  have "map ((!) (tasks s)) [0..<length (tasks s)] = tasks s" by (rule map_nth)
  then show ?case by simp
next
  case (Cons i "is")
  let ?s = "if tstate (tasks s ! i) = Blocked \<and> wait_for_pid (tasks s ! i) = Some p
      then set_task i ((tasks s ! i)\<lparr>tstate := Ready, wait_for_pid := None, exit_code := code\<rparr>) s else s"
  have s1: "?s = s\<lparr>tasks := (tasks s)[i := delivered p code (tasks s ! i)]\<rparr>"
    by (simp add: delivered_def set_task_def)
  have i: "i < length (tasks s)" "i \<notin> set is" using Cons.prems by auto
  have "release_waiters p code (i # is) s = release_waiters p code is ?s" using i by (simp add: get_task_def)
  also have "\<dots> = Inr (?s\<lparr>tasks :=
       map (\<lambda>i. if i \<in> set is then delivered p code (tasks ?s ! i) else tasks ?s ! i) [0..<length (tasks ?s)]\<rparr>)"
    by (rule Cons.IH) (use Cons.prems in \<open>simp_all add: s1\<close>)
  also have "\<dots> = Inr (s\<lparr>tasks :=
       map (\<lambda>j. if j \<in> set (i # is) then delivered p code (tasks s ! j) else tasks s ! j) [0..<length (tasks s)]\<rparr>)"
    using i unfolding s1 by (auto simp: nth_list_update)
  finally show ?case .
qed

lemma release_waiters_all:
  assumes "table_ok s"
  shows "release_waiters p code [0..<32] s = Inr (s\<lparr>tasks := map (delivered p code) (tasks s)\<rparr>)"
proof -
  have len: "length (tasks s) = 32" using assms by (simp add: table_ok_def)
  have "map (\<lambda>i. if i \<in> set [0..<32] then delivered p code (tasks s ! i) else tasks s ! i) [0..<length (tasks s)] =
      map (delivered p code) (tasks s)"
    unfolding len by (intro nth_equalityI) (simp_all add: len)
  then show ?thesis using release_waiters_eq [of "[0..<32]" s p code] by (simp add: len del: upt_Suc)
qed

lemma stacks_terminate:
  assumes "stacks_ok ts F h" "length ts = 32" "c < 32" "0 < c" "alive (ts ! c)"
    and t: "tstate t = Terminated" "stack_top t = stack_top (ts ! c)"
  shows "stacks_ok (ts[c := t]) (F - {stack_base (ts ! c)}) h"
proof -
  have own: "owned h (ts ! c) = {stack_base (ts ! c), top_frame h (ts ! c)}" "stack_base (ts ! c) \<noteq> top_frame h (ts ! c)"
    "owned h t = {top_frame h (ts ! c)}" "\<not> alive t"
    using assms by (auto simp: stacks_ok_def owned_def alive_def top_frame_def)
  have apart: "i < 32 \<Longrightarrow> 0 < i \<Longrightarrow> i \<noteq> c \<Longrightarrow> owned h (ts ! i) \<inter> owned h (ts ! c) = {}" for i
    using assms(1,3,4) by (simp add: stacks_ok_def)
  have sub: "i < 32 \<Longrightarrow> 0 < i \<Longrightarrow> owned h (ts ! i) \<subseteq> F" for i using assms(1) by (simp add: stacks_ok_def)
  have nth: "ts[c := t] ! i = (if i = c then t else ts ! i)" if "i < 32" for i
    using that assms(2) by (simp add: nth_list_update)
  show ?thesis unfolding stacks_ok_def
  proof (intro conjI allI impI)
    fix i :: nat assume i: "i < 32" "0 < i"
    show "owned h (ts[c := t] ! i) \<subseteq> F - {stack_base (ts ! c)}"
      using own apart [OF i] sub [OF i] sub [OF assms(3,4)] by (cases "i = c") (auto simp: nth [OF i(1)] nth [OF assms(3)])
    show "stack_base (ts[c := t] ! i) \<noteq> top_frame h (ts[c := t] ! i)" if "alive (ts[c := t] ! i)"
      using that own(4) assms(1) i by (cases "i = c") (auto simp: nth [OF i(1)] nth [OF assms(3)] stacks_ok_def)
  next
    fix i j :: nat assume ij: "i < 32" "j < 32" "0 < i \<and> 0 < j \<and> i \<noteq> j"
    then have "owned h (ts ! i) \<inter> owned h (ts ! j) = {}" using assms(1) by (simp add: stacks_ok_def)
    then show "owned h (ts[c := t] ! i) \<inter> owned h (ts[c := t] ! j) = {}"
      using own by (auto simp: nth ij(1,2))
  qed
qed

text \<open>What \<open>exit\<close> does before it calls \<open>schedule\<close>.\<close>

definition exited :: "u32 \<Rightarrow> io_event list \<Rightarrow> 'a sched_state_scheme \<Rightarrow> 'a sched_state_scheme" where
  "exited code lg s =
     (let c = current s; t = tasks s ! c in
      put_page (stack_base t div PAGE_SIZE)
        (s\<lparr>io_log := lg, rflags_reg := cli (rflags_reg s),
          tasks := (map (delivered (pid t) code) (tasks s))[c := t\<lparr>tstate := Terminated, exit_code := code\<rparr>]\<rparr>))"

lemma running_stack:
  assumes inv: "sched_inv s" and c: "current s \<noteq> 0"
  obtains p where "stack_base (tasks s ! current s) = p * PAGE_SIZE" "p < total_pages s" "p \<notin> free_pages s"
    "p * PAGE_SIZE \<notin> table_frames s"
proof -
  note d = sched_invD [OF inv]
  have "owned (hhdm_offset s) (tasks s ! current s) \<subseteq> stack_space s"
    using d(2,5) c by (simp add: table_inv_def stacks_ok_def)
  then have "stack_base (tasks s ! current s) \<in> stack_space s" using d(8) by (simp add: owned_def)
  then obtain p where p: "stack_base (tasks s ! current s) = p * PAGE_SIZE" "p < total_pages s"
    "p * PAGE_SIZE \<notin> avail_frames s" "p * PAGE_SIZE \<notin> table_frames s"
    by (auto simp: stack_space_def all_frames_def)
  then have "p \<notin> free_pages s" by (auto simp only: avail_frames_def)
  with p show ?thesis using that by blast
qed

lemma exit_eq:
  assumes inv: "sched_inv s" and c: "current s \<noteq> 0"
  shows "\<exists>lg. exit_task pr code s = andThen (schedule pr (exited code lg s)) (\<lambda>(sw, s). case sw of Some sw \<Rightarrow> Inr (sw, s)
        | None \<Rightarrow> Inl (Panic ''internal error: entered unreachable code: exit: schedule() returned''))"
proof -
  note d = sched_invD [OF inv]
  let ?c = "current s" and ?t = "tasks s ! current s"
  obtain p where p: "stack_base ?t = p * PAGE_SIZE" "p < total_pages s" "p \<notin> free_pages s"
    by (rule running_stack [OF inv c])
  let ?s1 = "cli_insn s"
  let ?s2 = "?s1\<lparr>tasks := map (delivered (pid ?t) code) (tasks s)\<rparr>"
  let ?t' = "?t\<lparr>tstate := Terminated, exit_code := code\<rparr>"
  let ?s3 = "set_task ?c ?t' ?s2"
  have ok1: "table_ok ?s1" using d(4) by (simp add: table_ok_def cli_insn_def)
  have rel: "release_waiters (pid ?t) code [0..<MAX_TASKS] ?s1 = Inr ?s2"
    using release_waiters_all [OF ok1, of "pid ?t" code] by (simp add: cli_insn_def)
  have get1: "get_task ?c ?s1 = Inr ?t" using d(1,2) by (simp add: get_task_def cli_insn_def)
  have "delivered (pid ?t) code ?t = ?t" using d(8) by (simp add: delivered_def)
  then have get2: "get_task ?c ?s2 = Inr ?t" using d(1,2) by (simp add: get_task_def)
  have part3: "vm_part ?s3 = vm_part s" by (simp add: vm_part_def set_task_def cli_insn_def)
  have "pmm_inv ?s3" using vm_part_cong(1) [OF part3] d(6) vm_invD(1) by blast
  moreover have "total_pages ?s3 = total_pages s" using part3 by (simp add: vm_part_def)
  ultimately have fr: "free_page pr (stack_base ?t) ?s3 = Inr (put_page p ?s3)"
    using p vm_part_cong(4) [OF part3] by (simp add: free_page_eq)
  have ser: "serial_good (put_page p ?s3)" using d(3) by (simp add: put_page_def cli_insn_def)
  obtain lg where lg: "print_terminated pr (pid ?t) code (put_page p ?s3) = Inr ((put_page p ?s3)\<lparr>io_log := lg\<rparr>)"
    using printsD [OF prints_messages(3) ser] by blast
  have fin: "terminate pr ?c code ?s2 = Inr ((put_page p ?s3)\<lparr>io_log := lg\<rparr>)"
    by (simp only: terminate_def get2 andThen.simps Let_def fr lg)
  have ex: "(put_page p ?s3)\<lparr>io_log := lg\<rparr> = exited code lg s"
    using p(1) by (simp add: exited_def Let_def put_page_def set_task_def cli_insn_def)
  have cur: "current ?s1 = ?c" by (simp add: cli_insn_def)
  show ?thesis
    by (rule exI [of _ lg]) (simp only: exit_task_def Let_def cur get1 andThen.simps rel fin ex)
qed

lemma exited_leaving:
  assumes inv: "sched_inv s" and c: "current s \<noteq> 0"
  shows "leaving (exited code lg s)"
proof -
  note d = sched_invD [OF inv]
  let ?c = "current s" and ?t = "tasks s ! current s"
  let ?t' = "?t\<lparr>tstate := Terminated, exit_code := code\<rparr>"
  let ?ts = "map (delivered (pid ?t) code) (tasks s)"
  let ?s' = "exited code lg s"
  obtain p where p: "stack_base ?t = p * PAGE_SIZE" "p < total_pages s" "p \<notin> free_pages s"
    "p * PAGE_SIZE \<notin> table_frames s" by (rule running_stack [OF inv c])
  have fields: "tasks ?s' = ?ts[?c := ?t']" "current ?s' = ?c" "next_pid ?s' = next_pid s" "dev_in ?s' = dev_in s"
    "task_lock ?s' = task_lock s" "ticks_on_current ?s' = ticks_on_current s"
    by (simp_all add: exited_def Let_def put_page_def)
  have part: "vm_part ?s' = vm_part (put_page p s)" using p(1) by (simp add: exited_def Let_def vm_part_def put_page_def)
  note vm = put_page_vm [OF d(6) p(2-4)] and cong = vm_part_cong [OF part]
  have h: "hhdm_offset ?s' = hhdm_offset s" using part vm(4) by (simp add: vm_part_def)
  have space: "stack_space ?s' = stack_space s - {stack_base ?t}"
    using vm(2) p(1) by (simp add: stack_space_def table_frames_def cong)
  have keeps: "keeps_all (tasks s) ?ts" by (auto simp: keeps_all_def delivered_def keeps_def)
  have same: "?ts ! ?c = ?t" using d(1,2,8) by (simp add: delivered_def)
  have len: "length ?ts = 32" using d(1) by simp
  have st: "stacks_ok ?ts (stack_space s) (hhdm_offset s)" "pids_ok ?ts (next_pid s)"
    using keeps_stacks [OF keeps d(1)] keeps_pids [OF keeps d(1)] d(5) by (simp_all add: table_inv_def)
  have "stacks_ok (?ts[?c := ?t']) (stack_space s - {stack_base ?t}) (hhdm_offset s)"
    using stacks_terminate [OF st(1) len d(2), of ?t'] c d(8) by (simp add: same alive_def)
  moreover have nth: "?ts[?c := ?t'] ! i = (if i = ?c then ?t' else delivered (pid ?t) code (tasks s ! i))" if "i < 32" for i
    using that d(1) by (simp add: nth_list_update)
  have "pids_ok (?ts[?c := ?t']) (next_pid s)"
  proof -
    have "pid (?ts[?c := ?t'] ! i) = pid (?ts ! i) \<and> (tstate (?ts[?c := ?t'] ! i) = Empty \<longleftrightarrow> tstate (?ts ! i) = Empty)"
      if "i < 32" for i
      using that d(1,2,8) same by (cases "i = ?c") simp_all
    then show ?thesis using st(2) by (simp add: pids_ok_def)
  qed
  moreover have "table_ok ?s'"
  proof -
    have "\<forall>t \<in> set ?ts. length (tname t) = 16" using d(4) by (auto simp: table_ok_def delivered_def)
    moreover have "length (tname ?t') = 16" using d(1,2,4) by (auto simp: table_ok_def)
    ultimately have "\<forall>t \<in> set (?ts[?c := ?t']). length (tname t) = 16"
      using set_update_subset_insert [of ?ts ?c ?t'] by blast
    then show ?thesis using d(1,2) by (simp add: table_ok_def fields)
  qed
  ultimately have "table_inv ?s'" using d(3,7,11,12) vm(1) cong(1) by (simp add: table_inv_def fields h space)
  moreover have "i = ?c" if "i < 32" "tstate (tasks ?s' ! i) = Running" for i
    using that d(9) [of i] unfolding fields nth [OF that(1)] by (auto simp: delivered_def split: if_splits)
  moreover have "idle_ok (tasks ?s') ?c"
    using d(1,10) c unfolding fields idle_ok_def by (simp add: delivered_def)
  ultimately show ?thesis by (simp add: leaving_def fields)
qed

lemma exit_ok:
  assumes inv: "sched_inv s" and c: "current s \<noteq> 0"
  shows "\<exists>n s'. exit_task pr code s = Inr ((current s, n), s') \<and> n \<noteq> current s \<and> sched_inv s' \<and>
    (\<exists>lg. handed_over (exited code lg s) n (Some (current s, n)) s') \<and> step_summary (Exit code) s s'"
proof -
  note d = sched_invD [OF inv]
  obtain lg where lg: "exit_task pr code s = andThen (schedule pr (exited code lg s)) (\<lambda>(sw, s). case sw of Some sw \<Rightarrow> Inr (sw, s)
        | None \<Rightarrow> Inl (Panic ''internal error: entered unreachable code: exit: schedule() returned''))"
    using exit_eq [OF inv c] by blast
  let ?s = "exited code lg s"
  note l = exited_leaving [OF inv c, of code lg]
  obtain n sw s' where s': "schedule pr ?s = Inr (sw, s')" "handed_over ?s n sw s'"
    using schedule_hands_over [OF l] by blast
  have cur: "current ?s = current s" by (simp add: exited_def Let_def put_page_def)
  have ts: "tasks ?s ! i = (if i = current s then (tasks s ! i)\<lparr>tstate := Terminated, exit_code := code\<rparr>
      else delivered (pid (tasks s ! current s)) code (tasks s ! i))" if "i < 32" for i
    using that d(1) by (simp add: exited_def Let_def put_page_def nth_list_update)
  have n: "n < 32" "tstate (demote (tasks ?s) (current s) ! n) = Ready" "sw = (if n = current s then None else Some (current s, n))"
    using s'(2) cur unfolding handed_over_def by auto
  have "n \<noteq> current s"
    using n(1,2) ts [OF n(1)] leavingD(4,5) [OF l] by (auto simp: demote_nth cur split: if_splits)
  moreover have "step_summary (Exit code) s s'"
    by (rule handed_summary [OF s'(2) l cur]) (use d(8) in \<open>auto simp: ts delivered_def\<close>)
  ultimately show ?thesis
    using lg s' n(3) handed_over_inv [OF s'(2) l] by (auto intro!: exI [of _ n] exI [of _ s'] exI [of _ lg])
qed

section \<open>Every event\<close>

lemma event_ok:
  assumes inv: "sched_inv s" and al: "allowed pr ev s"
  shows "\<exists>sw s'. perform pr ev s = Inr (sw, s') \<and> sched_inv s' \<and> step_summary ev s s'"
proof (cases ev)
  case Tick
  then show ?thesis using on_tick_ok [OF inv, of pr] al by (simp add: perform_def)
next
  case (Create nm entry)
  then have "next_pid s \<noteq> -1" using al by (simp add: allowed_def)
  from create_ok [OF inv this, of pr nm entry] obtain r s' where "new_kernel_task pr nm entry s = Inr (r, s')"
    "sched_inv s'" "step_summary (Create nm entry) s s'" by blast
  then show ?thesis using Create by (simp add: perform_def)
next
  case Yield
  then have "current s \<noteq> 0" using al by (simp add: allowed_def)
  from yield_ok [OF inv this] show ?thesis using Yield by (simp add: perform_def)
next
  case (Sleep ms)
  then have "current s \<noteq> 0" using al by (simp add: allowed_def)
  from sleep_ok [OF inv this, of pr ms] show ?thesis using Sleep al by (simp add: perform_def)
next
  case (Exit code)
  then have "current s \<noteq> 0" using al by (simp add: allowed_def)
  from exit_ok [OF inv this, of pr code] obtain n s' where "exit_task pr code s = Inr ((current s, n), s')"
    "sched_inv s'" "step_summary (Exit code) s s'" by blast
  then show ?thesis using Exit by (simp add: perform_def)
next
  case (Wait p)
  then have "current s \<noteq> 0" using al by (simp add: allowed_def)
  from wait_ok [OF inv this, of pr p] obtain r s' where "wait_for pr p s = Inr (r, s')"
    "sched_inv s'" "step_summary (Wait p) s s'" by blast
  then show ?thesis using Wait by (simp add: perform_def)
qed

lemma switched_fields [simp]:
  "current (switched x sw s) = current s" "next_pid (switched x sw s) = next_pid s"
  "dev_in (switched x sw s) = dev_in s" "task_lock (switched x sw s) = task_lock s"
  "length (tasks (switched x sw s)) = length (tasks s)"
  "vm_part (switched x sw (s :: 'a task_state_scheme)) = vm_part s"
  by (simp_all add: switched_def set_task_def vm_part_def split: option.split)

lemma switched_sched [simp]:
  "ticks_on_current (switched x sw s) = ticks_on_current s" "tick_count (switched x sw s) = tick_count s"
  by (simp_all add: switched_def set_task_def split: option.split)

lemma switched_nth: "\<exists>r. tasks (switched x sw s) ! i = (tasks s ! i)\<lparr>t_rsp := r\<rparr>"
proof -
  have "\<exists>r. (tasks s)[c := (tasks s ! c)\<lparr>t_rsp := x\<rparr>] ! i = (tasks s ! i)\<lparr>t_rsp := r\<rparr>" for c
  proof (cases "i = c \<and> c < length (tasks s)")
    case True
    then show ?thesis by auto
  next
    case False
    then have "(tasks s)[c := (tasks s ! c)\<lparr>t_rsp := x\<rparr>] ! i = (tasks s ! i)\<lparr>t_rsp := t_rsp (tasks s ! i)\<rparr>"
      by (cases "i = c") (simp_all add: not_less list_update_beyond)
    then show ?thesis by blast
  qed
  moreover have "\<exists>r. tasks s ! i = (tasks s ! i)\<lparr>t_rsp := r\<rparr>" by (rule exI [of _ "t_rsp (tasks s ! i)"]) simp
  ultimately show ?thesis by (simp add: switched_def split: option.split)
qed

lemma switched_tstate [simp]: "tstate (tasks (switched x sw s) ! i) = tstate (tasks s ! i)"
  using switched_nth [of x sw s i] by auto

lemma switched_inv:
  assumes "sched_inv s" shows "sched_inv (switched x sw s)"
proof (rule sched_inv_stays [OF assms])
  show "keeps_all (tasks s) (tasks (switched x sw s))"
    unfolding keeps_all_def
  proof (intro conjI allI impI)
    fix i
    obtain r where "tasks (switched x sw s) ! i = (tasks s ! i)\<lparr>t_rsp := r\<rparr>" using switched_nth by blast
    then show "keeps (tasks s ! i) (tasks (switched x sw s) ! i)" by (simp add: keeps_def)
  qed simp
qed (use sched_invD [OF assms] in simp_all)

lemma switched_summary: "step_summary ev s s' \<Longrightarrow> step_summary ev s (switched x sw s')"
  by (simp add: step_summary_def)

section \<open>Runs\<close>

text \<open>A run records every event and the slot that has the processor after it.\<close>

inductive kernel_run ::
    "profile \<Rightarrow> 'a sched_state_scheme \<Rightarrow> (event \<times> nat) list \<Rightarrow> 'a sched_state_scheme \<Rightarrow> bool" for pr s0 where
  start: "kernel_run pr s0 [] s0"
| event: "kernel_run pr s0 tr s \<Longrightarrow> allowed pr ev s \<Longrightarrow> perform pr ev s = Inr (sw, s1) \<Longrightarrow>
    s' = switched x sw s1 \<Longrightarrow> kernel_run pr s0 (tr @ [(ev, current s')]) s'"

lemma run_step:
  assumes "sched_inv s" "allowed pr ev s" "perform pr ev s = Inr (sw, s1)" "s' = switched x sw s1"
  shows "sched_inv s'" "step_summary ev s s'"
proof -
  have "sched_inv s1" "step_summary ev s s1" using event_ok [OF assms(1,2)] assms(3) by auto
  then show "sched_inv s'" "step_summary ev s s'"
    unfolding assms(4) by (simp_all add: switched_inv switched_summary)
qed

lemma run_inv: "kernel_run pr s0 tr s \<Longrightarrow> sched_inv s0 \<Longrightarrow> sched_inv s"
  by (induction rule: kernel_run.induct) (auto intro: run_step(1))

text \<open>The rank of a ready task: an upper bound on the ticks until it runs.\<close>

definition waiting_rank :: "nat \<Rightarrow> 'a sched_state_scheme \<Rightarrow> nat" where
  "waiting_rank j s = 3 * cdist (current s) j + (2 - unat (ticks_on_current s))"

lemma rank_decreases:
  assumes inv: "sched_inv s" "sched_inv s'" and sum: "step_summary ev s s'"
    and j: "j < 32" "tstate (tasks s ! j) = Ready" "j \<noteq> current s'"
  shows "tstate (tasks s' ! j) = Ready" "waiting_rank j s' + (if ev = Tick then 1 else 0) \<le> waiting_rank j s"
proof -
  note d = sched_invD [OF inv(1)] and d' = sched_invD [OF inv(2)]
  have t: "unat (ticks_on_current s) < 3" "unat (ticks_on_current s') < 3"
    using d(7) d'(7) by (simp_all add: word_less_nat_alt)
  have jc: "j \<noteq> current s" using d(8) j(2) by auto
  show "tstate (tasks s' ! j) = Ready" using sum j by (auto simp: step_summary_def)
  from sum consider (same) "current s' = current s"
      "unat (ticks_on_current s') = unat (ticks_on_current s) + (if ev = Tick then 1 else 0)"
    | (moved) "cdist (current s) (current s') \<le> cdist (current s) j" "current s' \<noteq> current s \<Longrightarrow> ticks_on_current s' = 0"
    using j(1,2) unfolding step_summary_def by blast
  then show "waiting_rank j s' + (if ev = Tick then 1 else 0) \<le> waiting_rank j s"
  proof cases
    case same
    then show ?thesis using t by (simp add: waiting_rank_def)
  next
    case moved
    have "current s' \<noteq> current s"
      using moved(1) cdist_self [OF d(2)] cdist_less [OF d(2) j(1) jc] by auto
    then have z: "ticks_on_current s' = 0" by (rule moved(2))
    have "cdist (current s) (current s') \<noteq> cdist (current s) j"
      using rotation_cdist [OF d(2) d'(2)] rotation_cdist [OF d(2) j(1)] j(3) by metis
    then have "cdist (current s) (current s') < cdist (current s) j" using moved(1) by simp
    from cdist_advance [OF d(2) d'(2) j(1) this]
    have "3 * cdist (current s') j + 3 \<le> 3 * cdist (current s) j" by linarith
    moreover have "waiting_rank j s' = 3 * cdist (current s') j + 2" using z by (simp add: waiting_rank_def)
    moreover have "3 * cdist (current s) j \<le> waiting_rank j s" by (simp add: waiting_rank_def)
    ultimately show ?thesis by auto
  qed
qed

lemma waiting_bound:
  assumes "kernel_run pr s0 tr s" "sched_inv s0" "j < 32" "tstate (tasks s0 ! j) = Ready" "j \<notin> snd ` set tr"
  shows "tstate (tasks s ! j) = Ready \<and>
    waiting_rank j s + length (filter (\<lambda>(ev, c). ev = Tick) tr) \<le> waiting_rank j s0"
  using assms
proof (induction rule: kernel_run.induct)
  case start
  then show ?case by simp
next
  case (event tr s ev sw s1 s' x)
  have inv: "sched_inv s" by (rule run_inv [OF event.hyps(1) event.prems(1)])
  note st = run_step [OF inv event.hyps(2-4)]
  have "j \<noteq> current s'" using event.prems(4) by auto
  moreover have IH: "tstate (tasks s ! j) = Ready"
    "waiting_rank j s + length (filter (\<lambda>(ev, c). ev = Tick) tr) \<le> waiting_rank j s0"
    using event by auto
  ultimately show ?case using rank_decreases [OF inv st(1) st(2) event.prems(2) IH(1)] IH(2) by auto
qed

section \<open>Properties\<close>

lemma only_idle:
  assumes "\<And>i. i < 32 \<Longrightarrow> i \<noteq> 0 \<Longrightarrow> tstate (ts ! i) = Empty"
  shows "pid (ts ! 0) = 0 \<Longrightarrow> pids_ok ts np" "stacks_ok ts F h"
proof -
  have e: "i < 32 \<Longrightarrow> tstate (ts ! i) \<noteq> Empty \<Longrightarrow> i = 0" for i using assms by blast
  show "pid (ts ! 0) = 0 \<Longrightarrow> pids_ok ts np" unfolding pids_ok_def using e by blast
  show "stacks_ok ts F h" using assms by (simp add: stacks_ok_def owned_def alive_def)
qed

text \<open>The table after \<open>init_tasks\<close> on the tables as they are linked.\<close>

lemma init_tasks_inv:
  assumes "vm_inv s" "serial_good s" "tasks s = initial_tasks" "\<not> task_lock s" "ticks_on_current s = 0"
  shows "\<exists>s'. init_tasks s = Inr s' \<and> sched_inv s' \<and> current s' = 0 \<and> next_pid s' = 1 \<and>
    vm_part s' = vm_part s \<and> (\<forall>i < 32. tstate (tasks s' ! i) = (if i = 0 then Running else Empty)) \<and>
    ticks_on_current s' = 0"
proof -
  let ?t = "task_empty\<lparr>tstate := Running, pid := 0, tname := asc ''idle'' @ drop 4 (tname task_empty)\<rparr>"
  let ?s = "(set_task 0 ?t s)\<lparr>current := 0, next_pid := 1\<rparr>"
  have ser: "serial_good ?s" using assms(2) by simp
  obtain lg where lg: "serial_print ''[task] idle task initialised (slot 0)\<newline>'' ?s = Inr (?s\<lparr>io_log := lg\<rparr>)"
    using printsD [OF prints_basic(1) ser] by blast
  have get: "get_task 0 s = Inr task_empty" by (simp add: get_task_def assms(3) initial_tasks_def)
  have run: "init_tasks s = Inr (?s\<lparr>io_log := lg\<rparr>)"
    by (simp only: init_tasks_def get andThen.simps Let_def lg)
  let ?s' = "?s\<lparr>io_log := lg\<rparr>"
  have nth: "tasks ?s' ! i = (if i = 0 then ?t else task_empty)" if "i < 32" for i
    using that by (simp add: assms(3) initial_tasks_def nth_list_update)
  have st: "tstate (tasks ?s' ! i) = (if i = 0 then Running else Empty)" if "i < 32" for i
    using that by (simp only: nth) (simp add: task_empty_def)
  have part: "vm_part ?s' = vm_part s" by (simp add: vm_part_def set_task_def)
  have "table_ok ?s'"
  proof -
    have "length (tname ?t) = 16" by (simp add: task_empty_def asc_def)
    then have "\<forall>t \<in> set ((tasks s)[0 := ?t]). length (tname t) = 16"
      using set_update_subset_insert [of "tasks s" 0 ?t] by (auto simp: assms(3) initial_tasks_def task_empty_def)
    then show ?thesis by (simp add: table_ok_def assms(3) initial_tasks_def)
  qed
  moreover have "pid (tasks ?s' ! 0) = 0" by (simp add: assms(3) initial_tasks_def)
  then have "pids_ok (tasks ?s') 1" by (intro only_idle(1)) (simp_all only: st if_False)
  moreover have "stacks_ok (tasks ?s') F h" for F h by (intro only_idle(2)) (simp only: st if_False)
  moreover have "vm_inv ?s'" using vm_part_cong(1) [OF part] assms(1) by simp
  moreover have "\<not> task_lock ?s'" "next_pid ?s' = 1" "current ?s' = 0" "ticks_on_current ?s' = 0" "serial_good ?s'"
    using assms(2,4,5) by (simp_all add: set_task_def)
  ultimately have "sched_inv ?s'"
    using st unfolding sched_inv_def table_inv_def one_running_def idle_ok_def by auto
  then show ?thesis using run st part \<open>ticks_on_current ?s' = 0\<close> by (intro exI [of _ ?s']) simp
qed

text \<open>Small machines for the witnesses: after \<open>init_tasks\<close>, and with a task in slot 1 running.\<close>

definition small_sched :: sched_state where
  "small_sched = (small_vmm undefined)\<lparr>dev_in := (\<lambda>l p. 0xff), tasks := initial_tasks,
     task_lock := False, next_pid := 1, current := 0, rflags_reg := 0x202, ticks_on_current := 0, tick_count := 0\<rparr>"

lemma small_sched_ok:
  "vm_inv small_sched" "serial_good small_sched" "tasks small_sched = initial_tasks"
  "\<not> task_lock small_sched" "ticks_on_current small_sched = 0" "free_pages small_sched = {10, 11, 12, 13, 14}"
proof -
  have part: "vm_part small_sched = vm_part (small_vmm undefined :: sched_state)"
    by (simp add: small_sched_def vm_part_def)
  show "vm_inv small_sched" "free_pages small_sched = {10, 11, 12, 13, 14}"
    unfolding vm_part_cong [OF part] by (rule small_vmm_inv, rule small_vmm_free)
  show "serial_good small_sched" "tasks small_sched = initial_tasks" "\<not> task_lock small_sched"
    "ticks_on_current small_sched = 0" by (simp_all add: small_sched_def uart_ready_ff)
qed

lemma small_booted:
  "\<exists>s :: sched_state. init_tasks small_sched = Inr s \<and> sched_inv s \<and> current s = 0 \<and> next_pid s = 1 \<and>
     free_pages s = {10, 11, 12, 13, 14} \<and> (\<forall>i < 32. tstate (tasks s ! i) = (if i = 0 then Running else Empty)) \<and>
     ticks_on_current s = 0"
proof -
  obtain s where s: "init_tasks small_sched = Inr s" "sched_inv s" "current s = 0" "next_pid s = 1"
    "vm_part s = vm_part small_sched" "\<forall>i < 32. tstate (tasks s ! i) = (if i = 0 then Running else Empty)"
    "ticks_on_current s = 0" using init_tasks_inv [OF small_sched_ok(1-5)] by blast
  then show ?thesis using vm_part_cong(4) [OF s(5)] small_sched_ok(6) by (intro exI [of _ s]) simp
qed

lemma small_ready:
  "\<exists>s :: sched_state. sched_inv s \<and> current s = 0 \<and> tstate (tasks s ! 1) = Ready \<and> pid (tasks s ! 1) = 1"
proof -
  obtain s :: sched_state where s: "sched_inv s" "current s = 0" "next_pid s = 1" "free_pages s = {10, 11, 12, 13, 14}"
    "\<forall>i < 32. tstate (tasks s ! i) = (if i = 0 then Running else Empty)"
    using small_booted by blast
  note d = sched_invD [OF s(1)]
  have slot: "alloc_slot s = Inr (Some 1)"
    using d(4) s(5) by (simp add: alloc_slot_eq find_upt_Some del: upt_Suc)
  have two: "2 \<le> card (free_pages s)" using s(4) by simp
  obtain s' where s': "created 1 [] 0 s s'"
    using new_kernel_task_success [OF d(6,4,3) slot two, where nm = "[]" and entry = 0] s(3) by auto
  obtain t where t: "tasks s' = (tasks s)[1 := t]" "tstate t = Ready" "pid t = next_pid s"
    using s' unfolding created_def by blast
  have "sched_inv s'" by (rule created_inv [OF s(1) s']) (use s(3,5) in simp_all)
  then show ?thesis using created_same(1) [OF s'] s(2,3) t d(1) by (intro exI [of _ s']) simp
qed

lemma small_running:
  "\<exists>s :: sched_state. sched_inv s \<and> current s = 1 \<and> pid (tasks s ! 1) = 1"
proof -
  obtain s :: sched_state where s: "sched_inv s" "current s = 0" "tstate (tasks s ! 1) = Ready" "pid (tasks s ! 1) = 1"
    using small_ready by blast
  note l = sched_inv_leaving [OF s(1)]
  obtain n sw s' where h: "handed_over s n sw s'" using schedule_hands_over [OF l] by blast
  have "tstate (demote (tasks s) 0 ! 1) = Ready" using s(3) leavingD(4) [OF l] by (simp add: demote_nth)
  then have "cdist 0 n \<le> cdist 0 1" "n < 32" "current s' = n" using h s(2) unfolding handed_over_def by auto
  moreover have "cdist 0 1 = 0" by (simp add: cdist_def)
  ultimately have n: "n = 1" "current s' = 1" using rotation_cdist [of 0 n] by simp_all
  then show ?thesis using handed_over_inv [OF h l] handed_over_nth [OF h l, of 1] s(4)
    by (intro exI [of _ s']) (simp add: runs_def)
qed

text \<open>
  C6: No event breaks the kernel: in a state that satisfies the invariant, every event that can
  happen (tick, creation, yield, sleep, exit, wait) completes without a panic, in particular
  \<open>schedule\<close> always finds a task and the \<open>unreachable!\<close> of \<open>exit\<close> is not reached, and it leaves
  a state that satisfies the invariant again, also after the stack pointer of the task switched out
  has been stored.
\<close>

theorem kernel_events_safe:
  assumes "sched_inv s" "allowed pr ev s"
  shows "\<exists>sw s'. perform pr ev s = Inr (sw, s') \<and> sched_inv (switched saved_sp sw s')"
  using event_ok [OF assms] switched_inv by blast

theorem kernel_events_safe_witness:
  "\<exists>(s :: sched_state) sw s'. perform Dev (Exit 3) s = Inr (sw, s') \<and> sched_inv (switched 0x9000 sw s')"
proof -
  obtain s :: sched_state where s: "sched_inv s" "current s = 1" using small_running by blast
  then have "allowed Dev (Exit 3) s" by (simp add: allowed_def)
  from kernel_events_safe [OF s(1) this] show ?thesis by blast
qed

text \<open>
  C1: What holds at every moment after \<open>init_tasks\<close>, whatever events follow: exactly the current
  slot is running; the idle task can always run; pids are unique among the slots in use; the frames
  of different tasks' stacks are different, are not free, and hold no page table; and the task lock
  is free between events.
\<close>

theorem multitasking_safety:
  assumes "vm_inv s0" "serial_good s0" "tasks s0 = initial_tasks" "\<not> task_lock s0" "ticks_on_current s0 = 0"
    and "init_tasks s0 = Inr s1" "kernel_run pr s1 tr s"
  shows "(\<forall>i < 32. tstate (tasks s ! i) = Running \<longleftrightarrow> i = current s) \<and>
    (tstate (tasks s ! 0) = Ready \<or> current s = 0) \<and> \<not> task_lock s \<and> vm_inv s \<and>
    (\<forall>i < 32. \<forall>j < 32. i \<noteq> j \<and> tstate (tasks s ! i) \<noteq> Empty \<and> tstate (tasks s ! j) \<noteq> Empty \<longrightarrow>
       pid (tasks s ! i) \<noteq> pid (tasks s ! j)) \<and>
    (\<forall>i < 32. \<forall>j < 32. 0 < i \<and> 0 < j \<and> i \<noteq> j \<longrightarrow>
       owned (hhdm_offset s) (tasks s ! i) \<inter> owned (hhdm_offset s) (tasks s ! j) = {}) \<and>
    (\<forall>i < 32. 0 < i \<longrightarrow> owned (hhdm_offset s) (tasks s ! i) \<inter> (avail_frames s \<union> table_frames s) = {})"
proof -
  have "sched_inv s1" using init_tasks_inv [OF assms(1-5)] assms(6) by auto
  then have inv: "sched_inv s" by (rule run_inv [OF assms(7)])
  note d = sched_invD [OF inv]
  have p: "pids_ok (tasks s) (next_pid s)" "stacks_ok (tasks s) (stack_space s) (hhdm_offset s)"
    using d(5) by (simp_all add: table_inv_def)
  have "owned (hhdm_offset s) (tasks s ! i) \<inter> (avail_frames s \<union> table_frames s) = {}" if "i < 32" "0 < i" for i
    using p(2) that by (fastforce simp: stacks_ok_def stack_space_def)
  then show ?thesis
    using d(6,8,9,10,11) p by (auto simp: pids_ok_def stacks_ok_def)
qed

theorem multitasking_safety_witness:
  "\<exists>s1 s. init_tasks small_sched = Inr s1 \<and> kernel_run Release s1 [(Tick, 0)] s \<and> current s = 0 \<and> \<not> task_lock s"
proof -
  obtain s1 :: sched_state where s1: "init_tasks small_sched = Inr s1" "sched_inv s1" "current s1 = 0"
    "\<forall>i < 32. tstate (tasks s1 ! i) = (if i = 0 then Running else Empty)" "ticks_on_current s1 = 0"
    using small_booted by blast
  have al: "allowed Release Tick s1" by (simp add: allowed_def)
  obtain sw s' where s': "perform Release Tick s1 = Inr (sw, s')" "sched_inv s'" "step_summary Tick s1 s'"
    using event_ok [OF s1(2) al] by blast
  let ?s = "switched 0 sw s'"
  have run: "kernel_run Release s1 [(Tick, current ?s)] ?s"
    using kernel_run.event [OF kernel_run.start al s'(1) refl, of 0] by simp
  have safe: "tstate (tasks ?s ! 0) = Ready \<or> current ?s = 0" "\<not> task_lock ?s"
    "tstate (tasks ?s ! current ?s) = Running \<or> \<not> current ?s < 32"
    using multitasking_safety [OF small_sched_ok(1-5) s1(1) run] by auto
  have "current ?s = 0"
  proof -
    obtain lg where "tick Release (tick_count s1 + 1) (s1\<lparr>tick_count := tick_count s1 + 1\<rparr>) =
        Inr (None, ticked (tick_count s1 + 1) lg 1 (s1\<lparr>tick_count := tick_count s1 + 1\<rparr>))"
    proof -
      have i: "sched_inv (s1\<lparr>tick_count := tick_count s1 + 1\<rparr>)"
        by (rule sched_inv_stays [OF s1(2)]) (use sched_invD [OF s1(2)] in \<open>simp_all add: vm_part_def\<close>)
      show ?thesis using tick_eq [OF i, of Release "tick_count s1 + 1"] s1(5) that by auto
    qed
    then have "s' = ticked (tick_count s1 + 1) lg 1 (s1\<lparr>tick_count := tick_count s1 + 1\<rparr>)"
      using s'(1) by (simp add: perform_def on_tick_def Let_def)
    then show ?thesis using s1(3) by (simp add: ticked_def)
  qed
  then show ?thesis using s1(1) run safe(2) by (intro exI [of _ s1] exI [of _ ?s]) simp
qed

text \<open>
  C7: Bounded waiting: a ready task gets the processor before 93 timer ticks have passed (three
  ticks for each of the other slots), whatever else happens in between: no task is starved.
\<close>

theorem ready_task_runs:
  assumes "sched_inv s0" "j < 32" "tstate (tasks s0 ! j) = Ready" "kernel_run pr s0 tr s"
    and "93 \<le> length (filter (\<lambda>(ev, c). ev = Tick) tr)"
  shows "j \<in> snd ` set tr"
proof (rule ccontr)
  assume "j \<notin> snd ` set tr"
  from waiting_bound [OF assms(4,1,2,3) this] have "93 \<le> waiting_rank j s0" using assms(5) by linarith
  moreover have "cdist (current s0) j < 31"
    using sched_invD(2,8) [OF assms(1)] assms(2,3) by (intro cdist_less) auto
  then have "waiting_rank j s0 \<le> 92" by (simp add: waiting_rank_def)
  ultimately show False by simp
qed

lemma ticks_run_on:
  fixes s0 :: "'a sched_state_scheme"
  assumes "sched_inv s0"
  shows "\<exists>tr s. kernel_run Release s0 tr s \<and> length (filter (\<lambda>(ev, c). ev = Tick) tr) = n"
proof (induction n)
  case 0
  show ?case by (intro exI [of _ "[]"] exI [of _ s0]) (simp add: kernel_run.start)
next
  case (Suc n)
  then obtain tr s where r: "kernel_run Release s0 tr s" "length (filter (\<lambda>(ev, c). ev = Tick) tr) = n" by blast
  have al: "allowed Release Tick s" by (simp add: allowed_def)
  obtain sw s' where "perform Release Tick s = Inr (sw, s')" using event_ok [OF run_inv [OF r(1) assms] al] by blast
  from kernel_run.event [OF r(1) al this refl, of 0] r(2) show ?case by (intro exI conjI) (assumption, simp)
qed

theorem ready_task_runs_witness:
  "\<exists>(s0 :: sched_state) tr s. kernel_run Release s0 tr s \<and> current s0 = 0 \<and> 1 \<in> snd ` set tr"
proof -
  obtain s0 :: sched_state where s0: "sched_inv s0" "current s0 = 0" "tstate (tasks s0 ! 1) = Ready"
    using small_ready by blast
  obtain tr s where r: "kernel_run Release s0 tr s" "length (filter (\<lambda>(ev, c). ev = Tick) tr) = 93"
    using ticks_run_on [OF s0(1)] by blast
  have "1 \<in> snd ` set tr" by (rule ready_task_runs [OF s0(1) _ s0(3) r(1)]) (simp_all add: r(2))
  then show ?thesis using r(1) s0(2) by blast
qed

lemma on_tick_handed:
  assumes inv: "sched_inv s" and al: "allowed pr Tick s"
  defines "now \<equiv> tick_count s + 1"
  shows "\<exists>sw s' lg n. on_tick pr s = Inr (sw, s') \<and>
    (sw = None \<and> s' = ticked now lg n (s\<lparr>tick_count := now\<rparr>) \<or>
     (\<exists>k. handed_over (ticked now lg 0 (s\<lparr>tick_count := now\<rparr>)) k sw s' \<and>
        leaving (ticked now lg 0 (s\<lparr>tick_count := now\<rparr>))))"
proof -
  let ?s = "s\<lparr>tick_count := now\<rparr>"
  have i: "sched_inv ?s" by (rule sched_inv_stays [OF inv]) (use sched_invD [OF inv] in \<open>simp_all add: vm_part_def\<close>)
  have fits: "pr = Dev \<Longrightarrow> unat (ticks_run (tasks ?s ! current ?s)) + 1 < usize_lim" using al by (simp add: allowed_def)
  obtain lg where lg: "on_tick pr s = (if ticks_on_current ?s = 2 then schedule pr (ticked now lg 0 ?s)
      else Inr (None, ticked now lg (ticks_on_current ?s + 1) ?s))"
    using tick_eq [OF i fits, where now = now] by (auto simp: on_tick_def Let_def now_def)
  show ?thesis
  proof (cases "ticks_on_current ?s = 2")
    case True
    have l: "leaving (ticked now lg 0 ?s)" by (rule ticked_leaving [OF i]) simp
    obtain k sw s' where "schedule pr (ticked now lg 0 ?s) = Inr (sw, s')" "handed_over (ticked now lg 0 ?s) k sw s'"
      using schedule_hands_over [OF l, of pr] by blast
    then show ?thesis using lg True l by auto
  next
    case False
    then show ?thesis using lg by auto
  qed
qed

text \<open>
  C20: Sleeping ends on time: a task that is blocked until tick \<open>w\<close> is left exactly as it is by
  every timer tick before \<open>w\<close>, and the first tick at or after \<open>w\<close> makes it ready (or running, if
  it is scheduled in that very tick) with its wake-up time cleared.
\<close>

theorem sleeper_wakes_on_time:
  assumes "sched_inv s" "allowed pr Tick s" "i < 32" "tstate (tasks s ! i) = Blocked"
    and "sleep_until (tasks s ! i) = w" "w \<noteq> 0"
  shows "\<exists>sw s'. on_tick pr s = Inr (sw, s') \<and> tick_count s' = tick_count s + 1 \<and>
    (if tick_count s + 1 < w then tasks s' ! i = tasks s ! i
     else tstate (tasks s' ! i) \<in> {Ready, Running} \<and> sleep_until (tasks s' ! i) = 0)"
proof -
  let ?now = "tick_count s + 1"
  let ?s = "s\<lparr>tick_count := ?now\<rparr>"
  note d = sched_invD [OF assms(1)]
  have i: "sched_inv ?s" by (rule sched_inv_stays [OF assms(1)]) (use d in \<open>simp_all add: vm_part_def\<close>)
  have ic: "i \<noteq> current s" using d(8) assms(4) by auto
  have wk: "tasks (ticked ?now lg n ?s) ! i = wake ?now (tasks s ! i)" for lg n
    using ticked_nth [OF i assms(3)] ic by simp
  have due: "due ?now (tasks s ! i) \<longleftrightarrow> \<not> ?now < w" using assms(4-6) by (auto simp: due_def)
  obtain sw s' lg n where s': "on_tick pr s = Inr (sw, s')"
    "s' = ticked ?now lg n ?s \<or> (\<exists>k. handed_over (ticked ?now lg 0 ?s) k sw s' \<and> leaving (ticked ?now lg 0 ?s))"
    using on_tick_handed [OF assms(1,2)] by blast
  from s'(2) have "tick_count s' = ?now \<and> (if ?now < w then tasks s' ! i = tasks s ! i
      else tstate (tasks s' ! i) \<in> {Ready, Running} \<and> sleep_until (tasks s' ! i) = 0)"
  proof
    assume "s' = ticked ?now lg n ?s"
    then show ?thesis using wk due by (auto simp: wake_def) (simp_all add: ticked_def)
  next
    assume "\<exists>k. handed_over (ticked ?now lg 0 ?s) k sw s' \<and> leaving (ticked ?now lg 0 ?s)"
    then obtain k where k: "handed_over (ticked ?now lg 0 ?s) k sw s'" "leaving (ticked ?now lg 0 ?s)" by blast
    have cur: "current (ticked ?now lg 0 ?s) = current s" by (simp add: ticked_def)
    have t: "tasks s' ! i = (if i = k then runs (wake ?now (tasks s ! i)) else wake ?now (tasks s ! i))"
      using handed_over_nth [OF k assms(3)] ic cur wk by auto
    have "tstate (demote (tasks (ticked ?now lg 0 ?s)) (current s) ! k) = Ready" "k < 32"
      using k(1) cur unfolding handed_over_def by auto
    then have "i = k \<Longrightarrow> tstate (wake ?now (tasks s ! i)) = Ready"
      using leavingD(4,5) [OF k(2)] ic cur wk by (simp add: demote_nth)
    moreover have "tick_count s' = ?now" using k(1) by (simp add: handed_over_def ticked_def)
    ultimately show ?thesis using t due assms(4) by (auto simp: wake_def runs_def split: if_splits)
  qed
  then show ?thesis using s'(1) by blast
qed

theorem sleeper_wakes_on_time_witness:
  "\<exists>(s :: sched_state) sw s'. tstate (tasks s ! 1) = Blocked \<and> on_tick Release s = Inr (sw, s') \<and>
     tstate (tasks s' ! 1) \<in> {Ready, Running}"
proof -
  obtain s :: sched_state where s: "sched_inv s" "current s = 0" "tstate (tasks s ! 1) = Ready"
    using small_ready by blast
  note d = sched_invD [OF s(1)]
  let ?s = "(set_task 1 ((tasks s ! 1)\<lparr>tstate := Blocked, sleep_until := 1\<rparr>) s)\<lparr>tick_count := 0\<rparr>"
  have t: "tasks ?s = (tasks s)[1 := (tasks s ! 1)\<lparr>tstate := Blocked, sleep_until := 1\<rparr>]" by simp
  have k: "keeps_all (tasks s) (tasks ?s)" unfolding t by (rule keeps_all_update) (use s(3) in \<open>simp add: keeps_def\<close>)
  have "table_inv ?s"
    by (rule table_inv_keeps [OF d(5) k]) (use d in \<open>simp_all add: vm_part_def set_task_def\<close>)
  moreover have "one_running (tasks ?s) 0" "idle_ok (tasks ?s) 0"
    using d(1,8,9) s(2) unfolding one_running_def idle_ok_def t by (auto simp: nth_list_update)
  ultimately have inv: "sched_inv ?s" using s(2) by (simp add: sched_inv_def set_task_def)
  have al: "allowed Release Tick ?s" by (simp add: allowed_def)
  have b: "tstate (tasks ?s ! 1) = Blocked" "sleep_until (tasks ?s ! 1) = 1" using d(1) by simp_all
  obtain sw s' where "on_tick Release ?s = Inr (sw, s')"
    "if tick_count ?s + 1 < 1 then tasks s' ! 1 = tasks ?s ! 1
     else tstate (tasks s' ! 1) \<in> {Ready, Running} \<and> sleep_until (tasks s' ! 1) = 0"
    using sleeper_wakes_on_time [OF inv al _ b] by auto
  then show ?thesis using b(1) by (intro exI [of _ ?s] exI [of _ sw] exI [of _ s']) simp
qed

text \<open>
  C18: \<open>exit\<close> hands over: it never returns to the exiting task; the task is terminated with its exit
  code; every task that waits for it becomes runnable; another task runs; and exactly one of the
  two frames of its stack goes back to the frame allocator.
\<close>

theorem exit_hands_over:
  assumes "sched_inv s" "current s \<noteq> 0"
  shows "\<exists>n s'. exit_task pr code s = Inr ((current s, n), s') \<and> n \<noteq> current s \<and> current s' = n \<and>
    tstate (tasks s' ! current s) = Terminated \<and> exit_code (tasks s' ! current s) = code \<and>
    pid (tasks s' ! current s) = pid (tasks s ! current s) \<and>
    (\<forall>i < 32. tstate (tasks s ! i) = Blocked \<and> wait_for_pid (tasks s ! i) = Some (pid (tasks s ! current s)) \<longrightarrow>
       tstate (tasks s' ! i) \<in> {Ready, Running} \<and> wait_for_pid (tasks s' ! i) = None) \<and>
    avail_frames s' = insert (stack_base (tasks s ! current s)) (avail_frames s) \<and>
    top_frame (hhdm_offset s) (tasks s ! current s) \<notin> avail_frames s'"
proof -
  note d = sched_invD [OF assms(1)]
  let ?c = "current s" and ?t = "tasks s ! current s"
  obtain n s' lg where s': "exit_task pr code s = Inr ((?c, n), s')" "n \<noteq> ?c"
    "handed_over (exited code lg s) n (Some (?c, n)) s'"
    using exit_ok [OF assms] by blast
  note l = exited_leaving [OF assms, of code lg]
  have ts: "tasks (exited code lg s) ! i = (if i = ?c then ?t\<lparr>tstate := Terminated, exit_code := code\<rparr>
      else delivered (pid ?t) code (tasks s ! i))" if "i < 32" for i
    using that d(1) by (simp add: exited_def Let_def put_page_def nth_list_update)
  have cur: "current (exited code lg s) = ?c" by (simp add: exited_def Let_def put_page_def)
  have t': "tasks s' ! i = (if i = n then runs (tasks (exited code lg s) ! i) else tasks (exited code lg s) ! i)"
    if "i < 32" for i
    using handed_over_nth [OF s'(3) l that] ts [OF that] cur by auto
  have c: "tasks s' ! ?c = ?t\<lparr>tstate := Terminated, exit_code := code\<rparr>" using t' [OF d(2)] ts [OF d(2)] s'(2) by simp
  have w: "tstate (tasks s' ! i) \<in> {Ready, Running} \<and> wait_for_pid (tasks s' ! i) = None"
    if "i < 32" "tstate (tasks s ! i) = Blocked \<and> wait_for_pid (tasks s ! i) = Some (pid ?t)" for i
    using that t' [OF that(1)] ts [OF that(1)] d(8) by (auto simp: delivered_def runs_def)
  obtain p where p: "stack_base ?t = p * PAGE_SIZE" "p < total_pages s" "p \<notin> free_pages s"
    by (rule running_stack [OF assms])
  have "vm_part s' = vm_part (put_page p s)"
    using s'(3) p(1) by (simp add: handed_over_def exited_def Let_def vm_part_def put_page_def)
  from vm_part_cong(3) [OF this]
  have av: "avail_frames s' = insert (stack_base ?t) (avail_frames s)"
    using p(1) free_pages_put [OF vm_invD(1) [OF d(6)] p(2)] by (simp add: avail_frames_def)
  have st: "stacks_ok (tasks s) (stack_space s) (hhdm_offset s)" using d(5) by (simp add: table_inv_def)
  then have "owned (hhdm_offset s) ?t \<subseteq> stack_space s" "stack_base ?t \<noteq> top_frame (hhdm_offset s) ?t"
    using d(2,8) assms(2) by (auto simp: stacks_ok_def alive_def)
  then have "top_frame (hhdm_offset s) ?t \<notin> avail_frames s'" using d(8) by (auto simp: av owned_def stack_space_def)
  moreover have "current s' = n" using s'(3) by (simp add: handed_over_def)
  ultimately show ?thesis using s'(1,2) c w av by (intro exI [of _ n] exI [of _ s']) simp
qed

theorem exit_hands_over_witness:
  "\<exists>(s :: sched_state) n s'. current s = 1 \<and> exit_task Dev 7 s = Inr ((1, n), s') \<and> exit_code (tasks s' ! 1) = 7"
proof -
  obtain s :: sched_state where s: "sched_inv s" "current s = 1" using small_running by blast
  then show ?thesis using exit_hands_over [OF s(1), of Dev 7] by auto
qed

text \<open>A task that blocks gives the processor to another one and keeps its entry.\<close>

lemma blocks_hands_over:
  assumes inv: "sched_inv s" and c: "current s \<noteq> 0" and keeps: "keeps (tasks s ! current s) t" and t: "tstate t = Blocked"
    and s1: "s1 = set_task (current s) t (cli_insn s)"
  shows "\<exists>n s'. schedule pr s1 = Inr (Some (current s, n), s') \<and> n \<noteq> current s \<and> current s' = n \<and> tasks s' ! current s = t"
proof -
  note d = sched_invD [OF inv]
  have t1: "tasks s1 = (tasks s)[current s := t]" "current s1 = current s" by (simp_all add: s1 cli_insn_def)
  have l: "leaving s1"
  proof (rule leaving_keeps [OF inv])
    show "keeps_all (tasks s) (tasks s1)" unfolding t1 by (rule keeps_all_update [OF keeps])
    show "idle_ok (tasks s1) (current s)" using c d(1,10) by (simp add: t1 idle_ok_def)
  qed (use d in \<open>simp_all add: s1 vm_part_def cli_insn_def set_task_def\<close>)
  obtain n sw s' where h: "schedule pr s1 = Inr (sw, s')" "handed_over s1 n sw s'"
    using schedule_hands_over [OF l, of pr] by blast
  have n: "n < 32" "tstate (demote (tasks s1) (current s) ! n) = Ready" "current s' = n" "sw = (if n = current s then None else Some (current s, n))"
    using h(2) t1(2) unfolding handed_over_def by auto
  have ne: "n \<noteq> current s" using n(1,2) leavingD(4,5) [OF l] d(1,2) t by (auto simp: demote_nth t1 split: if_splits)
  have "tasks s' ! current s = t" using handed_over_nth [OF h(2) l d(2)] ne d(1,2) t by (simp add: t1)
  then show ?thesis using h(1) ne n(3,4) by simp
qed

lemma wait_for_absent:
  assumes "sched_inv s" and "\<forall>j < 32. tstate (tasks s ! j) = Empty \<or> pid (tasks s ! j) \<noteq> p"
  shows "\<exists>s'. wait_for pr p s = Inr (Returned (-1), s') \<and> tasks s' = tasks s"
proof -
  have "table_ok (cli_insn s)" using sched_invD(4) [OF assms(1)] by (simp add: table_ok_def cli_insn_def)
  then have "find_pid p (cli_insn s) = Inr None"
    using assms(2) find_pid_eq [of "cli_insn s" p] by (auto simp: cli_insn_def find_upt_None simp del: upt_Suc)
  then show ?thesis by (simp add: wait_for_def Let_def sti_insn_def cli_insn_def)
qed

lemma find_pid_unique:
  assumes "sched_inv s" and j: "j < 32" "tstate (tasks s ! j) \<noteq> Empty" "pid (tasks s ! j) = p"
  shows "find_pid p (cli_insn s) = Inr (Some j)"
proof -
  note d = sched_invD [OF assms(1)]
  have "pids_ok (tasks s) (next_pid s)" using d(5) by (simp add: table_inv_def)
  then have uniq: "i = j" if "i < 32" "tstate (tasks s ! i) \<noteq> Empty" "pid (tasks s ! i) = p" for i
    using that j by (auto simp: pids_ok_def)
  have "find (\<lambda>i. tstate (tasks s ! i) \<noteq> Empty \<and> pid (tasks s ! i) = p) [0..<32] = Some j"
    unfolding find_upt_Some
  proof (intro conjI allI impI notI)
    fix i assume "i < j" "tstate (tasks s ! i) \<noteq> Empty \<and> pid (tasks s ! i) = p"
    then show False using uniq [of i] j(1) by simp
  qed (use j in simp_all)
  moreover have "table_ok (cli_insn s)" using d(4) by (simp add: table_ok_def cli_insn_def)
  ultimately show ?thesis using find_pid_eq [of "cli_insn s" p] by (simp add: cli_insn_def)
qed

text \<open>
  C19: \<open>wait_for\<close> collects exactly the task with that pid: there is at most one; if it has terminated,
  its exit code is returned, its slot (and no other) becomes empty, and interrupts are on; if it is
  still there, the caller is blocked on it and another task runs; if there is none, the result is -1.
\<close>

theorem wait_for_correct:
  assumes "sched_inv s" "current s \<noteq> 0"
  shows "(\<forall>j < 32. tstate (tasks s ! j) \<noteq> Empty \<and> pid (tasks s ! j) = p \<longrightarrow>
      (if tstate (tasks s ! j) = Terminated
       then \<exists>s'. wait_for pr p s = Inr (Returned (exit_code (tasks s ! j)), s') \<and> interrupts_on (rflags_reg s') \<and>
         tasks s' = (tasks s)[j := (tasks s ! j)\<lparr>tstate := Empty\<rparr>]
       else \<exists>n s'. wait_for pr p s = Inr (Again (Some (current s, n)), s') \<and> n \<noteq> current s \<and> current s' = n \<and>
         tasks s' ! current s = (tasks s ! current s)\<lparr>tstate := Blocked, wait_for_pid := Some p\<rparr>)) \<and>
    ((\<forall>j < 32. tstate (tasks s ! j) = Empty \<or> pid (tasks s ! j) \<noteq> p) \<longrightarrow>
      (\<exists>s'. wait_for pr p s = Inr (Returned (-1), s') \<and> tasks s' = tasks s))"
proof (intro conjI allI impI)
  fix j assume j: "j < 32" "tstate (tasks s ! j) \<noteq> Empty \<and> pid (tasks s ! j) = p"
  note d = sched_invD [OF assms(1)]
  let ?c = "current s" and ?t = "(tasks s ! current s)\<lparr>tstate := Blocked, wait_for_pid := Some p\<rparr>"
  have cli: "tasks (cli_insn s) = tasks s" "current (cli_insn s) = ?c" by (simp_all add: cli_insn_def)
  have f: "find_pid p (cli_insn s) = Inr (Some j)" using find_pid_unique [OF assms(1) j(1)] j(2) by blast
  have get: "get_task j (cli_insn s) = Inr (tasks s ! j)" "get_task ?c (cli_insn s) = Inr (tasks s ! ?c)"
    using j d(1,2) by (simp_all add: get_task_def cli)
  have "keeps (tasks s ! ?c) ?t" using d(8) by (simp add: keeps_def)
  from blocks_hands_over [OF assms this _ refl, of pr] show "if tstate (tasks s ! j) = Terminated
       then \<exists>s'. wait_for pr p s = Inr (Returned (exit_code (tasks s ! j)), s') \<and> interrupts_on (rflags_reg s') \<and>
         tasks s' = (tasks s)[j := (tasks s ! j)\<lparr>tstate := Empty\<rparr>]
       else \<exists>n s'. wait_for pr p s = Inr (Again (Some (?c, n)), s') \<and> n \<noteq> ?c \<and> current s' = n \<and>
         tasks s' ! ?c = ?t"
    using f get by (auto simp: wait_for_def Let_def sti_insn_def cli)
qed (use wait_for_absent [OF assms(1)] in blast)

theorem wait_for_correct_witness:
  "\<exists>(s :: sched_state) n s'. current s = 1 \<and> wait_for Dev 0 s = Inr (Again (Some (1, n)), s') \<and>
     wait_for_pid (tasks s' ! 1) = Some 0"
proof -
  obtain s :: sched_state where s: "sched_inv s" "current s = 1" using small_running by blast
  note d = sched_invD [OF s(1)]
  have "pids_ok (tasks s) (next_pid s)" using d(5) by (simp add: table_inv_def)
  then have "pid (tasks s ! 0) = 0" "tstate (tasks s ! 0) = Ready" using d(10) s(2) by (simp_all add: pids_ok_def)
  then obtain n s' where "wait_for Dev 0 s = Inr (Again (Some (1, n)), s')"
      "tasks s' ! 1 = (tasks s ! 1)\<lparr>tstate := Blocked, wait_for_pid := Some 0\<rparr>"
    using wait_for_correct [OF s(1), of 0 Dev, THEN conjunct1, rule_format, of 0] s(2) by auto
  then show ?thesis using s(2) by (intro exI [of _ s]) simp
qed

end
