(* ===== verification/Terminal.thy ===== *)
theory Terminal
  imports Multitask
begin

text \<open>
  The text terminal (\<open>ui/terminal.rs\<close>) on the linear framebuffer: glyphs of the built-in PSF2 font,
  a cursor, scrolling, and number output. The framebuffer is the list of its 32-bit pixels from
  \<open>addr\<close>; a volatile access outside it is \<open>WildAccess\<close>. The Limine response (\<open>framebuffers\<close>:
  width, height and pitch in bytes of each) and the glyph bitmaps are parameters; the header of the
  font file is its own first 32 bytes. Characters are code points.
\<close>

section \<open>State\<close>

definition COLOR_BG :: u32 where "COLOR_BG = 0x001E1E2E"
definition COLOR_FG :: u32 where "COLOR_FG = 0x00CDD6F4"
definition COLOR_PANIC :: u32 where "COLOR_PANIC = 0x00F38BA8"

record screen_state = sched_state +
  fb :: "u32 list"
  framebuffers :: "(nat \<times> nat \<times> nat) list option"
  font :: "u8 list"

text \<open>The first 32 bytes of \<open>default8x16.psfu\<close>.\<close>

definition FONT_HEADER :: "u8 list" where
  "FONT_HEADER = [114, 181, 74, 134, 0, 0, 0, 0, 32, 0, 0, 0, 1, 0, 0, 0, 0, 1, 0, 0, 16, 0, 0, 0,
     16, 0, 0, 0, 8, 0, 0, 0]"

record terminal =
  twidth :: nat
  theight :: nat
  tpitch :: nat
  tcols :: nat
  trows :: nat
  tcol :: nat
  trow :: nat
  tfg :: u32
  tbg :: u32
  glyph_h :: nat
  glyph_w :: nat
  bytes_per_glyph :: nat
  header_size :: nat

section \<open>Operations\<close>

text \<open>\<open>for i in ..\<close> over a list of indices.\<close>

fun for_each :: "nat list \<Rightarrow> (nat \<Rightarrow> 's \<Rightarrow> 's res) \<Rightarrow> 's \<Rightarrow> 's res" where
  "for_each [] f s = Inr s"
| "for_each (i # is) f s = andThen (f i s) (for_each is f)"

definition font_byte :: "nat \<Rightarrow> u8 list \<Rightarrow> u8 res" where
  "font_byte i h = (if i < length h then Inr (h ! i) else Inl OutOfBounds)"

text \<open>\<open>u32::from_le_bytes([h[i], h[i+1], h[i+2], h[i+3]]) as usize\<close>.\<close>

definition le32 :: "nat \<Rightarrow> u8 list \<Rightarrow> nat res" where
  "le32 i h =
     andThen (font_byte i h) (\<lambda>b0. andThen (font_byte (i + 1) h) (\<lambda>b1.
     andThen (font_byte (i + 2) h) (\<lambda>b2. andThen (font_byte (i + 3) h) (\<lambda>b3.
       Inr (unat b0 + 256 * unat b1 + 65536 * unat b2 + 16777216 * unat b3)))))"

definition psf2_header :: "u8 list \<Rightarrow> (nat \<times> nat \<times> nat \<times> nat) res" where
  "psf2_header h =
     andThen (le32 8 h) (\<lambda>header_size. andThen (le32 20 h) (\<lambda>bytes_per_glyph.
     andThen (le32 24 h) (\<lambda>height. andThen (le32 28 h) (\<lambda>width.
       Inr (header_size, bytes_per_glyph, height, width)))))"

definition get_glyph :: "profile \<Rightarrow> u8 \<Rightarrow> nat \<Rightarrow> nat \<Rightarrow> u8 list \<Rightarrow> u8 list res" where
  "get_glyph pr c hs bpg h =
     andThen (umul pr (unat c) bpg) (\<lambda>x. andThen (uadd pr hs x) (\<lambda>offset.
     andThen (uadd pr offset bpg) (\<lambda>last.
       if offset \<le> last \<and> last \<le> length h then Inr (take (last - offset) (drop offset h))
       else Inl OutOfBounds)))"

text \<open>A volatile write of pixel \<open>i\<close> counted from \<open>addr\<close>.\<close>

definition write_px :: "nat \<Rightarrow> u32 \<Rightarrow> 'a screen_state_scheme \<Rightarrow> 'a screen_state_scheme res" where
  "write_px i color s = (if i < length (fb s) then Inr (s\<lparr>fb := (fb s)[i := color]\<rparr>) else Inl (WildAccess i))"

definition put_pixel ::
    "profile \<Rightarrow> terminal \<Rightarrow> nat \<Rightarrow> nat \<Rightarrow> u32 \<Rightarrow> 'a screen_state_scheme \<Rightarrow> 'a screen_state_scheme res" where
  "put_pixel pr t x y color s =
     andThen (umul pr y (tpitch t)) (\<lambda>a. andThen (uadd pr a x) (\<lambda>i. write_px i color s))"

definition draw_glyph ::
    "profile \<Rightarrow> terminal \<Rightarrow> nat \<Rightarrow> nat \<Rightarrow> u8 \<Rightarrow> 'a screen_state_scheme \<Rightarrow> 'a screen_state_scheme res" where
  "draw_glyph pr t col row c s =
     andThen (get_glyph pr c (header_size t) (bytes_per_glyph t) (font s)) (\<lambda>bits.
     andThen (umul pr col (glyph_w t)) (\<lambda>px. andThen (umul pr row (glyph_h t)) (\<lambda>py.
     let bytes_per_row = (glyph_w t + 7) div 8 in
     for_each [0..<glyph_h t] (\<lambda>gy. for_each [0..<glyph_w t] (\<lambda>gx s.
       let bytes_idx = gy * bytes_per_row + gx div 8; bit_no = 7 - gx mod 8 in
       andThen (font_byte bytes_idx bits) (\<lambda>b.
       andThen (uadd pr px gx) (\<lambda>x. andThen (uadd pr py gy) (\<lambda>y.
         put_pixel pr t x y (if drop_bit bit_no b AND 1 \<noteq> 0 then tfg t else tbg t) s))))) s)))"

definition erase_glyph ::
    "profile \<Rightarrow> terminal \<Rightarrow> nat \<Rightarrow> nat \<Rightarrow> 'a screen_state_scheme \<Rightarrow> 'a screen_state_scheme res" where
  "erase_glyph pr t col row s =
     andThen (umul pr col (glyph_w t)) (\<lambda>px. andThen (umul pr row (glyph_h t)) (\<lambda>py.
     for_each [0..<glyph_h t] (\<lambda>gy. for_each [0..<glyph_w t] (\<lambda>gx s.
       andThen (uadd pr px gx) (\<lambda>x. andThen (uadd pr py gy) (\<lambda>y.
         put_pixel pr t x y (tbg t) s)))) s))"

text \<open>\<open>core::ptr::copy(addr + off, addr, n)\<close> and the fill of the last row.\<close>

definition copy_down :: "nat \<Rightarrow> nat \<Rightarrow> 'a screen_state_scheme \<Rightarrow> 'a screen_state_scheme res" where
  "copy_down off n s =
     (if off + n \<le> length (fb s) then Inr (s\<lparr>fb := take n (drop off (fb s)) @ drop n (fb s)\<rparr>)
      else Inl (WildAccess (off + n)))"

definition scroll :: "profile \<Rightarrow> terminal \<Rightarrow> 'a screen_state_scheme \<Rightarrow> 'a screen_state_scheme res" where
  "scroll pr t s =
     andThen (umul pr (glyph_h t) (tpitch t)) (\<lambda>row_len.
     andThen (usub pr (trows t) 1) (\<lambda>r. andThen (umul pr r row_len) (\<lambda>n.
     andThen (copy_down row_len n s) (\<lambda>s.
       for_each [0..<row_len] (\<lambda>i. write_px (n + i) (tbg t)) s))))"

type_synonym 'a tty = "terminal \<times> 'a screen_state_scheme"

definition clear_term :: "profile \<Rightarrow> 'a tty \<Rightarrow> 'a tty res" where
  "clear_term pr = (\<lambda>(t, s).
     andThen (umul pr (theight t) (tpitch t)) (\<lambda>total.
     let t = t\<lparr>tcol := 0, trow := 0\<rparr> in
     andThen (for_each [0..<total] (\<lambda>i. write_px i (tbg t)) s) (\<lambda>s. Inr (t, s))))"

text \<open>Integer division panics on zero in every profile.\<close>

definition udiv :: "nat \<Rightarrow> nat \<Rightarrow> nat res" where
  "udiv a b = (if b = 0 then Inl (Panic ''attempt to divide by zero'') else Inr (a div b))"

definition terminal_new ::
    "profile \<Rightarrow> 'a screen_state_scheme \<Rightarrow> (terminal option \<times> 'a screen_state_scheme) res" where
  "terminal_new pr s =
     (case framebuffers s of
        None \<Rightarrow> Inr (None, s)
      | Some [] \<Rightarrow> Inr (None, s)
      | Some ((width, height, pitch_bytes) # _) \<Rightarrow>
          andThen (psf2_header (font s)) (\<lambda>(hs, bpg, gh, gw).
          andThen (udiv width gw) (\<lambda>cols. andThen (udiv height gh) (\<lambda>rows.
          andThen (clear_term pr (\<lparr>twidth = width, theight = height, tpitch = pitch_bytes div 4,
              tcols = cols, trows = rows, tcol = 0, trow = 0, tfg = COLOR_FG, tbg = COLOR_BG,
              glyph_h = gh, glyph_w = gw, bytes_per_glyph = bpg, header_size = hs\<rparr>, s)) (\<lambda>(t, s).
            Inr (Some t, s))))))"

definition backspace :: "profile \<Rightarrow> 'a tty \<Rightarrow> 'a tty res" where
  "backspace pr = (\<lambda>(t, s).
     if 0 < tcol t then
       (let t = t\<lparr>tcol := tcol t - 1\<rparr> in
        andThen (erase_glyph pr t (tcol t) (trow t) s) (\<lambda>s. Inr (t, s)))
     else if 0 < trow t then
       andThen (usub pr (tcols t) 1) (\<lambda>c.
       let t = t\<lparr>trow := trow t - 1, tcol := c\<rparr> in
       andThen (erase_glyph pr t (tcol t) (trow t) s) (\<lambda>s. Inr (t, s)))
     else Inr (t, s))"

text \<open>The \<open>match\<close> of \<open>putc\<close>, then the two overflow checks of the cursor.\<close>

definition put_char :: "profile \<Rightarrow> nat \<Rightarrow> 'a tty \<Rightarrow> 'a tty res" where
  "put_char pr c = (\<lambda>(t, s).
     if c = 10 then andThen (uadd pr (trow t) 1) (\<lambda>r. Inr (t\<lparr>tcol := 0, trow := r\<rparr>, s))
     else if c = 13 then Inr (t\<lparr>tcol := 0\<rparr>, s)
     else
       andThen (draw_glyph pr t (tcol t) (trow t) (if c < 128 \<and> 32 \<le> c then of_nat c else 63) s) (\<lambda>s.
       andThen (uadd pr (tcol t) 1) (\<lambda>k. Inr (t\<lparr>tcol := k\<rparr>, s))))"

definition wrap_line :: "profile \<Rightarrow> 'a tty \<Rightarrow> 'a tty res" where
  "wrap_line pr = (\<lambda>(t, s).
     if tcols t \<le> tcol t then andThen (uadd pr (trow t) 1) (\<lambda>r. Inr (t\<lparr>tcol := 0, trow := r\<rparr>, s))
     else Inr (t, s))"

definition scroll_if_needed :: "profile \<Rightarrow> 'a tty \<Rightarrow> 'a tty res" where
  "scroll_if_needed pr = (\<lambda>(t, s).
     if trows t \<le> trow t then
       andThen (scroll pr t s) (\<lambda>s. andThen (usub pr (trows t) 1) (\<lambda>r. Inr (t\<lparr>trow := r\<rparr>, s)))
     else Inr (t, s))"

definition term_putc :: "profile \<Rightarrow> nat \<Rightarrow> 'a tty \<Rightarrow> 'a tty res" where
  "term_putc pr c ts = andThen (put_char pr c ts) (\<lambda>ts. andThen (wrap_line pr ts) (scroll_if_needed pr))"

text \<open>\<open>putc(b as char)\<close> and \<open>print\<close>; the kernel's strings are ASCII.\<close>

definition term_putb :: "profile \<Rightarrow> u8 \<Rightarrow> 'a tty \<Rightarrow> 'a tty res" where
  "term_putb pr b = term_putc pr (unat b)"

definition term_print :: "profile \<Rightarrow> string \<Rightarrow> 'a tty \<Rightarrow> 'a tty res" where
  "term_print pr str = emit (term_putb pr) (asc str)"

definition set_color :: "u32 \<Rightarrow> u32 \<Rightarrow> 'a tty \<Rightarrow> 'a tty" where
  "set_color f b = (\<lambda>(t, s). (t\<lparr>tfg := f, tbg := b\<rparr>, s))"

definition term_print_hex64 :: "profile \<Rightarrow> u64 \<Rightarrow> 'a tty \<Rightarrow> 'a tty res" where
  "term_print_hex64 pr v ts = andThen (term_print pr ''0x'' ts) (put_hex64 (term_putb pr) v)"

definition term_print_usize :: "profile \<Rightarrow> nat \<Rightarrow> 'a tty \<Rightarrow> 'a tty res" where
  "term_print_usize pr v = put_dec pr 20 (term_putb pr) v"

section \<open>Painting\<close>

text \<open>
  \<open>paints L I v f\<close>: on a framebuffer of \<open>L\<close> pixels, \<open>f\<close> succeeds, sets the pixels with index in \<open>I\<close>
  to \<open>v\<close> and leaves everything else alone.
\<close>

definition paints ::
    "nat \<Rightarrow> nat set \<Rightarrow> (nat \<Rightarrow> u32) \<Rightarrow> ('a screen_state_scheme \<Rightarrow> 'a screen_state_scheme res) \<Rightarrow> bool" where
  "paints L I v f \<longleftrightarrow> (\<forall>s. length (fb s) = L \<longrightarrow>
     (\<exists>F. f s = Inr (s\<lparr>fb := F\<rparr>) \<and> length F = L \<and> (\<forall>i < L. F ! i = (if i \<in> I then v i else fb s ! i))))"

lemma paintsD:
  assumes "paints L I v f" "length (fb s) = L"
  obtains F where "f s = Inr (s\<lparr>fb := F\<rparr>)" "length F = L" "\<And>i. i < L \<Longrightarrow> F ! i = (if i \<in> I then v i else fb s ! i)"
  using assms unfolding paints_def by blast

lemma paintsE:
  "paints L I v f \<Longrightarrow> length (fb s) = L \<Longrightarrow> \<exists>F. f s = Inr (s\<lparr>fb := F\<rparr>) \<and> length F = length (fb s) \<and>
     (\<forall>i < length F. F ! i = (if i \<in> I then v i else fb s ! i))"
  unfolding paints_def by fastforce

lemma paints_write: "i < L \<Longrightarrow> v i = color \<Longrightarrow> paints L {i} v (write_px i color)"
  by (auto simp: paints_def write_px_def nth_list_update)

lemma paints_for_each:
  assumes "\<And>k. k \<in> set is \<Longrightarrow> paints L (I k) v (f k)"
  shows "paints L (\<Union>k \<in> set is. I k) v (for_each is f)"
  using assms
proof (induction "is")
  case Nil
  show ?case unfolding paints_def
  proof (intro allI impI)
    fix s :: "'a screen_state_scheme" assume "length (fb s) = L"
    then show "\<exists>F. for_each [] f s = Inr (s\<lparr>fb := F\<rparr>) \<and> length F = L \<and>
        (\<forall>i < L. F ! i = (if i \<in> (\<Union>k \<in> set []. I k) then v i else fb s ! i))"
      by (intro exI [of _ "fb s"]) simp
  qed
next
  case (Cons k ks)
  show ?case unfolding paints_def
  proof (intro allI impI)
    fix s :: "'a screen_state_scheme" assume len: "length (fb s) = L"
    obtain F where F: "f k s = Inr (s\<lparr>fb := F\<rparr>)" "length F = L" "\<And>i. i < L \<Longrightarrow> F ! i = (if i \<in> I k then v i else fb s ! i)"
      using Cons.prems [of k] len by (auto elim: paintsD)
    have all: "paints L (\<Union>k \<in> set ks. I k) v (for_each ks f)" by (rule Cons.IH) (use Cons.prems in simp)
    obtain G where G: "for_each ks f (s\<lparr>fb := F\<rparr>) = Inr (s\<lparr>fb := F\<rparr>\<lparr>fb := G\<rparr>)" "length G = L"
      "\<And>i. i < L \<Longrightarrow> G ! i = (if i \<in> (\<Union>k \<in> set ks. I k) then v i else F ! i)"
      by (rule paintsD [OF all, of "s\<lparr>fb := F\<rparr>"]) (simp_all add: F(2))
    show "\<exists>F. for_each (k # ks) f s = Inr (s\<lparr>fb := F\<rparr>) \<and> length F = L \<and>
        (\<forall>i < L. F ! i = (if i \<in> (\<Union>k \<in> set (k # ks). I k) then v i else fb s ! i))"
      using F G by (intro exI [of _ G]) simp
  qed
qed

lemma paints_cong:
  "paints L I v f \<Longrightarrow> (\<And>s. length (fb s) = L \<Longrightarrow> g s = f s) \<Longrightarrow> paints L I v g"
  by (simp add: paints_def)

section \<open>Geometry\<close>

definition term_ok :: "'a tty \<Rightarrow> bool" where
  "term_ok = (\<lambda>(t, s). glyph_h t = 16 \<and> glyph_w t = 8 \<and> bytes_per_glyph t = 16 \<and> header_size t = 32 \<and>
     tcols t = twidth t div 8 \<and> trows t = theight t div 16 \<and> 0 < tcols t \<and> 0 < trows t \<and>
     tcol t < tcols t \<and> trow t < trows t \<and> twidth t \<le> tpitch t \<and>
     theight t * tpitch t \<le> length (fb s) \<and> length (fb s) < usize_lim \<and> 4128 \<le> length (font s))"

text \<open>Pixel coordinates and pixel numbers.\<close>

lemma px_less:
  fixes y m p x :: nat
  assumes "x < p"
  shows "y * p + x < m * p \<longleftrightarrow> y < m"
proof
  assume "y < m"
  then have "Suc y * p \<le> m * p" by (intro mult_le_mono1) simp
  then show "y * p + x < m * p" using assms by simp
next
  assume "y * p + x < m * p"
  then show "y < m" by (metis add_lessD1 mult_less_cancel2)
qed

lemma px_div_mod: "x < p \<Longrightarrow> (y * p + x) div p = y" "x < p \<Longrightarrow> (y * p + x) mod p = x" for x y p :: nat
  by (simp_all add: div_add1_eq)

section \<open>Drawing cells\<close>

text \<open>The pixel numbers of the cell at \<open>row\<close>, \<open>col\<close>.\<close>

definition cell_px :: "nat \<Rightarrow> nat \<Rightarrow> nat \<Rightarrow> nat set" where
  "cell_px p row col = {i. i div p div 16 = row \<and> i mod p div 8 = col}"

definition glyph_bit :: "u8 list \<Rightarrow> u8 \<Rightarrow> nat \<Rightarrow> nat \<Rightarrow> bool" where
  "glyph_bit h c gy gx = bit (h ! (32 + 16 * unat c + gy)) (7 - gx)"

lemma and_1_neq_0: "(drop_bit n b AND 1 \<noteq> 0) = bit b n" for b :: u8
  using and_exp_neq_0 [of "drop_bit n b" 0] by (simp add: bit_drop_bit_eq)

lemma term_okD:
  assumes "term_ok (t, s)"
  shows "glyph_h t = 16" "glyph_w t = 8" "bytes_per_glyph t = 16" "header_size t = 32"
    "0 < tcols t" "0 < trows t" "tcol t < tcols t" "trow t < trows t" "tcols t * 8 \<le> tpitch t"
    "trows t * 16 \<le> theight t" "theight t * tpitch t \<le> length (fb s)" "length (fb s) < usize_lim"
    "4128 \<le> length (font s)" "0 < tpitch t"
proof -
  have g: "tcols t = twidth t div 8" "trows t = theight t div 16" "twidth t \<le> tpitch t"
    using assms by (simp_all add: term_ok_def)
  have "twidth t div 8 * 8 \<le> twidth t" "theight t div 16 * 16 \<le> theight t" by simp_all
  then show "tcols t * 8 \<le> tpitch t" "trows t * 16 \<le> theight t" using g by linarith+
  show "glyph_h t = 16" "glyph_w t = 8" "bytes_per_glyph t = 16" "header_size t = 32"
    "0 < tcols t" "0 < trows t" "tcol t < tcols t" "trow t < trows t"
    "theight t * tpitch t \<le> length (fb s)" "length (fb s) < usize_lim" "4128 \<le> length (font s)"
    using assms by (simp_all add: term_ok_def)
  show "0 < tpitch t" using assms by (auto simp: term_ok_def intro!: Nat.gr0I)
qed

lemma get_glyph_eq:
  assumes "4128 \<le> length h"
  shows "get_glyph pr c 32 16 h = Inr (take 16 (drop (32 + 16 * unat c) h))"
proof -
  have "unat c < 256" using unsigned_less [of c, where ?'a = nat] by simp
  then show ?thesis using assms by (simp add: get_glyph_def ac_simps)
qed

text \<open>A loop over the pixels of a cell that paints each with the colour of its coordinates.\<close>

lemma paints_cell:
  fixes t :: terminal
  assumes p: "(col + 1) * 8 \<le> tpitch t" and L: "(row + 1) * 16 * tpitch t \<le> L" "L < usize_lim"
    and body: "\<And>gy gx s. gy < 16 \<Longrightarrow> gx < 8 \<Longrightarrow> length (fb s) = L \<Longrightarrow>
      body gy gx s = andThen (uadd pr (col * 8) gx) (\<lambda>x. andThen (uadd pr (row * 16) gy) (\<lambda>y.
        put_pixel pr t x y (color gy gx) s))"
  shows "paints L (cell_px (tpitch t) row col) (\<lambda>i. color (i div tpitch t mod 16) (i mod tpitch t mod 8))
    (for_each [0..<16] (\<lambda>gy. for_each [0..<8] (body gy)))"
proof -
  let ?p = "tpitch t" and ?px = "\<lambda>gy gx. (row * 16 + gy) * tpitch t + (col * 8 + gx)"
  let ?v = "\<lambda>i. color (i div ?p mod 16) (i mod ?p mod 8)"
  have one: "paints L {?px gy gx} ?v (body gy gx)" if g: "gy < 16" "gx < 8" for gy gx
  proof -
    have x: "col * 8 + gx < ?p" using p g(2) by simp
    have "?px gy gx < (row + 1) * 16 * ?p" unfolding px_less [OF x] using g(1) by simp
    then have lt: "?px gy gx < L" using L(1) by linarith
    have "?v (?px gy gx) = color gy gx" unfolding px_div_mod [OF x] using g by simp
    then have "paints L {?px gy gx} ?v (write_px (?px gy gx) (color gy gx))" using lt by (intro paints_write) simp_all
    moreover have lim: "(row * 16 + gy) * ?p < usize_lim" "?px gy gx < usize_lim" "col * 8 + gx < usize_lim"
      using lt L(2) by linarith+
    moreover have "row * 16 + gy < usize_lim"
    proof -
      have "row * 16 + gy \<le> (row * 16 + gy) * ?p" using x by (cases ?p) simp_all
      then show ?thesis using lim(1) by (rule le_less_trans)
    qed
    ultimately have "put_pixel pr t (col * 8 + gx) (row * 16 + gy) (color gy gx) s = write_px (?px gy gx) (color gy gx) s"
      "uadd pr (col * 8) gx = Inr (col * 8 + gx)" "uadd pr (row * 16) gy = Inr (row * 16 + gy)" for s
      by (simp_all add: put_pixel_def)
    then have "body gy gx s = write_px (?px gy gx) (color gy gx) s" if "length (fb s) = L" for s
      using body [OF g that] by simp
    then show ?thesis
      by (rule paints_cong [OF \<open>paints L {?px gy gx} ?v (write_px (?px gy gx) (color gy gx))\<close>])
  qed
  have "paints L (\<Union>gy \<in> set [0..<16]. \<Union>gx \<in> set [0..<8]. {?px gy gx}) ?v
      (for_each [0..<16] (\<lambda>gy. for_each [0..<8] (body gy)))"
    by (intro paints_for_each one) simp_all
  moreover have "(\<Union>gy \<in> set [0..<16]. \<Union>gx \<in> set [0..<8]. {?px gy gx}) = cell_px ?p row col"
  proof (intro equalityI subsetI)
    fix i assume "i \<in> (\<Union>gy \<in> set [0..<16]. \<Union>gx \<in> set [0..<8]. {?px gy gx})"
    then obtain gy gx where "i = ?px gy gx" "gy < 16" "gx < 8" by auto
    moreover from this have "col * 8 + gx < ?p" using p by simp
    ultimately show "i \<in> cell_px ?p row col" by (simp add: cell_px_def px_div_mod)
  next
    fix i assume "i \<in> cell_px ?p row col"
    then have "i div ?p = row * 16 + i div ?p mod 16" "i mod ?p = col * 8 + i mod ?p mod 8"
      by (auto simp: cell_px_def)
    then have "i = ?px (i div ?p mod 16) (i mod ?p mod 8)" by (metis div_mult_mod_eq)
    then show "i \<in> (\<Union>gy \<in> set [0..<16]. \<Union>gx \<in> set [0..<8]. {?px gy gx})" by (force simp del: upt_Suc)
  qed
  ultimately show ?thesis by simp
qed

lemma cell_fits:
  assumes "term_ok (t, s)" "row < trows t" "col < tcols t"
  shows "(col + 1) * 8 \<le> tpitch t" "(row + 1) * 16 * tpitch t \<le> length (fb s)" "col * 8 < usize_lim" "row * 16 < usize_lim"
proof -
  note d = term_okD [OF assms(1)]
  show c: "(col + 1) * 8 \<le> tpitch t" using d(9) assms(3) by simp
  have "(row + 1) * 16 \<le> theight t" using d(10) assms(2) by simp
  then have "(row + 1) * 16 * tpitch t \<le> theight t * tpitch t" by (rule mult_le_mono1)
  then show r: "(row + 1) * 16 * tpitch t \<le> length (fb s)" using d(11) by (rule le_trans)
  have "(row + 1) * 16 * 1 \<le> (row + 1) * 16 * tpitch t" using d(14) by (intro mult_le_mono2) simp
  moreover have "1 * tpitch t \<le> (row + 1) * 16 * tpitch t" by (intro mult_le_mono1) simp
  ultimately have "(row + 1) * 16 < usize_lim" "tpitch t < usize_lim" using r d(12) by (simp_all only: mult_1 mult_1_right)
  then show "col * 8 < usize_lim" "row * 16 < usize_lim" using c by simp_all
qed

lemma draw_glyph_eq:
  fixes s :: "'a screen_state_scheme"
  assumes ok: "term_ok (t, s)" and at: "row < trows t" "col < tcols t"
  shows "\<exists>F. draw_glyph pr t col row c s = Inr (s\<lparr>fb := F\<rparr>) \<and> length F = length (fb s) \<and>
    (\<forall>i < length F. F ! i = (if i \<in> cell_px (tpitch t) row col
       then (if glyph_bit (font s) c (i div tpitch t mod 16) (i mod tpitch t mod 8) then tfg t else tbg t)
       else fb s ! i))"
proof -
  note d = term_okD [OF ok] and fit = cell_fits [OF ok at]
  let ?bits = "take 16 (drop (32 + 16 * unat c) (font s))"
  let ?color = "\<lambda>gy gx. if glyph_bit (font s) c gy gx then tfg t else tbg t"
  let ?body = "\<lambda>gy gx (s :: 'a screen_state_scheme). let bytes_idx = gy * ((glyph_w t + 7) div 8) + gx div 8; bit_no = 7 - gx mod 8 in
       andThen (font_byte bytes_idx ?bits) (\<lambda>b.
       andThen (uadd pr (col * 8) gx) (\<lambda>x. andThen (uadd pr (row * 16) gy) (\<lambda>y.
         put_pixel pr t x y (if drop_bit bit_no b AND 1 \<noteq> 0 then tfg t else tbg t) s)))"
  have c: "unat c < 256" using unsigned_less [of c, where ?'a = nat] by simp
  have b: "?body gy gx s' = andThen (uadd pr (col * 8) gx) (\<lambda>x. andThen (uadd pr (row * 16) gy) (\<lambda>y.
      put_pixel pr t x y (?color gy gx) s'))"
    if "gy < 16" "gx < 8" for gy gx and s' :: "'a screen_state_scheme"
    using that c d(2,13) by (simp add: font_byte_def glyph_bit_def and_1_neq_0)
  have P: "paints (length (fb s)) (cell_px (tpitch t) row col)
      (\<lambda>i. ?color (i div tpitch t mod 16) (i mod tpitch t mod 8)) (for_each [0..<16] (\<lambda>gy. for_each [0..<8] (?body gy)))"
    by (rule paints_cell [OF fit(1,2) d(12), where color = ?color, OF b])
  have run: "draw_glyph pr t col row c s = for_each [0..<16] (\<lambda>gy. for_each [0..<8] (?body gy)) s"
    using d(1-4) get_glyph_eq [OF d(13)] fit(3,4) by (simp add: draw_glyph_def Let_def del: upt_Suc)
  show ?thesis unfolding run by (rule paintsE [OF P refl])
qed

lemma erase_glyph_eq:
  fixes s :: "'a screen_state_scheme"
  assumes ok: "term_ok (t, s)" and at: "row < trows t" "col < tcols t"
  shows "\<exists>F. erase_glyph pr t col row s = Inr (s\<lparr>fb := F\<rparr>) \<and> length F = length (fb s) \<and>
    (\<forall>i < length F. F ! i = (if i \<in> cell_px (tpitch t) row col then tbg t else fb s ! i))"
proof -
  note d = term_okD [OF ok] and fit = cell_fits [OF ok at]
  let ?body = "\<lambda>gy gx (s :: 'a screen_state_scheme). andThen (uadd pr (col * 8) gx) (\<lambda>x. andThen (uadd pr (row * 16) gy) (\<lambda>y.
         put_pixel pr t x y (tbg t) s))"
  have P: "paints (length (fb s)) (cell_px (tpitch t) row col) (\<lambda>i. tbg t)
      (for_each [0..<16] (\<lambda>gy. for_each [0..<8] (?body gy)))"
    by (rule paints_cell [OF fit(1,2) d(12), where color = "\<lambda>gy gx. tbg t"]) simp
  have run: "erase_glyph pr t col row s = for_each [0..<16] (\<lambda>gy. for_each [0..<8] (?body gy)) s"
    using d(1,2) fit(3,4) by (simp add: erase_glyph_def del: upt_Suc)
  show ?thesis unfolding run by (rule paintsE [OF P refl])
qed

lemma fill_eq:
  assumes "n + m \<le> length (fb s)"
  shows "\<exists>F. for_each [0..<m] (\<lambda>i. write_px (n + i) color) s = Inr (s\<lparr>fb := F\<rparr>) \<and> length F = length (fb s) \<and>
    (\<forall>i < length F. F ! i = (if n \<le> i \<and> i < n + m then color else fb s ! i))"
proof -
  have P: "paints (length (fb s)) (\<Union>i \<in> set [0..<m]. {n + i}) (\<lambda>_. color) (for_each [0..<m] (\<lambda>i. write_px (n + i) color))"
    by (rule paints_for_each) (use assms in \<open>auto intro!: paints_write\<close>)
  have "i \<in> (\<Union>i \<in> set [0..<m]. {n + i}) \<longleftrightarrow> n \<le> i \<and> i < n + m" for i
  proof
    assume "n \<le> i \<and> i < n + m"
    then have "i - n \<in> set [0..<m]" "i = n + (i - n)" by auto
    then show "i \<in> (\<Union>i \<in> set [0..<m]. {n + i})" by blast
  qed auto
  then show ?thesis using paintsE [OF P refl] by simp
qed

section \<open>Pictures\<close>

text \<open>The screen as a function from pixel row and column to colour, and what the operations do to it.\<close>

type_synonym picture = "nat \<Rightarrow> nat \<Rightarrow> u32"

definition shows_picture :: "terminal \<Rightarrow> 'a screen_state_scheme \<Rightarrow> picture \<Rightarrow> bool" where
  "shows_picture t s P \<longleftrightarrow> (\<forall>y < theight t. \<forall>x < tpitch t. fb s ! (y * tpitch t + x) = P y x)"

definition pic_glyph :: "u8 list \<Rightarrow> terminal \<Rightarrow> u8 \<Rightarrow> nat \<Rightarrow> nat \<Rightarrow> picture \<Rightarrow> picture" where
  "pic_glyph h t c row col P = (\<lambda>y x. if y div 16 = row \<and> x div 8 = col
     then (if glyph_bit h c (y mod 16) (x mod 8) then tfg t else tbg t) else P y x)"

definition pic_erase :: "terminal \<Rightarrow> nat \<Rightarrow> nat \<Rightarrow> picture \<Rightarrow> picture" where
  "pic_erase t row col P = (\<lambda>y x. if y div 16 = row \<and> x div 8 = col then tbg t else P y x)"

definition pic_scroll :: "terminal \<Rightarrow> picture \<Rightarrow> picture" where
  "pic_scroll t P = (\<lambda>y x. if y < (trows t - 1) * 16 then P (y + 16) x
     else if y < trows t * 16 then tbg t else P y x)"

lemma px_in_fb:
  assumes "term_ok (t, s)" "y < theight t" "x < tpitch t"
  shows "y * tpitch t + x < length (fb s)"
  using px_less [OF assms(3), of y "theight t"] assms(2) term_okD(11) [OF assms(1)] by linarith

lemma cell_px_at [simp]: "x < p \<Longrightarrow> y * p + x \<in> cell_px p row col \<longleftrightarrow> y div 16 = row \<and> x div 8 = col"
  by (simp add: cell_px_def px_div_mod)

lemma draw_glyph_shows:
  assumes ok: "term_ok (t, s)" and at: "row < trows t" "col < tcols t" and sh: "shows_picture t s P"
  shows "\<exists>F. draw_glyph pr t col row c s = Inr (s\<lparr>fb := F\<rparr>) \<and> length F = length (fb s) \<and>
    shows_picture t (s\<lparr>fb := F\<rparr>) (pic_glyph (font s) t c row col P)"
proof -
  obtain F where F: "draw_glyph pr t col row c s = Inr (s\<lparr>fb := F\<rparr>)" "length F = length (fb s)"
    "\<forall>i < length F. F ! i = (if i \<in> cell_px (tpitch t) row col
       then (if glyph_bit (font s) c (i div tpitch t mod 16) (i mod tpitch t mod 8) then tfg t else tbg t)
       else fb s ! i)" using draw_glyph_eq [OF ok at] by blast
  have "shows_picture t (s\<lparr>fb := F\<rparr>) (pic_glyph (font s) t c row col P)"
    using sh F(2,3) px_in_fb [OF ok] by (auto simp: shows_picture_def pic_glyph_def px_div_mod)
  then show ?thesis using F by blast
qed

lemma erase_glyph_shows:
  assumes ok: "term_ok (t, s)" and at: "row < trows t" "col < tcols t" and sh: "shows_picture t s P"
  shows "\<exists>F. erase_glyph pr t col row s = Inr (s\<lparr>fb := F\<rparr>) \<and> length F = length (fb s) \<and>
    shows_picture t (s\<lparr>fb := F\<rparr>) (pic_erase t row col P)"
proof -
  obtain F where F: "erase_glyph pr t col row s = Inr (s\<lparr>fb := F\<rparr>)" "length F = length (fb s)"
    "\<forall>i < length F. F ! i = (if i \<in> cell_px (tpitch t) row col then tbg t else fb s ! i)"
    using erase_glyph_eq [OF ok at] by blast
  have "shows_picture t (s\<lparr>fb := F\<rparr>) (pic_erase t row col P)"
    using sh F(2,3) px_in_fb [OF ok] by (auto simp: shows_picture_def pic_erase_def)
  then show ?thesis using F by blast
qed

lemma scroll_shows:
  assumes ok: "term_ok (t, s)" and sh: "shows_picture t s P"
  shows "\<exists>F. scroll pr t s = Inr (s\<lparr>fb := F\<rparr>) \<and> length F = length (fb s) \<and>
    shows_picture t (s\<lparr>fb := F\<rparr>) (pic_scroll t P)"
proof -
  note d = term_okD [OF ok]
  let ?p = "tpitch t" and ?m = "(trows t - 1) * 16"
  define n where "n = (trows t - 1) * (16 * ?p)"
  have n: "n = ?m * ?p" by (simp add: n_def)
  have "n + 16 * ?p = trows t * 16 * ?p" using d(6) by (cases "trows t") (simp_all add: n_def algebra_simps)
  moreover have "trows t * 16 * ?p \<le> theight t * ?p" by (rule mult_le_mono1 [OF d(10)])
  ultimately have fit: "n + 16 * ?p \<le> length (fb s)" using d(11) by linarith
  then have lim: "16 * ?p < usize_lim" "n < usize_lim" using d(12) by linarith+
  define G where "G = take n (drop (16 * ?p) (fb s)) @ drop n (fb s)"
  have G: "length G = length (fb s)" "\<And>i. i < length (fb s) \<Longrightarrow> G ! i = (if i < n then fb s ! (i + 16 * ?p) else fb s ! i)"
    using fit by (auto simp: G_def nth_append ac_simps)
  obtain F where F: "for_each [0..<16 * ?p] (\<lambda>i. write_px (n + i) (tbg t)) (s\<lparr>fb := G\<rparr>) = Inr (s\<lparr>fb := F\<rparr>)"
    "length F = length (fb s)" "\<forall>i < length F. F ! i = (if n \<le> i \<and> i < n + 16 * ?p then tbg t else G ! i)"
    using fill_eq [of n "16 * ?p" "s\<lparr>fb := G\<rparr>" "tbg t"] fit G(1) by auto
  have run: "scroll pr t s = Inr (s\<lparr>fb := F\<rparr>)"
    using d(1,6) lim fit F(1) by (simp add: scroll_def copy_down_def n_def G_def ac_simps)
  have "F ! (y * ?p + x) = pic_scroll t P y x" if yx: "y < theight t" "x < ?p" for y x
  proof -
    have i: "y * ?p + x < length (fb s)" by (rule px_in_fb [OF ok yx])
    have lt: "y * ?p + x < n \<longleftrightarrow> y < ?m" unfolding n by (rule px_less [OF yx(2)])
    have "n + 16 * ?p = trows t * 16 * ?p" by fact
    then have lt2: "y * ?p + x < n + 16 * ?p \<longleftrightarrow> y < trows t * 16" using px_less [OF yx(2)] by simp
    have up: "fb s ! (y * ?p + x + 16 * ?p) = P (y + 16) x" if "y < ?m"
    proof -
      have "y + 16 < theight t" using that d(6,10) by (cases "trows t") simp_all
      then have "fb s ! ((y + 16) * ?p + x) = P (y + 16) x" using sh yx(2) by (simp add: shows_picture_def)
      moreover have "(y + 16) * ?p + x = y * ?p + x + 16 * ?p" by (simp add: algebra_simps)
      ultimately show ?thesis by simp
    qed
    have "F ! (y * ?p + x) = (if n \<le> y * ?p + x \<and> y * ?p + x < n + 16 * ?p then tbg t
        else if y * ?p + x < n then fb s ! (y * ?p + x + 16 * ?p) else fb s ! (y * ?p + x))"
      using F(2,3) G(2) i by simp
    then show ?thesis using lt lt2 up sh yx by (auto simp: pic_scroll_def shows_picture_def not_less)
  qed
  then show ?thesis using run F(2) by (intro exI [of _ F]) (simp add: shows_picture_def)
qed

lemma clear_shows:
  fixes t :: terminal and s :: "'a screen_state_scheme"
  assumes "theight t * tpitch t \<le> length (fb s)" "length (fb s) < usize_lim"
  shows "\<exists>F. clear_term pr (t, s) = Inr (t\<lparr>tcol := 0, trow := 0\<rparr>, s\<lparr>fb := F\<rparr>) \<and> length F = length (fb s) \<and>
    shows_picture t (s\<lparr>fb := F\<rparr>) (\<lambda>y x. tbg t)"
proof -
  let ?n = "theight t * tpitch t"
  obtain F where F: "for_each [0..<?n] (\<lambda>i. write_px (0 + i) (tbg t)) s = Inr (s\<lparr>fb := F\<rparr>)" "length F = length (fb s)"
    "\<forall>i < length F. F ! i = (if 0 \<le> i \<and> i < 0 + ?n then tbg t else fb s ! i)"
    using fill_eq [of 0 ?n s "tbg t"] assms(1) by auto
  have "y * tpitch t + x < ?n" if "y < theight t" "x < tpitch t" for y x
    using px_less [OF that(2)] that(1) by simp
  then have "shows_picture t (s\<lparr>fb := F\<rparr>) (\<lambda>y x. tbg t)" using F(2,3) assms(1) by (fastforce simp: shows_picture_def)
  moreover have "?n < usize_lim" using assms by linarith
  ultimately show ?thesis using F by (intro exI [of _ F]) (simp add: clear_term_def Let_def)
qed

section \<open>Characters\<close>

text \<open>The cursor (column, row) and the picture after one character.\<close>

definition shown_as :: "nat \<Rightarrow> u8" where
  "shown_as ch = (if ch < 128 \<and> 32 \<le> ch then of_nat ch else 63)"

definition text_putc :: "u8 list \<Rightarrow> terminal \<Rightarrow> nat \<Rightarrow> nat \<times> nat \<times> picture \<Rightarrow> nat \<times> nat \<times> picture" where
  "text_putc h t ch = (\<lambda>(c, r, P).
     let (c1, r1, P1) =
           (if ch = 10 then (0, r + 1, P) else if ch = 13 then (0, r, P)
            else (c + 1, r, pic_glyph h t (shown_as ch) r c P));
         (c2, r2) = (if tcols t \<le> c1 then (0, r1 + 1) else (c1, r1))
     in if trows t \<le> r2 then (c2, trows t - 1, pic_scroll t P1) else (c2, r2, P1))"

text \<open>The terminal \<open>ts\<close> is well formed, its cursor and screen are \<open>v\<close>; only cursor and pixels differ from \<open>ts0\<close>.\<close>

definition views :: "'a tty \<Rightarrow> nat \<times> nat \<times> picture \<Rightarrow> bool" where
  "views = (\<lambda>(t, s) (c, r, P). term_ok (t, s) \<and> tcol t = c \<and> trow t = r \<and> shows_picture t s P)"

definition same_term :: "'a tty \<Rightarrow> 'a tty \<Rightarrow> bool" where
  "same_term = (\<lambda>(t, s) (t', s'). \<exists>c r F. t' = t\<lparr>tcol := c, trow := r\<rparr> \<and> s' = s\<lparr>fb := F\<rparr> \<and> length F = length (fb s))"

lemma same_termI: "length F = length (fb s) \<Longrightarrow> same_term (t, s) (t\<lparr>tcol := c, trow := r\<rparr>, s\<lparr>fb := F\<rparr>)"
  by (auto simp: same_term_def)

lemma same_term_refl [simp]: "same_term ts ts"
proof (cases ts)
  case (Pair t s)
  have "(t, s) = (t\<lparr>tcol := tcol t, trow := trow t\<rparr>, s\<lparr>fb := fb s\<rparr>)" by simp
  then show ?thesis unfolding Pair by (metis same_termI [OF refl])
qed

lemma same_term_trans:
  assumes "same_term a b" "same_term b c"
  shows "same_term a c"
proof -
  obtain t s where a: "a = (t, s)" by (cases a)
  then obtain c1 r1 F1 where b: "b = (t\<lparr>tcol := c1, trow := r1\<rparr>, s\<lparr>fb := F1\<rparr>)" "length F1 = length (fb s)"
    using assms(1) by (auto simp: same_term_def)
  then obtain c2 r2 F2 where "c = (t\<lparr>tcol := c2, trow := r2\<rparr>, s\<lparr>fb := F2\<rparr>)" "length F2 = length (fb s)"
    using assms(2) by (auto simp: same_term_def)
  then show ?thesis by (simp add: a same_termI)
qed

lemma term_ok_moved:
  "term_ok (t, s) \<Longrightarrow> c < tcols t \<Longrightarrow> r < trows t \<Longrightarrow> length F = length (fb s) \<Longrightarrow>
     term_ok (t\<lparr>tcol := c, trow := r\<rparr>, s\<lparr>fb := F\<rparr>)"
  by (simp add: term_ok_def)

lemma shows_moved [simp]:
  "shows_picture (t\<lparr>tcol := c\<rparr>) s P = shows_picture t s P" "shows_picture (t\<lparr>trow := r\<rparr>) s P = shows_picture t s P"
  by (simp_all add: shows_picture_def)

lemma moved_same [simp]:
  "scroll pr (t\<lparr>tcol := c\<rparr>) s = scroll pr t s" "scroll pr (t\<lparr>trow := r\<rparr>) s = scroll pr t s"
  "pic_glyph h (t\<lparr>tcol := c\<rparr>) = pic_glyph h t" "pic_glyph h (t\<lparr>trow := r\<rparr>) = pic_glyph h t"
  "pic_scroll (t\<lparr>tcol := c\<rparr>) = pic_scroll t" "pic_scroll (t\<lparr>trow := r\<rparr>) = pic_scroll t"
  "pic_erase (t\<lparr>tcol := c\<rparr>) = pic_erase t" "pic_erase (t\<lparr>trow := r\<rparr>) = pic_erase t"
  by (simp_all add: scroll_def pic_glyph_def pic_scroll_def pic_erase_def fun_eq_iff cong: if_cong)

lemma text_putc_moved [simp]:
  "text_putc h (t\<lparr>tcol := c\<rparr>) = text_putc h t" "text_putc h (t\<lparr>trow := r\<rparr>) = text_putc h t"
  unfolding text_putc_def by (simp_all cong: if_cong prod.case_cong)

lemma put_char_eq:
  assumes ok: "term_ok (t, s)" and sh: "shows_picture t s P"
  shows "\<exists>F c r P1. put_char pr ch (t, s) = Inr (t\<lparr>tcol := c, trow := r\<rparr>, s\<lparr>fb := F\<rparr>) \<and>
    length F = length (fb s) \<and> shows_picture t (s\<lparr>fb := F\<rparr>) P1 \<and> c \<le> tcols t \<and> r \<le> trows t \<and> (c = tcols t \<longrightarrow> r < trows t) \<and>
    (c, r, P1) = (if ch = 10 then (0, trow t + 1, P) else if ch = 13 then (0, trow t, P)
            else (tcol t + 1, trow t, pic_glyph (font s) t (shown_as ch) (trow t) (tcol t) P))"
proof -
  note d = term_okD [OF ok] and fit = cell_fits [OF ok d(8,7)]
  have lim: "trow t + 1 < usize_lim" "tcol t + 1 < usize_lim" using fit(3,4) by simp_all
  have here: "s = s\<lparr>fb := fb s\<rparr>" "t = t\<lparr>tcol := tcol t, trow := trow t\<rparr>" by simp_all
  consider "ch = 10" | "ch = 13" | "ch \<noteq> 10" "ch \<noteq> 13" by blast
  then show ?thesis
  proof cases
    case 1
    then show ?thesis using lim d(5-8) sh
      by (intro exI [of _ "fb s"] exI [of _ 0] exI [of _ "trow t + 1"] exI [of _ P]) (simp add: put_char_def)
  next
    case 2
    then show ?thesis using d(5-8) sh
      by (intro exI [of _ "fb s"] exI [of _ 0] exI [of _ "trow t"] exI [of _ P]) (simp add: put_char_def)
  next
    case 3
    obtain F where F: "draw_glyph pr t (tcol t) (trow t) (shown_as ch) s = Inr (s\<lparr>fb := F\<rparr>)" "length F = length (fb s)"
      "shows_picture t (s\<lparr>fb := F\<rparr>) (pic_glyph (font s) t (shown_as ch) (trow t) (tcol t) P)"
      using draw_glyph_shows [OF ok d(8,7) sh] by blast
    have "put_char pr ch (t, s) = Inr (t\<lparr>tcol := tcol t + 1, trow := trow t\<rparr>, s\<lparr>fb := F\<rparr>)"
      using 3 lim(2) F(1) unfolding shown_as_def by (simp add: put_char_def)
    then show ?thesis using F(2,3) d(7,8) 3
      by (intro exI [of _ F] exI [of _ "tcol t + 1"] exI [of _ "trow t"]
          exI [of _ "pic_glyph (font s) t (shown_as ch) (trow t) (tcol t) P"]) simp
  qed
qed

lemma term_putc_views:
  assumes v: "views (t, s) (c, r, P)"
  shows "\<exists>ts'. term_putc pr ch (t, s) = Inr ts' \<and> same_term (t, s) ts' \<and> views ts' (text_putc (font s) t ch (c, r, P))"
proof -
  have ok: "term_ok (t, s)" and sh: "shows_picture t s P" and cr: "c = tcol t" "r = trow t" using v by (simp_all add: views_def)
  note d = term_okD [OF ok] and fit = cell_fits [OF ok d(8,7)]
  obtain F c1 r1 P1 where 1: "put_char pr ch (t, s) = Inr (t\<lparr>tcol := c1, trow := r1\<rparr>, s\<lparr>fb := F\<rparr>)"
    "length F = length (fb s)" "shows_picture t (s\<lparr>fb := F\<rparr>) P1" "c1 \<le> tcols t" "r1 \<le> trows t" "c1 = tcols t \<longrightarrow> r1 < trows t"
    "(c1, r1, P1) = (if ch = 10 then (0, trow t + 1, P) else if ch = 13 then (0, trow t, P)
            else (tcol t + 1, trow t, pic_glyph (font s) t (shown_as ch) (trow t) (tcol t) P))"
    using put_char_eq [OF ok sh] by blast
  let ?c2 = "if tcols t \<le> c1 then 0 else c1" and ?r2 = "if tcols t \<le> c1 then r1 + 1 else r1"
  have "r1 + 1 < usize_lim"
  proof -
    have "(trows t - 1) * 16 < usize_lim" using cell_fits(4) [OF ok, of "trows t - 1" 0] d(5,6) by simp
    then show ?thesis using 1(5) by simp
  qed
  then have 2: "wrap_line pr (t\<lparr>tcol := c1, trow := r1\<rparr>, s\<lparr>fb := F\<rparr>) = Inr (t\<lparr>tcol := ?c2, trow := ?r2\<rparr>, s\<lparr>fb := F\<rparr>)"
    by (simp add: wrap_line_def)
  have cr2: "?c2 < tcols t" "?r2 \<le> trows t" using 1(4,5,6) d(5) by auto
  have tp: "text_putc (font s) t ch (c, r, P) =
      (if trows t \<le> ?r2 then (?c2, trows t - 1, pic_scroll t P1) else (?c2, ?r2, P1))"
    unfolding text_putc_def cr prod.case 1(7) [symmetric] Let_def by simp
  show ?thesis
  proof (cases "trows t \<le> ?r2")
    case True
    have ok1: "term_ok (t, s\<lparr>fb := F\<rparr>)" using ok 1(2) by (simp add: term_ok_def)
    obtain G where G: "scroll pr t (s\<lparr>fb := F\<rparr>) = Inr (s\<lparr>fb := F\<rparr>\<lparr>fb := G\<rparr>)" "length G = length F"
      "shows_picture t (s\<lparr>fb := F\<rparr>\<lparr>fb := G\<rparr>) (pic_scroll t P1)"
      using scroll_shows [OF ok1 1(3)] by auto
    let ?ts = "(t\<lparr>tcol := ?c2, trow := trows t - 1\<rparr>, s\<lparr>fb := G\<rparr>)"
    have "scroll_if_needed pr (t\<lparr>tcol := ?c2, trow := ?r2\<rparr>, s\<lparr>fb := F\<rparr>) = Inr ?ts"
      using True G(1) d(6) unfolding scroll_if_needed_def by (simp del: if_split)
    moreover have "views ?ts (text_putc (font s) t ch (c, r, P))"
      using tp True G term_ok_moved [OF ok, of ?c2 "trows t - 1" G] cr2(1) d(6) 1(2) by (simp add: views_def del: if_split)
    ultimately show ?thesis using 1(1) 2 same_termI [of G s] G(2) 1(2) by (auto simp: term_putc_def simp del: if_split)
  next
    case False
    let ?ts = "(t\<lparr>tcol := ?c2, trow := ?r2\<rparr>, s\<lparr>fb := F\<rparr>)"
    have "scroll_if_needed pr ?ts = Inr ?ts" using False unfolding scroll_if_needed_def by (simp del: if_split)
    moreover have "views ?ts (text_putc (font s) t ch (c, r, P))"
      using tp False 1(2,3) term_ok_moved [OF ok, of ?c2 ?r2 F] cr2 by (simp add: views_def del: if_split)
    ultimately show ?thesis using 1(1) 2 same_termI [of F s] 1(2) by (auto simp: term_putc_def simp del: if_split)
  qed
qed

section \<open>Lines\<close>

definition text_backspace :: "terminal \<Rightarrow> nat \<times> nat \<times> picture \<Rightarrow> nat \<times> nat \<times> picture" where
  "text_backspace t = (\<lambda>(c, r, P).
     if 0 < c then (c - 1, r, pic_erase t r (c - 1) P)
     else if 0 < r then (tcols t - 1, r - 1, pic_erase t (r - 1) (tcols t - 1) P)
     else (c, r, P))"

lemma erase_moved [simp]:
  "erase_glyph pr (t\<lparr>tcol := c\<rparr>) = erase_glyph pr t" "erase_glyph pr (t\<lparr>trow := r\<rparr>) = erase_glyph pr t"
  by (simp_all add: erase_glyph_def put_pixel_def fun_eq_iff)

lemma backspace_views:
  assumes v: "views (t, s) (c, r, P)"
  shows "\<exists>ts'. backspace pr (t, s) = Inr ts' \<and> same_term (t, s) ts' \<and> views ts' (text_backspace t (c, r, P))"
proof -
  have ok: "term_ok (t, s)" and sh: "shows_picture t s P" and cr: "c = tcol t" "r = trow t" using v by (simp_all add: views_def)
  note d = term_okD [OF ok]
  have erase: "\<exists>ts'. andThen (erase_glyph pr t c' r' s) (\<lambda>s. Inr (t\<lparr>tcol := c', trow := r'\<rparr>, s)) = Inr ts' \<and>
      same_term (t, s) ts' \<and> views ts' (c', r', pic_erase t r' c' P)" if at: "r' < trows t" "c' < tcols t" for c' r'
  proof -
    obtain F where F: "erase_glyph pr t c' r' s = Inr (s\<lparr>fb := F\<rparr>)" "length F = length (fb s)"
      "shows_picture t (s\<lparr>fb := F\<rparr>) (pic_erase t r' c' P)"
      using erase_glyph_shows [OF ok at sh] by blast
    then show ?thesis using at same_termI [OF F(2)] term_ok_moved [OF ok at(2,1) F(2)] by (auto simp: views_def)
  qed
  have swap: "t\<lparr>trow := b, tcol := a\<rparr> = t\<lparr>tcol := a, trow := b\<rparr>" for a b by simp
  consider "0 < c" | "c = 0" "0 < r" | "c = 0" "r = 0" by blast
  then show ?thesis
  proof cases
    case 1
    then show ?thesis using erase [of "trow t" "tcol t - 1"] d(7,8) cr
      unfolding backspace_def text_backspace_def by simp
  next
    case 2
    then show ?thesis using erase [of "trow t - 1" "tcols t - 1"] d(5-8) cr
      unfolding backspace_def text_backspace_def by (simp add: swap)
  next
    case 3
    then show ?thesis using v cr unfolding backspace_def text_backspace_def by simp
  qed
qed

text \<open>A text of several bytes.\<close>

definition text_puts :: "u8 list \<Rightarrow> terminal \<Rightarrow> u8 list \<Rightarrow> nat \<times> nat \<times> picture \<Rightarrow> nat \<times> nat \<times> picture" where
  "text_puts h t = fold (\<lambda>b. text_putc h t (unat b))"

lemma same_termD:
  "same_term (t, s) (t', s') \<Longrightarrow> font s' = font s \<and> text_putc h t' = text_putc h t \<and> tcols t' = tcols t \<and> trows t' = trows t"
  by (auto simp: same_term_def)

lemma emit_views:
  "views (t, s) v \<Longrightarrow> \<exists>ts'. emit (term_putb pr) bs (t, s) = Inr ts' \<and> same_term (t, s) ts' \<and> views ts' (text_puts (font s) t bs v)"
proof (induction bs arbitrary: t s v)
  case Nil
  then show ?case by (auto simp: text_puts_def)
next
  case (Cons b bs)
  obtain c r P where v: "v = (c, r, P)" by (cases v)
  obtain t1 s1 where 1: "term_putb pr b (t, s) = Inr (t1, s1)" "same_term (t, s) (t1, s1)"
    "views (t1, s1) (text_putc (font s) t (unat b) v)"
    using term_putc_views Cons.prems unfolding v term_putb_def by (metis surj_pair)
  obtain ts2 where 2: "emit (term_putb pr) bs (t1, s1) = Inr ts2" "same_term (t1, s1) ts2"
    "views ts2 (text_puts (font s1) t1 bs (text_putc (font s) t (unat b) v))"
    using Cons.IH [OF 1(3)] by blast
  have "text_puts (font s1) t1 bs = text_puts (font s) t bs"
    unfolding text_puts_def using same_termD [OF 1(2)] by simp
  with 1 2 same_term_trans [OF 1(2) 2(2)] show ?case by (auto simp: text_puts_def)
qed

lemma views_exists:
  assumes "term_ok (t, s)"
  shows "views (t, s) (tcol t, trow t, \<lambda>y x. fb s ! (y * tpitch t + x))"
  using assms by (simp add: views_def shows_picture_def)

lemma term_ok_step: "term_ok ts \<Longrightarrow> \<exists>ts'. term_putb pr b ts = Inr ts' \<and> term_ok ts'"
proof (cases ts)
  case (Pair t s)
  assume "term_ok ts"
  then obtain ts' c r P where "term_putb pr b (t, s) = Inr ts'" "views ts' (c, r, P)"
    using term_putc_views [OF views_exists] unfolding Pair term_putb_def by (metis surj_pair)
  then show ?thesis unfolding Pair by (cases ts') (auto simp: views_def)
qed

lemma term_putb_same:
  assumes "term_ok ts" "term_putb pr b ts = Inr ts'"
  shows "same_term ts ts'"
proof -
  obtain t s where ts: "ts = (t, s)" by (cases ts)
  show ?thesis using term_putc_views [OF views_exists] assms unfolding ts term_putb_def by (metis Inr_inject)
qed

interpretation tty: byte_sink "term_putb pr" term_ok for pr
  by unfold_locales (rule term_ok_step)

text \<open>A printable text that stays on its line.\<close>

definition printable :: "u8 \<Rightarrow> bool" where
  "printable b \<longleftrightarrow> 32 \<le> b \<and> b < 128"

lemma printable_shown: "printable b \<Longrightarrow> shown_as (unat b) = b \<and> unat b \<noteq> 10 \<and> unat b \<noteq> 13"
  by (simp add: printable_def shown_as_def word_le_nat_alt word_less_nat_alt)

definition pic_line :: "u8 list \<Rightarrow> terminal \<Rightarrow> nat \<Rightarrow> nat \<Rightarrow> u8 list \<Rightarrow> picture \<Rightarrow> picture" where
  "pic_line h t r c bs P = (\<lambda>y x. if y div 16 = r \<and> c \<le> x div 8 \<and> x div 8 < c + length bs
     then (if glyph_bit h (bs ! (x div 8 - c)) (y mod 16) (x mod 8) then tfg t else tbg t) else P y x)"

lemma pic_line_snoc: "pic_line h t r c (bs @ [b]) P = pic_glyph h t b r (c + length bs) (pic_line h t r c bs P)"
proof (intro ext)
  fix y x
  consider "x div 8 = c + length bs" | "x div 8 < c + length bs" | "c + length bs < x div 8" by linarith
  then show "pic_line h t r c (bs @ [b]) P y x = pic_glyph h t b r (c + length bs) (pic_line h t r c bs P) y x"
    by cases (auto simp: pic_line_def pic_glyph_def nth_append)
qed

lemma text_puts_line:
  "\<forall>b \<in> set bs. printable b \<Longrightarrow> c + length bs < tcols t \<Longrightarrow> r < trows t \<Longrightarrow>
     text_puts h t bs (c, r, P) = (c + length bs, r, pic_line h t r c bs P)"
proof (induction bs rule: rev_induct)
  case Nil
  then show ?case by (auto simp: text_puts_def pic_line_def fun_eq_iff)
next
  case (snoc b bs)
  then have "text_puts h t bs (c, r, P) = (c + length bs, r, pic_line h t r c bs P)" by simp
  moreover have "shown_as (unat b) = b" "unat b \<noteq> 10" "unat b \<noteq> 13" using printable_shown [of b] snoc.prems(1) by simp_all
  ultimately show ?case using snoc.prems(2,3) by (simp add: text_puts_def text_putc_def pic_line_snoc)
qed

section \<open>Opening the terminal\<close>

lemma font_byte_header:
  assumes "take 32 h = FONT_HEADER" "i < 32"
  shows "font_byte i h = Inr (FONT_HEADER ! i)"
proof -
  have "length (take 32 h) = 32" unfolding assms(1) by (simp add: FONT_HEADER_def)
  then have "i < length h" using assms(2) by simp
  moreover have "h ! i = FONT_HEADER ! i" using assms by (metis nth_take)
  ultimately show ?thesis by (simp add: font_byte_def)
qed

lemma psf2_header_eq: "take 32 h = FONT_HEADER \<Longrightarrow> psf2_header h = Inr (32, 16, 16, 8)"
  by (simp add: psf2_header_def le32_def font_byte_header) (simp add: FONT_HEADER_def)

definition screen_fits :: "nat \<Rightarrow> nat \<Rightarrow> nat \<Rightarrow> 'a screen_state_scheme \<Rightarrow> bool" where
  "screen_fits w h pb s \<longleftrightarrow> 8 \<le> w \<and> 16 \<le> h \<and> w \<le> pb div 4 \<and> h * (pb div 4) \<le> length (fb s) \<and>
     length (fb s) < usize_lim \<and> take 32 (font s) = FONT_HEADER \<and> 4128 \<le> length (font s)"

text \<open>The terminal that \<open>Terminal::new\<close> makes.\<close>

definition fresh_term :: "nat \<Rightarrow> nat \<Rightarrow> nat \<Rightarrow> terminal" where
  "fresh_term w h pb = \<lparr>twidth = w, theight = h, tpitch = pb div 4, tcols = w div 8, trows = h div 16, tcol = 0, trow = 0,
     tfg = COLOR_FG, tbg = COLOR_BG, glyph_h = 16, glyph_w = 8, bytes_per_glyph = 16, header_size = 32\<rparr>"

lemma terminal_new_eq:
  assumes fits: "screen_fits w h pb s" and bufs: "framebuffers s = Some ((w, h, pb) # rest)"
  shows "\<exists>F. terminal_new pr s = Inr (Some (fresh_term w h pb), s\<lparr>fb := F\<rparr>) \<and> length F = length (fb s) \<and>
    views (fresh_term w h pb, s\<lparr>fb := F\<rparr>) (0, 0, \<lambda>y x. COLOR_BG)"
proof -
  let ?t = "fresh_term w h pb"
  note f = fits [unfolded screen_fits_def]
  obtain F where F: "clear_term pr (?t, s) = Inr (?t\<lparr>tcol := 0, trow := 0\<rparr>, s\<lparr>fb := F\<rparr>)" "length F = length (fb s)"
    "shows_picture ?t (s\<lparr>fb := F\<rparr>) (\<lambda>y x. tbg ?t)"
    using clear_shows [of ?t s pr] f by (auto simp: fresh_term_def)
  have hdr: "psf2_header (font s) = Inr (32, 16, 16, 8)" using f by (intro psf2_header_eq) simp
  have run: "terminal_new pr s = Inr (Some ?t, s\<lparr>fb := F\<rparr>)"
    using F(1) by (simp add: terminal_new_def bufs hdr udiv_def fresh_term_def)
  have "0 < w div 8" "0 < h div 16" using f by (simp_all add: div_greater_zero_iff)
  then have "term_ok (?t, s\<lparr>fb := F\<rparr>)" using f F(2) by (simp add: term_ok_def fresh_term_def)
  then show ?thesis using run F(2,3) by (intro exI [of _ F]) (simp add: views_def fresh_term_def)
qed

text \<open>On a framebuffer that holds at least one character, \<open>Terminal::new\<close> reads 8 by 16 glyphs from the
  font's header and returns a terminal with the cursor at the origin, whose screen is the background
  colour in every pixel; nothing but the framebuffer is written, and only inside it.\<close>

theorem terminal_new_correct:
  assumes "screen_fits w h pb s" and "framebuffers s = Some ((w, h, pb) # rest)"
  shows "\<exists>t F. terminal_new pr s = Inr (Some t, s\<lparr>fb := F\<rparr>) \<and>
    views (t, s\<lparr>fb := F\<rparr>) (0, 0, \<lambda>y x. COLOR_BG) \<and> twidth t = w \<and> theight t = h \<and> tpitch t = pb div 4 \<and>
    tcols t = w div 8 \<and> trows t = h div 16 \<and> tfg t = COLOR_FG \<and> tbg t = COLOR_BG"
  using terminal_new_eq [OF assms] by (force simp: fresh_term_def)

definition small_screen :: screen_state where
  "small_screen = undefined\<lparr>fb := replicate 512 0, framebuffers := Some [(16, 32, 64)],
     font := FONT_HEADER @ replicate 4096 0\<rparr>"

lemma small_screen_fits: "screen_fits 16 32 64 small_screen"
  by (simp add: screen_fits_def small_screen_def FONT_HEADER_def)

theorem terminal_new_correct_witness:
  "\<exists>t F. terminal_new Dev small_screen = Inr (Some t, small_screen\<lparr>fb := F\<rparr>) \<and> tcols t = 2 \<and> trows t = 2"
  using terminal_new_correct [OF small_screen_fits, of "[]" Dev] by (auto simp: small_screen_def)

section \<open>Printing\<close>

definition small_term :: terminal where
  "small_term = \<lparr>twidth = 16, theight = 32, tpitch = 16, tcols = 2, trows = 2, tcol = 0, trow = 0,
     tfg = COLOR_FG, tbg = COLOR_BG, glyph_h = 16, glyph_w = 8, bytes_per_glyph = 16, header_size = 32\<rparr>"

lemma small_term_ok: "term_ok (small_term, small_screen)"
  by (simp add: term_ok_def small_term_def small_screen_def FONT_HEADER_def)

lemma small_term_views: "views (small_term, small_screen) (0, 0, \<lambda>y x. 0)"
proof -
  have "y * 16 + x < 512" if "y < 32" "x < 16" for y x :: nat using that by linarith
  then show ?thesis using small_term_ok by (simp add: views_def shows_picture_def small_term_def small_screen_def)
qed

text \<open>C40: the terminal refines its specification on pictures: from a well-formed terminal every text prints
  without a fault, and so do the two number routines; the cursor and the visible pixels afterwards
  are those \<open>text_puts\<close> gives (glyphs in the cells the cursor passes, new lines, wrapping at the last
  column, the screen moved up by one line when the cursor leaves the last row), for a number those of
  its hexadecimal or decimal digits. Only the cursor and the framebuffer change, whose size stays.\<close>

theorem term_print_correct:
  assumes "views (t, s) v" and "n < usize_lim"
  shows "(\<exists>ts. term_print pr str (t, s) = Inr ts \<and> same_term (t, s) ts \<and> views ts (text_puts (font s) t (asc str) v)) \<and>
    (\<exists>ts. term_print_hex64 pr w (t, s) = Inr ts \<and> same_term (t, s) ts \<and>
       views ts (text_puts (font s) t (asc ''0x'' @ hex_text w) v)) \<and>
    (\<exists>ts. term_print_usize pr n (t, s) = Inr ts \<and> same_term (t, s) ts \<and> views ts (text_puts (font s) t (dec_text n) v))"
proof -
  have hex: "put_hex64 (term_putb pr) w = emit (term_putb pr) (hex_text w)" by (rule ext) (rule put_hex64_eq)
  have "term_print_hex64 pr w (t, s) = emit (term_putb pr) (asc ''0x'' @ hex_text w) (t, s)"
    by (simp only: term_print_hex64_def term_print_def hex emit_append)
  moreover have "term_print_usize pr n (t, s) = emit (term_putb pr) (dec_text n) (t, s)"
    using assms(2) by (simp add: term_print_usize_def put_dec_eq)
  ultimately show ?thesis using emit_views [OF assms(1)] by (simp only: term_print_def)
qed

theorem term_print_correct_witness:
  "\<exists>ts. term_print_usize Dev 42 (small_term, small_screen) = Inr ts \<and>
     views ts (text_puts (font small_screen) small_term (dec_text 42) (0, 0, \<lambda>y x. 0))"
  using term_print_correct [OF small_term_views, of 42 Dev "[]" 0] by auto

text \<open>A printable text that fits on the rest of the cursor's line appears there: each of its
  characters in the cell of its position, in the foreground colour where its glyph has a bit, and
  every other visible pixel is as it was.\<close>

theorem printed_line_visible:
  assumes "term_ok (t, s)" and "\<forall>b \<in> set (asc str). printable b" and "tcol t + length str < tcols t"
  shows "\<exists>F. term_print pr str (t, s) = Inr (t\<lparr>tcol := tcol t + length str\<rparr>, s\<lparr>fb := F\<rparr>) \<and> length F = length (fb s) \<and>
    (\<forall>y < theight t. \<forall>x < tpitch t. F ! (y * tpitch t + x) =
      (if y div 16 = trow t \<and> tcol t \<le> x div 8 \<and> x div 8 < tcol t + length str
       then (if glyph_bit (font s) (of_char (str ! (x div 8 - tcol t))) (y mod 16) (x mod 8) then tfg t else tbg t)
       else fb s ! (y * tpitch t + x)))"
proof -
  let ?P = "\<lambda>y x. fb s ! (y * tpitch t + x)"
  have len: "length (asc str) = length str" by (simp add: asc_def)
  obtain ts where 1: "emit (term_putb pr) (asc str) (t, s) = Inr ts" "same_term (t, s) ts"
    "views ts (text_puts (font s) t (asc str) (tcol t, trow t, ?P))"
    using emit_views [OF views_exists [OF assms(1)]] by blast
  then obtain c r F where ts: "ts = (t\<lparr>tcol := c, trow := r\<rparr>, s\<lparr>fb := F\<rparr>)" "length F = length (fb s)" by (cases ts) (auto simp: same_term_def)
  have "text_puts (font s) t (asc str) (tcol t, trow t, ?P) =
      (tcol t + length str, trow t, pic_line (font s) t (trow t) (tcol t) (asc str) ?P)"
    using text_puts_line [of "asc str" "tcol t" t "trow t"] assms(2,3) term_okD(8) [OF assms(1)] len by simp
  then have v: "c = tcol t + length str" "r = trow t" "shows_picture t (s\<lparr>fb := F\<rparr>) (pic_line (font s) t (trow t) (tcol t) (asc str) ?P)"
    using 1(3) by (simp_all add: views_def ts(1))
  have "of_char (str ! i) = asc str ! i" if "i < length str" for i using that by (simp add: asc_def)
  then show ?thesis using 1(1) ts v(3) len
    by (intro exI [of _ F]) (auto simp: term_print_def v(1,2) shows_picture_def pic_line_def)
qed

theorem printed_line_visible_witness:
  "\<exists>F. term_print Dev ''k'' (small_term, small_screen) = Inr (small_term\<lparr>tcol := 1\<rparr>, small_screen\<lparr>fb := F\<rparr>) \<and>
     F ! 8 = 0"
proof -
  have "\<forall>b \<in> set (asc ''k''). printable b" by (simp add: asc_def printable_def)
  then obtain F where F: "term_print Dev ''k'' (small_term, small_screen) = Inr (small_term\<lparr>tcol := 1\<rparr>, small_screen\<lparr>fb := F\<rparr>)"
    "\<forall>y < theight small_term. \<forall>x < tpitch small_term. F ! (y * tpitch small_term + x) =
      (if y div 16 = 0 \<and> x div 8 < 1
       then (if glyph_bit (font small_screen) (of_char (''k'' ! (x div 8))) (y mod 16) (x mod 8) then tfg small_term else tbg small_term)
       else fb small_screen ! (y * tpitch small_term + x))"
    using printed_line_visible [OF small_term_ok, of "''k''" Dev] by (auto simp: small_term_def)
  have "F ! 8 = 0" using F(2) [rule_format, of 0 8] by (simp add: small_term_def small_screen_def)
  then show ?thesis using F(1) by blast
qed

text \<open>A printed character followed by a backspace puts the cursor back, also over the end of a
  line, and leaves the screen as it was with that one cell blank, unless the character scrolled the screen.\<close>

theorem backspace_undoes_putc:
  assumes "views (t, s) (c, r, P)" and "32 \<le> ch" and "c + 1 < tcols t \<or> r + 1 < trows t"
  shows "\<exists>ts. andThen (term_putc pr ch (t, s)) (backspace pr) = Inr ts \<and> same_term (t, s) ts \<and>
    views ts (c, r, pic_erase t r c P)"
proof -
  obtain t1 s1 where 1: "term_putc pr ch (t, s) = Inr (t1, s1)" "same_term (t, s) (t1, s1)"
    "views (t1, s1) (text_putc (font s) t ch (c, r, P))"
    using term_putc_views [OF assms(1)] by (metis surj_pair)
  let ?Q = "pic_glyph (font s) t (shown_as ch) r c P"
  have cr: "c < tcols t" "r < trows t" using assms(1) term_okD(7,8) by (auto simp: views_def)
  obtain t2 where 2: "backspace pr (t1, s1) = Inr t2" "same_term (t1, s1) t2"
    "views t2 (text_backspace t1 (text_putc (font s) t ch (c, r, P)))"
    using backspace_views 1(3) by (metis surj_pair)
  have "pic_erase t1 r c ?Q = pic_erase t r c P"
    using 1(2) by (auto simp: pic_erase_def pic_glyph_def fun_eq_iff same_term_def)
  moreover have "text_backspace t1 (text_putc (font s) t ch (c, r, P)) = (c, r, pic_erase t1 r c ?Q)"
  proof (cases "c + 1 < tcols t")
    case True
    then show ?thesis using assms(2) cr by (simp add: text_putc_def text_backspace_def)
  next
    case False
    then have "tcols t = c + 1" "r + 1 < trows t" using assms(3) cr by simp_all
    then show ?thesis using assms(2) same_termD [OF 1(2)] by (simp add: text_putc_def text_backspace_def)
  qed
  ultimately show ?thesis using 1(1) 2 same_term_trans [OF 1(2) 2(2)] by simp
qed

theorem backspace_undoes_putc_witness:
  "\<exists>ts. andThen (term_putc Dev 65 (small_term, small_screen)) (backspace Dev) = Inr ts \<and>
     views ts (0, 0, pic_erase small_term 0 0 (\<lambda>y x. 0))"
  using backspace_undoes_putc [OF small_term_views, of 65 Dev] by (auto simp: small_term_def)

end
