(* ===== verification/Pic.thy ===== *)
theory Pic
  imports Terminal
begin

text \<open>
  The interrupt controllers (\<open>interrupt/pic.rs\<close>): the two 8259 chips behind ports 0x20/0x21 and
  0xA0/0xA1, and the local APIC, whose registers the kernel maps and sets so that it passes the
  chips' interrupts on. \<open>msrs\<close> is the file of model-specific registers and \<open>lapic\<close> the APIC's
  registers by offset; an access to a virtual address goes through the page tables and is
  \<open>WildAccess\<close> when it does not reach the APIC's page.

  \<open>chip\<close> is the 8259 as its manual documents it, as far as the kernel uses it: the four
  initialisation words, the mask, and the lines in service, of which an end-of-interrupt command
  clears the one of highest priority. The theorems interpret the kernel's port writes with it.
\<close>

section \<open>State and constants\<close>

record pic_state = screen_state +
  msrs :: "u32 \<Rightarrow> u64"
  lapic :: "nat \<Rightarrow> u32"

definition PIC1_CMD :: u16 where "PIC1_CMD = 0x20"
definition PIC1_DATA :: u16 where "PIC1_DATA = 0x21"
definition PIC2_CMD :: u16 where "PIC2_CMD = 0xA0"
definition PIC2_DATA :: u16 where "PIC2_DATA = 0xA1"
definition ICW1_INIT :: u8 where "ICW1_INIT = 0x10"
definition ICW1_ICW4 :: u8 where "ICW1_ICW4 = 0x01"
definition ICW4_8086 :: u8 where "ICW4_8086 = 0x01"
definition PIC_EOI :: u8 where "PIC_EOI = 0x20"
definition APIC_BASE_MSR :: u32 where "APIC_BASE_MSR = 0x1B"
definition LAPIC_VIRT :: nat where "LAPIC_VIRT = 0xfffffffffee00000"

section \<open>Operations\<close>

text \<open>\<open>rdmsr\<close> returns the register in two halves.\<close>

definition rdmsr :: "u32 \<Rightarrow> 'a pic_state_scheme \<Rightarrow> u32 \<times> u32" where
  "rdmsr msr s = (ucast (msrs s msr), ucast (drop_bit 32 (msrs s msr)))"

definition read_msr :: "u32 \<Rightarrow> 'a pic_state_scheme \<Rightarrow> u64" where
  "read_msr msr s = (let (lo, hi) = rdmsr msr s in push_bit 32 (ucast hi) OR ucast lo)"

text \<open>The offset of the APIC register at a virtual address.\<close>

definition lapic_page :: "'a pic_state_scheme \<Rightarrow> nat" where
  "lapic_page s = frame_of (msrs s APIC_BASE_MSR)"

definition lapic_reg :: "profile \<Rightarrow> nat \<Rightarrow> 'a pic_state_scheme \<Rightarrow> nat res" where
  "lapic_reg pr va s =
     andThen (get_phys_addr pr va s) (\<lambda>r.
       case r of
         None \<Rightarrow> Inl (WildAccess va)
       | Some pa \<Rightarrow> if lapic_page s \<le> pa \<and> pa < lapic_page s + PAGE_SIZE then Inr (pa - lapic_page s)
           else Inl (WildAccess va))"

definition read_lapic :: "profile \<Rightarrow> nat \<Rightarrow> 'a pic_state_scheme \<Rightarrow> u32 res" where
  "read_lapic pr va s = andThen (lapic_reg pr va s) (\<lambda>i. Inr (lapic s i))"

definition write_lapic :: "profile \<Rightarrow> nat \<Rightarrow> u32 \<Rightarrow> 'a pic_state_scheme \<Rightarrow> 'a pic_state_scheme res" where
  "write_lapic pr va v s = andThen (lapic_reg pr va s) (\<lambda>i. Inr (s\<lparr>lapic := (lapic s)(i := v)\<rparr>))"

definition enable_lapic_pic_mode :: "profile \<Rightarrow> 'a pic_state_scheme \<Rightarrow> 'a pic_state_scheme res" where
  "enable_lapic_pic_mode pr s =
     (let apic_phys = unat (read_msr APIC_BASE_MSR s AND 0xFFFFF000) in
      andThen (map_page pr LAPIC_VIRT apic_phys (PTE_PRESENT OR PTE_WRITABLE OR PTE_NO_CACHE) s) (\<lambda>s.
      let svr_ptr = LAPIC_VIRT + 0x0F0; lint0_ptr = LAPIC_VIRT + 0x350 in
      andThen (read_lapic pr svr_ptr s) (\<lambda>svr.
      andThen (write_lapic pr svr_ptr (svr OR 0x1FF) s) (\<lambda>s.
      andThen (write_lapic pr lint0_ptr 0x700 s)
        (serial_print ''[lapic] LINT0 set to ExtInT mode\<newline>'')))))"

text \<open>\<open>io_wait\<close> only spends time.\<close>

definition io_wait :: "'a machine_scheme \<Rightarrow> 'a machine_scheme" where
  "io_wait s = s"

definition remap :: "profile \<Rightarrow> 'a pic_state_scheme \<Rightarrow> 'a pic_state_scheme res" where
  "remap pr s =
     (let (mask1, s) = inb PIC1_DATA s;
          (mask2, s) = inb PIC2_DATA s;
          s = io_wait (outb PIC1_CMD (ICW1_INIT OR ICW1_ICW4) s);
          s = io_wait (outb PIC2_CMD (ICW1_INIT OR ICW1_ICW4) s);
          s = io_wait (outb PIC1_DATA 32 s);
          s = io_wait (outb PIC2_DATA 40 s);
          s = io_wait (outb PIC1_DATA 4 s);
          s = io_wait (outb PIC2_DATA 2 s);
          s = io_wait (outb PIC1_DATA ICW4_8086 s);
          s = io_wait (outb PIC2_DATA ICW4_8086 s);
          s = outb PIC1_DATA 0xfc s;
          s = outb PIC2_DATA 0xff s
      in enable_lapic_pic_mode pr s)"

definition send_eoi :: "u8 \<Rightarrow> 'a machine_scheme \<Rightarrow> 'a machine_scheme" where
  "send_eoi irq s = (let s = (if 8 \<le> irq then outb PIC2_CMD PIC_EOI s else s) in outb PIC1_CMD PIC_EOI s)"

text \<open>\<open>1 << line\<close> on \<open>u8\<close>: too large a shift panics, or uses the low three bits.\<close>

definition shl8 :: "profile \<Rightarrow> u8 \<Rightarrow> u8 res" where
  "shl8 pr n = (if n < 8 then Inr (push_bit (unat n) 1) else if pr = Dev then Inl Overflow
     else Inr (push_bit (unat n mod 8) 1))"

definition set_mark :: "profile \<Rightarrow> u8 \<Rightarrow> 'a machine_scheme \<Rightarrow> 'a machine_scheme res" where
  "set_mark pr irq s =
     (let port = (if irq < 8 then PIC1_DATA else PIC2_DATA);
          line = (if irq < 8 then irq else irq - 8);
          (v, s) = inb port s in
      andThen (shl8 pr line) (\<lambda>b. Inr (outb port (v OR b) s)))"

definition read_irr :: "'a machine_scheme \<Rightarrow> u8 \<times> 'a machine_scheme" where
  "read_irr s = inb PIC1_CMD (outb PIC1_CMD 0x0A s)"

definition read_isr :: "'a machine_scheme \<Rightarrow> u8 \<times> 'a machine_scheme" where
  "read_isr s = inb PIC1_CMD (outb PIC1_CMD 0x0B s)"

section \<open>The chips\<close>

record chip =
  stage :: nat
  single :: bool
  icw4 :: bool
  vec_base :: u8
  cascade :: u8
  mode_8086 :: bool
  imr :: u8
  in_service :: "nat set"

text \<open>
  A write to the command port: bit 4 starts the initialisation, of which bits 1 and 0 say whether there is a
  third word (more than one chip) and a fourth; without the fourth the chip is not in 8086 mode. 0x20 is end of
  interrupt. \<open>stage\<close> is the word the data port expects next, less one; 0 after the initialisation.
\<close>

definition chip_command :: "u8 \<Rightarrow> chip \<Rightarrow> chip" where
  "chip_command v c =
     (if bit v 4 then c\<lparr>stage := 1, single := bit v 1, icw4 := bit v 0, mode_8086 := mode_8086 c \<and> bit v 0, imr := 0, in_service := {}\<rparr>
      else if v = 0x20 then c\<lparr>in_service := in_service c - {LEAST i. i \<in> in_service c}\<rparr>
      else c)"

definition chip_data :: "u8 \<Rightarrow> chip \<Rightarrow> chip" where
  "chip_data v c =
     (if stage c = 1 then
        c\<lparr>stage := if \<not> single c then 2 else if icw4 c then 3 else 0, vec_base := v AND 0xf8\<rparr>
      else if stage c = 2 then c\<lparr>stage := if icw4 c then 3 else 0, cascade := v\<rparr>
      else if stage c = 3 then c\<lparr>stage := 0, mode_8086 := bit v 0\<rparr>
      else c\<lparr>imr := v\<rparr>)"

definition chip_step :: "u16 \<Rightarrow> u16 \<Rightarrow> io_event \<Rightarrow> chip \<Rightarrow> chip" where
  "chip_step cmd data e c =
     (case e of
        Out p v \<Rightarrow> if p = cmd then chip_command v c else if p = data then chip_data v c else c
      | In p v \<Rightarrow> c)"

definition master :: "io_event list \<Rightarrow> chip \<Rightarrow> chip" where
  "master l = fold (chip_step 0x20 0x21) l"

definition slave :: "io_event list \<Rightarrow> chip \<Rightarrow> chip" where
  "slave l = fold (chip_step 0xA0 0xA1) l"

lemma chips_append [simp]:
  "master (l @ l') c = master l' (master l c)" "slave (l @ l') c = slave l' (slave l c)"
  by (simp_all add: master_def slave_def)

lemma chips_event [simp]:
  "master (e # l) c = master l (chip_step 0x20 0x21 e c)" "slave (e # l) c = slave l (chip_step 0xA0 0xA1 e c)"
  "master [] c = c" "slave [] c = c"
  by (simp_all add: master_def slave_def)

text \<open>Messages on the serial line do not reach the chips.\<close>

lemma chips_polls [simp]: "master (polls d l k) c = master l c" "slave (polls d l k) c = slave l c"
  by (induction d l k rule: polls.induct) (simp_all add: chip_step_def)

lemma chips_tx_log [simp]: "master (tx_log d l bs) c = master l c" "slave (tx_log d l bs) c = slave l c"
  by (induction d l bs rule: tx_log.induct) (simp_all add: wait_log_def chip_step_def COM1_def del: polls.simps)

text \<open>What the sequence of \<open>remap\<close> leaves, from any state of the chips.\<close>

definition remap_events :: "u8 \<Rightarrow> u8 \<Rightarrow> io_event list" where
  "remap_events m1 m2 = [In 0x21 m1, In 0xA1 m2, Out 0x20 0x11, Out 0xA0 0x11, Out 0x21 32, Out 0xA1 40,
     Out 0x21 4, Out 0xA1 2, Out 0x21 1, Out 0xA1 1, Out 0x21 0xfc, Out 0xA1 0xff]"

lemma chip_init_words: "bit (0x11 :: u8) 4" "bit (0x11 :: u8) 0" "\<not> bit (0x11 :: u8) 1" "bit (1 :: u8) 0" "(32 :: u8) AND 0xf8 = 32" "(40 :: u8) AND 0xf8 = 40"
  by code_simp+

lemma remapped_chips:
  "master (remap_events m1 m2) c = \<lparr>stage = 0, single = False, icw4 = True, vec_base = 32, cascade = 4, mode_8086 = True, imr = 0xfc, in_service = {}\<rparr>"
  "slave (remap_events m1 m2) c = \<lparr>stage = 0, single = False, icw4 = True, vec_base = 40, cascade = 2, mode_8086 = True, imr = 0xff, in_service = {}\<rparr>"
  by (simp_all add: remap_events_def chip_step_def chip_command_def chip_data_def chip_init_words)

lemma remap_eq:
  "\<exists>m1 m2. remap pr s = enable_lapic_pic_mode pr (s\<lparr>io_log := io_log s @ remap_events m1 m2\<rparr>)"
  by (simp add: remap_def inb_def outb_def io_wait_def remap_events_def PIC1_CMD_def PIC1_DATA_def PIC2_CMD_def
      PIC2_DATA_def ICW1_INIT_def ICW1_ICW4_def ICW4_8086_def Let_def) blast

section \<open>The local APIC\<close>

lemma read_msr_eq [simp]: "read_msr r s = msrs s r"
proof (rule bit_word_eqI)
  fix n assume "n < LENGTH(64)"
  then show "bit (read_msr r s) n = bit (msrs s r) n"
    by (cases "n < 32") (auto simp: read_msr_def rdmsr_def bit_simps)
qed

lemma apic_phys_eq:
  assumes "lapic_page s < 2 ^ 32"
  shows "unat (msrs s APIC_BASE_MSR AND 0xFFFFF000) = lapic_page s"
proof -
  let ?m = "msrs s APIC_BASE_MSR"
  have "bit (?m AND 0xFFFFF000) n = bit (?m AND ADDR_MASK) n" for n
  proof -
    have m: "(0xFFFFF000 :: u64) = push_bit 12 (mask 20)" by (simp add: mask_eq_exp_minus_1 push_bit_eq_mult)
    have 1: "bit (0xFFFFF000 :: u64) n \<longleftrightarrow> 12 \<le> n \<and> n < 32" by (simp only: m) (auto simp: bit_simps)
    have "\<not> bit (?m AND ADDR_MASK) n" if "32 \<le> n"
    proof -
      have "unat (?m AND ADDR_MASK) < 2 ^ 32" using assms by (simp only: lapic_page_def frame_of_def)
      then have "take_bit 32 (unat (?m AND ADDR_MASK)) = unat (?m AND ADDR_MASK)" by (simp only: take_bit_nat_eq_self)
      then have "\<not> bit (unat (?m AND ADDR_MASK)) n" using that by (metis bit_take_bit_iff not_less)
      then show ?thesis by (simp only: bit_unsigned_iff) simp
    qed
    then show ?thesis unfolding bit_and_iff 1 bit_ADDR_MASK by (cases "n < 32") auto
  qed
  then have "?m AND 0xFFFFF000 = ?m AND ADDR_MASK" by (intro bit_word_eqI) blast
  then show ?thesis by (simp add: lapic_page_def frame_of_def)
qed

lemma get_phys_addr_cong:
  assumes "vm_part s' = vm_part s"
  shows "get_phys_addr pr v s' = get_phys_addr pr v s"
proof -
  have c: "cr3 s' = cr3 s" using assms by (simp add: vm_part_def)
  have p: "phys_to_virt pr p s' = phys_to_virt pr p s" for p using assms by (simp add: vm_part_def phys_to_virt_def)
  have r: "read_cell a i s' = read_cell a i s" for a i using assms by (simp add: vm_part_def read_cell_def)
  show ?thesis unfolding get_phys_addr_def walk_existing_def p r c ..
qed

lemma get_phys_addr_same [simp]: "get_phys_addr pr v (s\<lparr>lapic := f\<rparr>) = get_phys_addr pr v s"
  "get_phys_addr pr v (s\<lparr>io_log := l\<rparr>) = get_phys_addr pr v s"
  by (rule get_phys_addr_cong; simp add: vm_part_def)+

lemma pic_more:
  fixes s :: "'a pic_state_scheme"
  assumes "frame_only s s'"
  shows "msrs s' = msrs s" "lapic s' = lapic s" "dev_in s' = dev_in s" "io_log s' = io_log s"
  using assms by (cases s; cases s'; simp add: frame_only_def)+

lemma lapic_flags: "(PTE_PRESENT OR PTE_WRITABLE OR PTE_NO_CACHE) AND ADDR_MASK = 0"
proof (rule bit_word_eqI)
  fix n
  have "bit PTE_NO_CACHE n \<longleftrightarrow> n = 4" by (simp only: PTE_NO_CACHE_def bit_simps) auto
  then show "bit ((PTE_PRESENT OR PTE_WRITABLE OR PTE_NO_CACHE) AND ADDR_MASK) n = bit (0 :: u64) n"
    by (auto simp: bit_and_iff bit_or_iff bit_ADDR_MASK bit_PTE_flags bit_simps)
qed

lemma enable_lapic_eq:
  assumes inv: "vm_inv s" and small: "small_path s (split_indices LAPIC_VIRT)"
    and good: "serial_good s" and low: "lapic_page s < 2 ^ 32"
    and enough: "missing_tables s (split_indices LAPIC_VIRT) \<le> card (free_pages s)"
  shows "\<exists>s' bs. enable_lapic_pic_mode pr s = Inr s' \<and> vm_inv s' \<and>
    io_log s' = tx_log (dev_in s) (io_log s) bs \<and>
    get_phys_addr pr LAPIC_VIRT s' = Inr (Some (lapic_page s)) \<and>
    lapic s' = (lapic s)(0xF0 := lapic s 0xF0 OR 0x1FF, 0x350 := 0x700)"
proof -
  let ?p = "lapic_page s" and ?flags = "PTE_PRESENT OR PTE_WRITABLE OR PTE_NO_CACHE"
  have al: "LAPIC_VIRT mod PAGE_SIZE = 0" "?p mod PAGE_SIZE = 0"
    by (simp_all add: LAPIC_VIRT_def PAGE_SIZE_def lapic_page_def)
  obtain s1 where 1: "map_page pr LAPIC_VIRT ?p ?flags s = Inr s1" "vm_inv s1" "frame_only s s1"
    using map_page_result [OF inv small al, of ?flags pr] enough by (auto simp: map_result_def split: sum.splits)
  note m = pic_more [OF 1(3)]
  have page: "lapic_page s1 = ?p" by (simp add: lapic_page_def m)
  have tr: "get_phys_addr pr (LAPIC_VIRT + n) s1 = Inr (Some (?p + n))" if "n < PAGE_SIZE" for n
  proof -
    have page: "vpage (LAPIC_VIRT + n) = vpage LAPIC_VIRT" by (rule vpage_page [OF al(1)]) (use that in simp_all)
    moreover have "(LAPIC_VIRT + n) mod PAGE_SIZE = n"
      by (subst mod_add_left_eq [symmetric]) (use that in \<open>simp only: al(1) add_0 mod_less\<close>)
    moreover have "small_path s (split_indices (LAPIC_VIRT + n))"
      using small unfolding iffD2 [OF split_indices_eq_iff page] .
    ultimately show ?thesis
      using page map_page_translates [OF inv small 1(1) _ lapic_flags, where v = "LAPIC_VIRT + n"] low by simp
  qed
  have reg: "lapic_reg pr (LAPIC_VIRT + n) s1 = Inr n" "lapic_reg pr (LAPIC_VIRT + n) (s1\<lparr>lapic := f\<rparr>) = Inr n"
    if "n < PAGE_SIZE" for n f
    using that tr [OF that] page by (simp_all add: lapic_reg_def lapic_page_def)
  let ?msg = "map of_char ''[lapic] LINT0 set to ExtInT mode\<newline>''"
  let ?s2 = "s1\<lparr>lapic := (lapic s)(0xF0 := lapic s 0xF0 OR 0x1FF, 0x350 := 0x700)\<rparr>"
  have "enable_lapic_pic_mode pr s = serial_print ''[lapic] LINT0 set to ExtInT mode\<newline>'' ?s2"
    using 1(1) reg [of "0xF0"] reg [of "0x350"] m
    by (simp add: enable_lapic_pic_mode_def apic_phys_eq [OF low] Let_def read_lapic_def write_lapic_def PAGE_SIZE_def)
  also have "\<dots> = Inr (?s2\<lparr>io_log := tx_log (dev_in s) (io_log s) (crlf ?msg)\<rparr>)"
    using good m by (subst serial_print_eq) simp_all
  finally have run: "enable_lapic_pic_mode pr s = Inr (?s2\<lparr>io_log := tx_log (dev_in s) (io_log s) (crlf ?msg)\<rparr>)" .
  have "vm_inv (?s2\<lparr>io_log := l\<rparr>)" for l using 1(2) vm_part_cong(1) [of "?s2\<lparr>io_log := l\<rparr>" s1] by (simp add: vm_part_def)
  then show ?thesis using run tr [of 0]
    by (intro exI [of _ "?s2\<lparr>io_log := tx_log (dev_in s) (io_log s) (crlf ?msg)\<rparr>"] exI [of _ "crlf ?msg"] conjI)
      (simp_all add: PAGE_SIZE_def)
qed

section \<open>Properties\<close>

text \<open>C34: \<open>remap\<close> leaves both chips, whatever they were doing, operating with interrupt vectors 32 to 39 and
  40 to 47 (clear of the processor's exceptions), the slave on the master's line 2, every line masked
  but the timer and the keyboard, and nothing in service; it maps the local APIC's page, enables
  the APIC with spurious vector 255 and makes its LINT0 pass the chips' interrupts on, touching no other
  register of it. It needs as many free frames as page tables are missing there, no large page on the way to
  the APIC's virtual address, and an APIC below 4 GiB.\<close>

theorem remap_correct:
  assumes "vm_inv s" "small_path s (split_indices LAPIC_VIRT)" "serial_good s" "lapic_page s < 2 ^ 32"
    and "missing_tables s (split_indices LAPIC_VIRT) \<le> card (free_pages s)"
  shows "\<exists>s'. remap pr s = Inr s' \<and> vm_inv s' \<and>
    master (io_log s') c = \<lparr>stage = 0, single = False, icw4 = True, vec_base = 32, cascade = 4, mode_8086 = True, imr = 0xfc, in_service = {}\<rparr> \<and>
    slave (io_log s') c = \<lparr>stage = 0, single = False, icw4 = True, vec_base = 40, cascade = 2, mode_8086 = True, imr = 0xff, in_service = {}\<rparr> \<and>
    get_phys_addr pr LAPIC_VIRT s' = Inr (Some (lapic_page s)) \<and>
    lapic s' = (lapic s)(0xF0 := lapic s 0xF0 OR 0x1FF, 0x350 := 0x700)"
proof -
  obtain m1 m2 where run: "remap pr s = enable_lapic_pic_mode pr (s\<lparr>io_log := io_log s @ remap_events m1 m2\<rparr>)"
    using remap_eq by blast
  let ?s = "s\<lparr>io_log := io_log s @ remap_events m1 m2\<rparr>"
  have same: "vm_part ?s = vm_part s" by (simp add: vm_part_def)
  have tabs: "missing_tables ?s idx = missing_tables s idx" for idx
    by (cases idx) (simp add: vm_part_cong [OF same])
  obtain s' bs where s': "enable_lapic_pic_mode pr ?s = Inr s'" "vm_inv s'"
    "io_log s' = tx_log (dev_in ?s) (io_log ?s) bs"
    "get_phys_addr pr LAPIC_VIRT s' = Inr (Some (lapic_page ?s))"
    "lapic s' = (lapic ?s)(0xF0 := lapic ?s 0xF0 OR 0x1FF, 0x350 := 0x700)"
    using enable_lapic_eq [of ?s pr] assms by (auto simp: vm_part_cong [OF same] tabs lapic_page_def)
  have "lapic_page ?s = lapic_page s" by (simp add: lapic_page_def)
  then show ?thesis using run s' by (intro exI [of _ s']) (simp add: remapped_chips)
qed

definition small_pic :: pic_state where
  "small_pic = (small_vmm undefined)\<lparr>dev_in := (\<lambda>l p. 0xff), msrs := (\<lambda>r. 0xFEE00900)\<rparr>"

lemma small_pic_ok:
  "vm_inv small_pic" "small_path small_pic (split_indices LAPIC_VIRT)" "serial_good small_pic" "lapic_page small_pic = 0xFEE00000"
  "missing_tables small_pic (split_indices LAPIC_VIRT) \<le> card (free_pages small_pic)"
proof -
  have part: "vm_part small_pic = vm_part (small_vmm undefined :: pic_state)"
    by (simp add: small_pic_def vm_part_def)
  note eq = vm_part_cong [OF part]
  show "vm_inv small_pic" unfolding eq by (rule small_vmm_inv)
  show "small_path small_pic (split_indices LAPIC_VIRT)" unfolding eq by (rule small_vmm_small)
  show "serial_good small_pic" by (simp add: small_pic_def uart_ready_ff)
  have "(0xFEE00900 :: u64) AND 0x000ffffffffff000 = 0xFEE00000" by code_simp
  then show "lapic_page small_pic = 0xFEE00000"
    by (simp add: lapic_page_def frame_of_def small_pic_def ADDR_MASK_def)
  show "missing_tables small_pic (split_indices LAPIC_VIRT) \<le> card (free_pages small_pic)"
    by (cases "split_indices LAPIC_VIRT") (simp add: eq small_vmm_tab small_vmm_free)
qed

theorem remap_correct_witness:
  "\<exists>s'. remap Dev small_pic = Inr s' \<and>
     imr (master (io_log s') \<lparr>stage = 3, single = True, icw4 = False, vec_base = 8, cascade = 0, mode_8086 = False, imr = 0, in_service = {1}\<rparr>) = 0xfc"
  using remap_correct [OF small_pic_ok(1-3) _ small_pic_ok(5), of Dev
      "\<lparr>stage = 3, single = True, icw4 = False, vec_base = 8, cascade = 0, mode_8086 = False, imr = 0, in_service = {1}\<rparr>"]
  by (auto simp: small_pic_ok(4))

section \<open>Acknowledging an interrupt\<close>

text \<open>The lines in service on both chips while IRQ \<open>irq\<close> is handled: the slave's come in on line 2.\<close>

definition serving :: "nat \<Rightarrow> chip \<Rightarrow> chip \<Rightarrow> bool" where
  "serving irq m sl \<longleftrightarrow> (if irq < 8 then in_service m = {irq} \<and> in_service sl = {}
     else in_service m = {2} \<and> in_service sl = {irq - 8})"

lemma send_eoi_log: "io_log (send_eoi irq s) = io_log s @ (if 8 \<le> irq then [Out 0xA0 0x20] else []) @ [Out 0x20 0x20]"
  by (simp add: send_eoi_def outb_def PIC1_CMD_def PIC2_CMD_def PIC_EOI_def)

lemma not_bit_4_eoi: "\<not> bit (0x20 :: u8) 4"
  by code_simp

lemma send_eoi_acknowledges:
  assumes "serving (unat irq) (master (io_log s) m) (slave (io_log s) sl)"
  shows "in_service (master (io_log (send_eoi irq s)) m) = {}" "in_service (slave (io_log (send_eoi irq s)) sl) = {}"
proof -
  have least: "(LEAST i :: nat. i = k) = k" for k by (rule Least_equality) simp_all
  have "8 \<le> irq \<longleftrightarrow> \<not> unat irq < 8" by (simp add: word_le_nat_alt not_less)
  then show "in_service (master (io_log (send_eoi irq s)) m) = {}" "in_service (slave (io_log (send_eoi irq s)) sl) = {}"
    using assms by (auto simp: send_eoi_log serving_def chip_step_def chip_command_def not_bit_4_eoi least split: if_splits)
qed

end
