(* ===== verification/Syscall.thy ===== *)
theory Syscall
  imports Pic
begin

text \<open>
  System calls (\<open>interrupt/syscall.rs\<close>): the dispatcher on the interrupt frame and the three
  calls. \<open>bytes\<close> is memory as the calls see it through the caller's buffer pointers, byte by byte; an
  address that is not mapped has no byte, and accessing it is \<open>WildAccess\<close> (a page fault in
  the kernel). \<open>exit\<close> lists how an interrupt handler can end.

  The wrappers \<open>sys_write_wrapper\<close>, \<open>sys_read_wrapper\<close> and \<open>sys_reboot_wrapper\<close> execute the
  \<open>syscall\<close> instruction, whose target the kernel never sets up; \<open>Shell\<close> models them up to that instruction.
\<close>

section \<open>State\<close>

record sys_state = pic_state +
  bytes :: "nat \<Rightarrow> u8 option"
  cr2 :: u64

text \<open>
  \<open>Resume\<close>: the interrupted program goes on with the frame. \<open>Switched c n irq\<close>: the handler of \<open>irq\<close>
  has switched from task \<open>c\<close> to task \<open>n\<close>; the rest of it runs when \<open>c\<close> is switched to again.
  \<open>Halted\<close>: \<open>cli; hlt\<close> for ever. \<open>Reset\<close>: the processor triple-faults.
\<close>

datatype exit = Resume interrupt_frame | Switched nat nat u8 | Halted | Reset

definition SYS_WRITE :: u64 where "SYS_WRITE = 0"
definition SYS_READ :: u64 where "SYS_READ = 1"
definition SYS_REBOOT :: u64 where "SYS_REBOOT = 2"

section \<open>Operations\<close>

definition load_byte :: "nat \<Rightarrow> 'a sys_state_scheme \<Rightarrow> u8 res" where
  "load_byte a s = (case bytes s a of None \<Rightarrow> Inl (WildAccess a) | Some b \<Rightarrow> Inr b)"

definition store_byte :: "nat \<Rightarrow> u8 \<Rightarrow> 'a sys_state_scheme \<Rightarrow> 'a sys_state_scheme res" where
  "store_byte a b s =
     (if bytes s a = None then Inl (WildAccess a) else Inr (s\<lparr>bytes := (bytes s)(a \<mapsto> b)\<rparr>))"

definition sys_write ::
    "profile \<Rightarrow> u64 \<Rightarrow> nat \<Rightarrow> nat \<Rightarrow> 'a sys_state_scheme \<Rightarrow> (u64 \<times> 'a sys_state_scheme) res" where
  "sys_write pr fd buf len s =
     (if buf = 0 \<or> len = 0 \<or> 4096 < len then Inr (-1, s)
      else
        andThen (terminal_new pr s) (\<lambda>(t, s).
          case t of
            None \<Rightarrow> Inr (of_nat len, s)
          | Some t \<Rightarrow>
              andThen (for_each [0..<len] (\<lambda>i (t, s).
                andThen (load_byte (buf + i) s) (\<lambda>byte. term_putb pr byte (t, s))) (t, s)) (\<lambda>(t, s).
                Inr (of_nat len, s))))"

text \<open>The loop of \<open>sys_read\<close>.\<close>

function read_loop ::
    "profile \<Rightarrow> nat \<Rightarrow> nat \<Rightarrow> nat \<Rightarrow> 'a sys_state_scheme \<Rightarrow> (nat \<times> 'a sys_state_scheme) res" where
  "read_loop pr buf len count s =
     (if count < len then
        andThen (global_pop s) (\<lambda>(r, s).
          case r of
            Some byte \<Rightarrow> andThen (store_byte (buf + count) byte s) (\<lambda>s. read_loop pr buf len (count + 1) s)
          | None \<Rightarrow> Inr (count, s))
      else Inr (count, s))"
  by pat_completeness auto
termination
  by (relation "measure (\<lambda>(pr, buf, len, count, s). len - count)") auto

declare read_loop.simps [simp del]

definition sys_read ::
    "profile \<Rightarrow> u64 \<Rightarrow> nat \<Rightarrow> nat \<Rightarrow> 'a sys_state_scheme \<Rightarrow> (u64 \<times> 'a sys_state_scheme) res" where
  "sys_read pr fd buf len s =
     (if buf = 0 \<or> len = 0 then Inr (-1, s)
      else andThen (read_loop pr buf len 0 s) (\<lambda>(count, s). Inr (of_nat count, s)))"

text \<open>
  \<open>lidt\<close> of ten zero bytes, then \<open>int3\<close>: with no descriptor within the limit the processor
  cannot deliver the exception, nor the faults that follow, and resets.
\<close>

definition idt_has :: "nat \<Rightarrow> 'a idt_state_scheme \<Rightarrow> bool" where
  "idt_has v s \<longleftrightarrow> 16 * v + 15 \<le> unat (fst (idtr s))"

definition sys_reboot :: "'a sys_state_scheme \<Rightarrow> (exit \<times> 'a sys_state_scheme) res" where
  "sys_reboot s =
     (let s = s\<lparr>idtr := (0, 0)\<rparr> in
      if idt_has 3 s then Inl (Panic ''internal error: entered unreachable code: sys_reboot: triple fault did not reset the machine'')
      else Inr (Reset, s))"

definition dispatch :: "profile \<Rightarrow> interrupt_frame \<Rightarrow> 'a sys_state_scheme \<Rightarrow> (exit \<times> 'a sys_state_scheme) res" where
  "dispatch pr frame s =
     (if rax frame = SYS_WRITE then
        andThen (sys_write pr (rdi frame) (unat (rsi frame)) (unat (rdx frame)) s) (\<lambda>(result, s).
          Inr (Resume (frame\<lparr>rax := result\<rparr>), s))
      else if rax frame = SYS_READ then
        andThen (sys_read pr (rdi frame) (unat (rsi frame)) (unat (rdx frame)) s) (\<lambda>(result, s).
          Inr (Resume (frame\<lparr>rax := result\<rparr>), s))
      else if rax frame = SYS_REBOOT then sys_reboot s
      else Inr (Resume (frame\<lparr>rax := -1\<rparr>), s))"

section \<open>Writing\<close>

text \<open>The bytes of a mapped buffer.\<close>

definition buffer_bytes :: "nat \<Rightarrow> nat \<Rightarrow> (nat \<Rightarrow> u8 option) \<Rightarrow> u8 list" where
  "buffer_bytes buf len m = map (\<lambda>i. the (m (buf + i))) [0..<len]"

lemma emit_map: "emit putc (map g is) s = for_each is (\<lambda>i. putc (g i)) s"
  by (induction "is" arbitrary: s) (simp_all cong: andThen_cong)

lemma for_each_cong:
  assumes "\<And>i s. i \<in> set is \<Longrightarrow> P s \<Longrightarrow> f i s = g i s" "\<And>i s s'. P s \<Longrightarrow> g i s = Inr s' \<Longrightarrow> P s'" "P s"
  shows "for_each is f s = for_each is g s"
  using assms(1,3)
proof (induction "is" arbitrary: s)
  case (Cons i "is")
  have "f i s = g i s" using Cons.prems by simp
  moreover have "for_each is f s' = for_each is g s'" if "g i s = Inr s'" for s'
    using Cons.IH [OF Cons.prems(1) assms(2) [OF Cons.prems(2) that]] by simp
  ultimately show ?case by (cases "g i s") simp_all
qed simp

text \<open>The loop over the mapped start of a buffer prints its bytes.\<close>

definition print_byte :: "profile \<Rightarrow> nat \<Rightarrow> nat \<Rightarrow> terminal \<times> 'a sys_state_scheme \<Rightarrow> (terminal \<times> 'a sys_state_scheme) res" where
  "print_byte pr buf i = (\<lambda>(t, s). andThen (load_byte (buf + i) s) (\<lambda>byte. term_putb pr byte (t, s)))"

lemma write_loop:
  assumes v: "views (t, s) v" and mem: "\<forall>i < n. bytes s (buf + i) \<noteq> None"
  shows "for_each [0..<n] (print_byte pr buf) (t, s) = emit (term_putb pr) (buffer_bytes buf n (bytes s)) (t, s)"
proof -
  let ?g = "\<lambda>i. term_putb pr (the (bytes s (buf + i)))" and ?P = "\<lambda>ts. term_ok ts \<and> bytes (snd ts) = bytes s"
  have "for_each [0..<n] (print_byte pr buf) (t, s) = for_each [0..<n] ?g (t, s)"
  proof (rule for_each_cong [where P = ?P])
    show "?P (t, s)" using v by (simp add: views_def)
    show "print_byte pr buf i ts = ?g i ts" if "i \<in> set [0..<n]" "?P ts" for i ts
      using that mem by (cases ts) (auto simp: load_byte_def print_byte_def)
    show "?P ts'" if "?P ts" "?g i ts = Inr ts'" for i ts ts'
      using term_ok_step [of ts pr "the (bytes s (buf + i))"] term_putb_same [OF _ that(2)] that
      by (cases ts; cases ts') (auto simp: same_term_def)
  qed
  also have "\<dots> = emit (term_putb pr) (buffer_bytes buf n (bytes s)) (t, s)"
    by (simp add: buffer_bytes_def emit_map)
  finally show ?thesis .
qed

lemma sys_write_unfold:
  "buf \<noteq> 0 \<Longrightarrow> 0 < len \<Longrightarrow> len \<le> 4096 \<Longrightarrow> terminal_new pr s = Inr (Some t, s') \<Longrightarrow>
     sys_write pr fd buf len s = andThen (for_each [0..<len] (print_byte pr buf) (t, s')) (\<lambda>(t, s). Inr (of_nat len, s))"
  by (simp add: sys_write_def print_byte_def [abs_def])

lemma sys_write_eq:
  assumes fits: "screen_fits w h pb s" and bufs: "framebuffers s = Some ((w, h, pb) # rest)"
    and args: "buf \<noteq> 0" "0 < len" "len \<le> 4096" and mem: "\<forall>i < len. bytes s (buf + i) \<noteq> None"
  shows "\<exists>F c r P. sys_write pr fd buf len s = Inr (of_nat len, s\<lparr>fb := F\<rparr>) \<and> length F = length (fb s) \<and>
    text_puts (font s) (fresh_term w h pb) (buffer_bytes buf len (bytes s)) (0, 0, \<lambda>y x. COLOR_BG) = (c, r, P) \<and>
    shows_picture (fresh_term w h pb) (s\<lparr>fb := F\<rparr>) P"
proof -
  let ?t = "fresh_term w h pb" and ?bs = "buffer_bytes buf len (bytes s)"
  obtain F where F: "terminal_new pr s = Inr (Some ?t, s\<lparr>fb := F\<rparr>)" "length F = length (fb s)"
    "views (?t, s\<lparr>fb := F\<rparr>) (0, 0, \<lambda>y x. COLOR_BG)"
    using terminal_new_eq [OF fits bufs] by blast
  have loop: "for_each [0..<len] (print_byte pr buf) (?t, s\<lparr>fb := F\<rparr>) = emit (term_putb pr) ?bs (?t, s\<lparr>fb := F\<rparr>)"
    using write_loop [OF F(3), of len buf pr] mem by simp
  obtain ts where ts: "emit (term_putb pr) ?bs (?t, s\<lparr>fb := F\<rparr>) = Inr ts" "same_term (?t, s\<lparr>fb := F\<rparr>) ts"
    "views ts (text_puts (font (s\<lparr>fb := F\<rparr>)) ?t ?bs (0, 0, \<lambda>y x. COLOR_BG))"
    using emit_views [OF F(3)] by blast
  then obtain c' r' G where G: "ts = (?t\<lparr>tcol := c', trow := r'\<rparr>, s\<lparr>fb := G\<rparr>)" "length G = length (fb s)"
    using F(2) by (cases ts) (auto simp: same_term_def)
  obtain c r P where crP: "text_puts (font s) ?t ?bs (0, 0, \<lambda>y x. COLOR_BG) = (c, r, P)" by (metis prod_cases3)
  have "shows_picture ?t (s\<lparr>fb := G\<rparr>) P" using ts(3) by (simp add: crP views_def G(1))
  moreover have "sys_write pr fd buf len s = Inr (of_nat len, s\<lparr>fb := G\<rparr>)"
    using sys_write_unfold [OF args F(1), of fd] loop ts(1) by (simp add: G(1))
  ultimately show ?thesis using G(2) crP by blast
qed

lemma for_each_upt_fails:
  assumes "i < n" "for_each [0..<i] f s = Inr s'" "f i s' = Inl e"
  shows "for_each [0..<n] f s = Inl e"
proof -
  have app: "for_each (xs @ ys) f s = andThen (for_each xs f s) (for_each ys f)" for xs ys s
    by (induction xs arbitrary: s) (simp_all add: andThen_assoc cong: andThen_cong)
  have "[0..<n] = [0..<i] @ i # [Suc i..<n]"
    using assms(1) upt_add_eq_append [of 0 i "n - i"] by (simp add: upt_conv_Cons)
  then show ?thesis using assms(2,3) by (simp only: app) simp
qed

text \<open>A byte that is not mapped ends the call with a fault at the first such byte.\<close>

lemma sys_write_faults:
  assumes fits: "screen_fits w h pb s" and bufs: "framebuffers s = Some ((w, h, pb) # rest)"
    and args: "buf \<noteq> 0" "0 < len" "len \<le> 4096" and mem: "\<not> (\<forall>i < len. bytes s (buf + i) \<noteq> None)"
  shows "sys_write pr fd buf len s = Inl (WildAccess (buf + (LEAST i. bytes s (buf + i) = None)))"
proof -
  let ?t = "fresh_term w h pb"
  define k where "k = (LEAST i. bytes s (buf + i) = None)"
  obtain j where j: "j < len" "bytes s (buf + j) = None" using mem by blast
  have k: "bytes s (buf + k) = None" unfolding k_def by (rule LeastI) (rule j(2))
  have "k \<le> j" unfolding k_def by (rule Least_le) (rule j(2))
  then have less: "k < len" using j(1) by simp
  have before: "\<forall>i < k. bytes s (buf + i) \<noteq> None" unfolding k_def using not_less_Least by blast
  obtain F where F: "terminal_new pr s = Inr (Some ?t, s\<lparr>fb := F\<rparr>)"
    "views (?t, s\<lparr>fb := F\<rparr>) (0, 0, \<lambda>y x. COLOR_BG)"
    using terminal_new_eq [OF fits bufs] by blast
  obtain ts where ts: "emit (term_putb pr) (buffer_bytes buf k (bytes s)) (?t, s\<lparr>fb := F\<rparr>) = Inr ts"
    "same_term (?t, s\<lparr>fb := F\<rparr>) ts"
    using emit_views [OF F(2)] by blast
  have "for_each [0..<k] (print_byte pr buf) (?t, s\<lparr>fb := F\<rparr>) = Inr ts"
    using write_loop [OF F(2), of k buf pr] before ts(1) by simp
  moreover have "print_byte pr buf k ts = Inl (WildAccess (buf + k))"
    using ts(2) k by (cases ts) (auto simp: same_term_def print_byte_def load_byte_def)
  ultimately have "for_each [0..<len] (print_byte pr buf) (?t, s\<lparr>fb := F\<rparr>) = Inl (WildAccess (buf + k))"
    by (rule for_each_upt_fails [OF less])
  then show ?thesis using sys_write_unfold [OF args F(1), of fd] by (simp add: k_def)
qed

section \<open>Reading\<close>

lemma global_pop_frame: "global_pop s = Inr (r, s') \<Longrightarrow> s' = s\<lparr>global_keyboard := global_keyboard s'\<rparr>"
  by (auto simp: global_pop_def split: prod.splits)

lemma kbd_bytes [simp]:
  "kbd_inv (s\<lparr>bytes := m\<rparr>) = kbd_inv s" "kbd_pending (s\<lparr>bytes := m\<rparr>) = kbd_pending s"
  by (simp_all add: kbd_inv_def kbd_pending_def)

definition filled :: "nat \<Rightarrow> u8 list \<Rightarrow> (nat \<Rightarrow> u8 option) \<Rightarrow> nat \<Rightarrow> u8 option" where
  "filled a bs m = (\<lambda>i. if a \<le> i \<and> i < a + length bs then Some (bs ! (i - a)) else m i)"

lemma filled_Nil [simp]: "filled a [] m = m"
  by (auto simp: filled_def fun_eq_iff)

lemma filled_Cons: "filled a (b # bs) m = filled (Suc a) bs (m(a \<mapsto> b))"
proof
  fix i
  show "filled a (b # bs) m i = filled (Suc a) bs (m(a \<mapsto> b)) i"
    by (cases "i = a"; cases "a < i") (auto simp: filled_def nth_Cons' Suc_diff_Suc)
qed

lemma read_loop_eq:
  "kbd_inv s \<Longrightarrow> count \<le> len \<Longrightarrow>
   \<forall>i. count \<le> i \<and> i < len \<and> i < count + length (kbd_pending s) \<longrightarrow> bytes s (buf + i) \<noteq> None \<Longrightarrow>
   \<exists>K. let got = take (len - count) (kbd_pending s);
            s' = s\<lparr>global_keyboard := K, bytes := filled (buf + count) got (bytes s)\<rparr> in
     read_loop pr buf len count s = Inr (count + length got, s') \<and> kbd_inv s' \<and>
     kbd_pending s' = drop (len - count) (kbd_pending s)"
proof (induction "len - count" arbitrary: count s)
  case 0
  then have "read_loop pr buf len count s = Inr (count, s)" by (subst read_loop.simps) simp
  moreover have "len - count = 0" using 0(1) by (rule sym)
  ultimately show ?case using 0(2)
    by (intro exI [of _ "global_keyboard s"]) (simp only: Let_def take_0 drop_0 list.size filled_Nil, simp)
next
  case (Suc n)
  have less: "count < len" using Suc.hyps(2) by simp
  show ?case
  proof (cases "kbd_pending s")
    case Nil
    then have "read_loop pr buf len count s = Inr (count, s)"
      using less kbd.get_empty [OF Suc.prems(1)] by (subst read_loop.simps) simp
    then show ?thesis using Nil Suc.prems(1) by (intro exI [of _ "global_keyboard s"]) (simp add: Let_def)
  next
    case (Cons b bs)
    then obtain s1 where 1: "global_pop s = Inr (Some b, s1)" "kbd_inv s1" "kbd_pending s1 = bs"
      using kbd.get_item [OF Suc.prems(1)] by blast
    define K1 where "K1 = global_keyboard s1"
    have s1: "s1 = s\<lparr>global_keyboard := K1\<rparr>" using global_pop_frame [OF 1(1)] by (simp add: K1_def)
    have mapped: "bytes s (buf + count) \<noteq> None" using Suc.prems(3) less Cons by simp
    let ?s2 = "s1\<lparr>bytes := (bytes s)(buf + count \<mapsto> b)\<rparr>"
    have store: "store_byte (buf + count) b s1 = Inr ?s2" using mapped by (auto simp: store_byte_def s1)
    have step: "read_loop pr buf len count s = read_loop pr buf len (count + 1) ?s2"
      using less 1(1) store by (subst read_loop.simps) (simp add: s1)
    have "n = len - (count + 1)" "kbd_inv ?s2" "count + 1 \<le> len"
      "\<forall>i. count + 1 \<le> i \<and> i < len \<and> i < count + 1 + length (kbd_pending ?s2) \<longrightarrow> bytes ?s2 (buf + i) \<noteq> None"
      using Suc.hyps(2) less 1(2,3) Suc.prems(3) Cons by (auto simp: s1)
    from Suc.hyps(1) [OF this(1,2,3,4)] obtain K where
      K: "let got = take (len - (count + 1)) (kbd_pending ?s2);
            s' = ?s2\<lparr>global_keyboard := K, bytes := filled (buf + (count + 1)) got (bytes ?s2)\<rparr> in
     read_loop pr buf len (count + 1) ?s2 = Inr (count + 1 + length got, s') \<and> kbd_inv s' \<and>
     kbd_pending s' = drop (len - (count + 1)) (kbd_pending ?s2)" by blast
    have rest: "len - count = Suc (len - (count + 1))" using less by simp
    show ?thesis using K 1(3) Cons
      by (intro exI [of _ K]) (simp only: step rest, simp add: Let_def s1 filled_Cons)
  qed
qed

section \<open>Properties\<close>

text \<open>C27: \<open>sys_write\<close>. A null buffer, an empty one or one of more than 4096 bytes is answered with \<open>u64::MAX\<close> and
  nothing happens: no byte is read, whatever is mapped and whatever the screen. Without a framebuffer any other buffer
  is answered with its length, unread. With a framebuffer that holds at least one character, and if all bytes of
  the buffer are mapped, the call returns its length and the screen is the background with exactly the buffer's
  text on it (control characters, wrapping and scrolling as \<open>text_puts\<close> has them); if one is not, the call faults
  at the first such byte. Whenever it returns, only RAX of the frame has changed.\<close>

theorem sys_write_correct:
  assumes "rax fr = SYS_WRITE"
  shows "if rsi fr = 0 \<or> rdx fr = 0 \<or> 4096 < rdx fr then dispatch pr fr s = Inr (Resume (fr\<lparr>rax := -1\<rparr>), s)
    else
      (framebuffers s = None \<or> framebuffers s = Some [] \<longrightarrow> dispatch pr fr s = Inr (Resume (fr\<lparr>rax := rdx fr\<rparr>), s)) \<and>
      (screen_fits w h pb s \<and> framebuffers s = Some ((w, h, pb) # rest) \<longrightarrow>
        (if \<forall>i < unat (rdx fr). bytes s (unat (rsi fr) + i) \<noteq> None
         then \<exists>F c r P. dispatch pr fr s = Inr (Resume (fr\<lparr>rax := rdx fr\<rparr>), s\<lparr>fb := F\<rparr>) \<and> length F = length (fb s) \<and>
           text_puts (font s) (fresh_term w h pb) (buffer_bytes (unat (rsi fr)) (unat (rdx fr)) (bytes s))
             (0, 0, \<lambda>y x. COLOR_BG) = (c, r, P) \<and>
           shows_picture (fresh_term w h pb) (s\<lparr>fb := F\<rparr>) P
         else dispatch pr fr s =
           Inl (WildAccess (unat (rsi fr) + (LEAST i. bytes s (unat (rsi fr) + i) = None)))))"
proof -
  have z: "unat (rsi fr) = 0 \<longleftrightarrow> rsi fr = 0" "unat (rdx fr) = 0 \<longleftrightarrow> rdx fr = 0" "4096 < unat (rdx fr) \<longleftrightarrow> 4096 < rdx fr"
    by (simp_all add: unat_eq_0 word_less_nat_alt)
  show ?thesis
  proof (cases "rsi fr = 0 \<or> rdx fr = 0 \<or> 4096 < rdx fr")
    case True
    then have "sys_write pr (rdi fr) (unat (rsi fr)) (unat (rdx fr)) s = Inr (-1, s)" using z by (auto simp: sys_write_def)
    then show ?thesis using True assms(1) by (simp add: dispatch_def)
  next
    case False
    then have args: "unat (rsi fr) \<noteq> 0" "0 < unat (rdx fr)" "unat (rdx fr) \<le> 4096" using z by auto
    have none: "dispatch pr fr s = Inr (Resume (fr\<lparr>rax := rdx fr\<rparr>), s)" if "framebuffers s = None \<or> framebuffers s = Some []"
      using that args assms by (auto simp: dispatch_def sys_write_def terminal_new_def)
    show ?thesis
    proof (cases "\<forall>i < unat (rdx fr). bytes s (unat (rsi fr) + i) \<noteq> None")
      case True
      have "\<exists>F c r P. dispatch pr fr s = Inr (Resume (fr\<lparr>rax := rdx fr\<rparr>), s\<lparr>fb := F\<rparr>) \<and> length F = length (fb s) \<and>
           text_puts (font s) (fresh_term w h pb) (buffer_bytes (unat (rsi fr)) (unat (rdx fr)) (bytes s))
             (0, 0, \<lambda>y x. COLOR_BG) = (c, r, P) \<and>
           shows_picture (fresh_term w h pb) (s\<lparr>fb := F\<rparr>) P"
        if "screen_fits w h pb s" "framebuffers s = Some ((w, h, pb) # rest)"
        using sys_write_eq [OF that args True, of pr "rdi fr"] assms(1) by (auto simp: dispatch_def)
      then show ?thesis using False none True by simp
    next
      case bad: False
      have "dispatch pr fr s = Inl (WildAccess (unat (rsi fr) + (LEAST i. bytes s (unat (rsi fr) + i) = None)))"
        if "screen_fits w h pb s" "framebuffers s = Some ((w, h, pb) # rest)"
        using sys_write_faults [OF that args bad, of pr "rdi fr"] assms(1) by (simp add: dispatch_def)
      then show ?thesis using False none bad by (auto simp del: not_None_eq)
    qed
  qed
qed

text \<open>C28: \<open>sys_read\<close> answers a null or empty buffer with \<open>u64::MAX\<close>, and nothing happens: no key is taken and
  nothing is stored, whatever is mapped. Otherwise, if the bytes it fills are mapped, it
  never waits: it moves as many pending keys as there are and as fit, oldest first, to the start of the buffer,
  returns their number, and leaves the later keys pending in order; no byte outside them is written.\<close>

theorem sys_read_correct:
  assumes "rax fr = SYS_READ"
  shows "if rsi fr = 0 \<or> rdx fr = 0 then dispatch pr fr s = Inr (Resume (fr\<lparr>rax := -1\<rparr>), s)
    else kbd_inv s \<and> (\<forall>i < min (unat (rdx fr)) (length (kbd_pending s)). bytes s (unat (rsi fr) + i) \<noteq> None) \<longrightarrow>
      (\<exists>K. let got = take (unat (rdx fr)) (kbd_pending s);
            s' = s\<lparr>global_keyboard := K, bytes := filled (unat (rsi fr)) got (bytes s)\<rparr> in
      dispatch pr fr s = Inr (Resume (fr\<lparr>rax := of_nat (length got)\<rparr>), s') \<and> kbd_inv s' \<and>
      kbd_pending s' = drop (unat (rdx fr)) (kbd_pending s))"
proof -
  have z: "unat (rsi fr) = 0 \<longleftrightarrow> rsi fr = 0" "unat (rdx fr) = 0 \<longleftrightarrow> rdx fr = 0" by (simp_all add: unat_eq_0)
  have other: "SYS_READ \<noteq> SYS_WRITE" by (simp add: SYS_READ_def SYS_WRITE_def)
  show ?thesis
  proof (cases "rsi fr = 0 \<or> rdx fr = 0")
    case True
    then have "sys_read pr (rdi fr) (unat (rsi fr)) (unat (rdx fr)) s = Inr (-1, s)" using z by (auto simp: sys_read_def)
    then show ?thesis using True assms(1) other by (simp add: dispatch_def)
  next
    case False
    have "\<exists>K. let got = take (unat (rdx fr)) (kbd_pending s);
            s' = s\<lparr>global_keyboard := K, bytes := filled (unat (rsi fr)) got (bytes s)\<rparr> in
      dispatch pr fr s = Inr (Resume (fr\<lparr>rax := of_nat (length got)\<rparr>), s') \<and> kbd_inv s' \<and>
      kbd_pending s' = drop (unat (rdx fr)) (kbd_pending s)"
      if inv: "kbd_inv s"
        and mem: "\<forall>i < min (unat (rdx fr)) (length (kbd_pending s)). bytes s (unat (rsi fr) + i) \<noteq> None"
    proof -
      have "\<forall>i. 0 \<le> i \<and> i < unat (rdx fr) \<and> i < 0 + length (kbd_pending s) \<longrightarrow> bytes s (unat (rsi fr) + i) \<noteq> None"
        using mem by simp
      then obtain K where "let got = take (unat (rdx fr) - 0) (kbd_pending s);
            s' = s\<lparr>global_keyboard := K, bytes := filled (unat (rsi fr) + 0) got (bytes s)\<rparr> in
       read_loop pr (unat (rsi fr)) (unat (rdx fr)) 0 s = Inr (0 + length got, s') \<and> kbd_inv s' \<and>
       kbd_pending s' = drop (unat (rdx fr) - 0) (kbd_pending s)"
        using read_loop_eq [OF inv, of 0 "unat (rdx fr)" "unat (rsi fr)" pr] by blast
      then show ?thesis using False z assms(1) other
        by (intro exI [of _ K]) (auto simp: dispatch_def sys_read_def Let_def)
    qed
    then show ?thesis using False by simp
  qed
qed

definition small_sys :: sys_state where
  "small_sys = undefined\<lparr>fb := replicate 512 0, framebuffers := Some [(16, 32, 64)],
     font := FONT_HEADER @ replicate 4096 0, bytes := (\<lambda>a. if a < 0x2000 then Some 65 else None),
     global_keyboard := keyboard_new\<lparr>kbuffer := key_buffer_new\<lparr>kbuf := replicate 256 97, khead := 3\<rparr>\<rparr>\<rparr>"

definition call_frame :: "u64 \<Rightarrow> u64 \<Rightarrow> u64 \<Rightarrow> interrupt_frame" where
  "call_frame n buf len = undefined\<lparr>vector := 128, rax := n, rdi := 1, rsi := buf, rdx := len\<rparr>"

lemma call_frame_simps [simp]:
  "vector (call_frame n buf len) = 128" "rax (call_frame n buf len) = n" "rdi (call_frame n buf len) = 1"
  "rsi (call_frame n buf len) = buf" "rdx (call_frame n buf len) = len"
  "(call_frame n buf len)\<lparr>rax := v\<rparr> = call_frame v buf len"
  by (simp_all add: call_frame_def)

lemma small_sys_fits: "screen_fits 16 32 64 small_sys" "framebuffers small_sys = Some [(16, 32, 64)]"
  "bytes small_sys = (\<lambda>a. if a < 0x2000 then Some 65 else None)"
  by (simp_all add: screen_fits_def small_sys_def FONT_HEADER_def)

theorem sys_write_correct_witness:
  "(\<exists>F. dispatch Dev (call_frame SYS_WRITE 0x1000 5) small_sys =
      Inr (Resume (call_frame 5 0x1000 5), small_sys\<lparr>fb := F\<rparr>)) \<and>
    dispatch Dev (call_frame SYS_WRITE 0 5) small_sys = Inr (Resume (call_frame (-1) 0 5), small_sys) \<and>
    dispatch Dev (call_frame SYS_WRITE 0x1ffe 5) small_sys = Inl (WildAccess 0x2000)"
proof -
  have "(LEAST i. bytes small_sys (0x1ffe + i) = None) = 2"
    by (rule Least_equality) (auto simp: small_sys_fits split: if_splits)
  moreover have "\<exists>i < 5. bytes small_sys (0x1ffe + i) = None"
    by (rule exI [of _ 2]) (simp add: small_sys_fits)
  ultimately show ?thesis
    using sys_write_correct [of "call_frame SYS_WRITE 0x1000 5" Dev small_sys 16 32 64 "[]"]
      sys_write_correct [of "call_frame SYS_WRITE 0 5" Dev small_sys 16 32 64 "[]"]
      sys_write_correct [of "call_frame SYS_WRITE 0x1ffe 5" Dev small_sys 16 32 64 "[]"]
      small_sys_fits(1,2) by (auto simp: small_sys_fits(3))
qed

theorem sys_read_correct_witness:
  "(\<exists>s'. dispatch Dev (call_frame SYS_READ 0x1000 2) small_sys = Inr (Resume (call_frame 2 0x1000 2), s') \<and>
     bytes s' 0x1001 = Some 97 \<and> kbd_pending s' = [97]) \<and>
   dispatch Dev (call_frame SYS_READ 0 2) small_sys = Inr (Resume (call_frame (-1) 0 2), small_sys)"
proof -
  have inv: "kbd_inv small_sys" and pend: "kbd_pending small_sys = [97, 97, 97]"
    by (simp_all add: small_sys_def kbd_inv_def kb_inv_def kbd_pending_def pending_def key_buffer_new_def
        keyboard_new_def kb_count_def upt_rec)
  show ?thesis
    using sys_read_correct [of "call_frame SYS_READ 0x1000 2" Dev small_sys] inv pend
      sys_read_correct [of "call_frame SYS_READ 0 2" Dev small_sys]
    by (auto simp: Let_def filled_def small_sys_fits)
qed

end
