(* ===== verification/Interrupts.thy ===== *)
theory Interrupts
  imports Syscall
begin

text \<open>
  What happens after an interrupt's frame is on the stack (\<open>interrupt/idt.rs\<close>): \<open>common_handler\<close>, its
  exception messages, the IRQ dispatch with the acknowledgement, and the system call gate.
\<close>

section \<open>Operations\<close>

text \<open>The messages are sequences of \<open>term.print(..)\<close> and \<open>term.print_hex64(..)\<close>.\<close>

datatype item = Str string | Hex u64

fun print_items :: "profile \<Rightarrow> item list \<Rightarrow> 'a tty \<Rightarrow> 'a tty res" where
  "print_items pr [] ts = Inr ts"
| "print_items pr (Str str # items) ts = andThen (term_print pr str ts) (print_items pr items)"
| "print_items pr (Hex v # items) ts = andThen (term_print_hex64 pr v ts) (print_items pr items)"

definition with_term ::
    "profile \<Rightarrow> ('a tty \<Rightarrow> 'a tty res) \<Rightarrow> 'a screen_state_scheme \<Rightarrow> 'a screen_state_scheme res" where
  "with_term pr f s =
     andThen (terminal_new pr s) (\<lambda>(t, s).
       case t of
         None \<Rightarrow> Inr s
       | Some t \<Rightarrow> andThen (f (set_color COLOR_PANIC COLOR_BG (t, s))) (\<lambda>ts.
           Inr (snd (set_color COLOR_FG COLOR_BG ts))))"

definition halt_forever :: "'a sys_state_scheme \<Rightarrow> exit \<times> 'a sys_state_scheme" where
  "halt_forever s = (Halted, cli_insn s)"

definition exception_with ::
    "profile \<Rightarrow> item list \<Rightarrow> 'a sys_state_scheme \<Rightarrow> (exit \<times> 'a sys_state_scheme) res" where
  "exception_with pr items s = andThen (with_term pr (print_items pr items) s) (\<lambda>s. Inr (halt_forever s))"

definition exception_generic ::
    "profile \<Rightarrow> string \<Rightarrow> interrupt_frame \<Rightarrow> 'a sys_state_scheme \<Rightarrow> (exit \<times> 'a sys_state_scheme) res" where
  "exception_generic pr name frame = exception_with pr
     [Str ''\<newline>!! CPU EXCEPTION: '', Str name, Str ''\<newline>!! Vector: '', Hex (vector frame),
      Str ''\<newline>Error code: '', Hex (error_code frame), Str ''\<newline>RIP: '', Hex (rip frame), Str ''\<newline>'']"

definition exception_page_fault ::
    "profile \<Rightarrow> interrupt_frame \<Rightarrow> 'a sys_state_scheme \<Rightarrow> (exit \<times> 'a sys_state_scheme) res" where
  "exception_page_fault pr frame s = (let cr2 = cr2 s in exception_with pr
     ([Str ''\<newline>!! PAGE FAULT !!\<newline>'', Str ''CR2 (fault addr): '', Hex cr2,
       Str ''\<newline>Error code:      '', Hex (error_code frame), Str ''\<newline>RIP:             '', Hex (rip frame),
       Str ''\<newline>RSP:             '', Hex (rsp frame), Str ''\<newline>RAX:             '', Hex (rax frame),
       Str ''\<newline>Reason:          '',
       Str (if error_code frame AND 1 = 0 then ''not-present '' else ''protection-violation ''),
       Str (if error_code frame AND 2 \<noteq> 0 then ''write '' else ''read '')] @
      (if error_code frame AND 4 \<noteq> 0 then [Str ''user-mode ''] else []) @
      [Str ''\<newline>RIP:             '', Hex (rip frame), Str ''\<newline>'']) s)"

definition exception_divide_by_zero ::
    "profile \<Rightarrow> interrupt_frame \<Rightarrow> 'a sys_state_scheme \<Rightarrow> (exit \<times> 'a sys_state_scheme) res" where
  "exception_divide_by_zero pr frame = exception_with pr
     [Str ''\<newline> !! DIVIDE-BY-ZERO EXCEPTION !! \<newline>RIP: '', Hex (rip frame), Str ''\<newline>'']"

definition exception_general_protection_fault ::
    "profile \<Rightarrow> interrupt_frame \<Rightarrow> 'a sys_state_scheme \<Rightarrow> (exit \<times> 'a sys_state_scheme) res" where
  "exception_general_protection_fault pr frame = exception_with pr
     [Str ''\<newline>!! GENERAL PROTECTION FAULT !!\<newline>'', Str ''Saved RIP:     '', Hex (rip frame),
      Str ''\<newline>Error code:   '', Hex (error_code frame), Str ''\<newline>CS:           '', Hex (cs frame), Str ''\<newline>'']"

definition exception_invalid_opcode ::
    "profile \<Rightarrow> interrupt_frame \<Rightarrow> 'a sys_state_scheme \<Rightarrow> (exit \<times> 'a sys_state_scheme) res" where
  "exception_invalid_opcode pr frame = exception_with pr
     [Str ''\<newline>!! INVALID OPCODE EXCEPTION !! \<newline>RIP: '', Hex (rip frame), Str ''\<newline>'']"

definition exception_double_fault ::
    "profile \<Rightarrow> interrupt_frame \<Rightarrow> 'a sys_state_scheme \<Rightarrow> (exit \<times> 'a sys_state_scheme) res" where
  "exception_double_fault pr frame = exception_with pr
     [Str ''\<newline>!! DOUBLE FAULT !! (register dump)\<newline>'',
      Str ''RIP: '', Hex (rip frame), Str ''\<newline>'', Str ''CS:  '', Hex (cs frame), Str ''\<newline>'',
      Str ''RAX: '', Hex (rax frame), Str ''  '', Str ''RBX: '', Hex (rbx frame), Str ''\<newline>'',
      Str ''RCX: '', Hex (rcx frame), Str ''  '', Str ''RDX: '', Hex (rdx frame), Str ''\<newline>'',
      Str ''RSI: '', Hex (rsi frame), Str ''  '', Str ''RDI: '', Hex (rdi frame), Str ''\<newline>'',
      Str ''RBP: '', Hex (rbp frame), Str ''  '', Str ''RSP: '', Hex (rsp frame), Str ''\<newline>'',
      Str ''R8:  '', Hex (r8 frame), Str ''  '', Str ''R9:  '', Hex (r9 frame), Str ''\<newline>'',
      Str ''R10: '', Hex (r10 frame), Str ''  '', Str ''R11: '', Hex (r11 frame), Str ''\<newline>'',
      Str ''R12: '', Hex (r12 frame), Str ''  '', Str ''R13: '', Hex (r13 frame), Str ''\<newline>'',
      Str ''R14: '', Hex (r14 frame), Str ''  '', Str ''R15: '', Hex (r15 frame), Str ''\<newline>'',
      Str ''RFLAGS: '', Hex (rflags frame), Str ''\<newline>'']"

definition call_handler ::
    "profile \<Rightarrow> irq_handler \<Rightarrow> 'a sched_state_scheme \<Rightarrow> ((nat \<times> nat) option \<times> 'a sched_state_scheme) res" where
  "call_handler pr h s =
     (case h of On_tick \<Rightarrow> on_tick pr s | On_irq1 \<Rightarrow> andThen (on_irq1 s) (\<lambda>s. Inr (None, s)))"

text \<open>The \<open>32..=47\<close> arm; after a switch the acknowledgement is what is left of it.\<close>

definition handle_irq ::
    "profile \<Rightarrow> interrupt_frame \<Rightarrow> 'a sys_state_scheme \<Rightarrow> (exit \<times> 'a sys_state_scheme) res" where
  "handle_irq pr frame s =
     (let irq = ucast (vector frame - 32) :: u8 in
      if length (irq_handles s) \<le> unat irq then Inl OutOfBounds
      else
        andThen
          (case irq_handles s ! unat irq of
             Some h \<Rightarrow> call_handler pr h s
           | None \<Rightarrow> andThen (serial_print ''[IDT] NO HANDLER\<newline>'' s) (\<lambda>s. Inr (None, s)))
          (\<lambda>(sw, s).
            case sw of
              None \<Rightarrow> Inr (Resume frame, send_eoi irq s)
            | Some (c, n) \<Rightarrow> Inr (Switched c n irq, s)))"

definition after_switch :: "u8 \<Rightarrow> interrupt_frame \<Rightarrow> 'a sys_state_scheme \<Rightarrow> exit \<times> 'a sys_state_scheme" where
  "after_switch irq frame s = (Resume frame, send_eoi irq s)"

text \<open>The arms of the match that only give a name.\<close>

definition generic_names :: "(u64 \<times> string) list" where
  "generic_names =
     [(1, ''Debug''), (2, ''Non-Maskable Interrupt''), (3, ''Breakpoint''), (4, ''Overflow''),
      (5, ''Bound Range Exceeded''), (7, ''Device Not Available''), (9, ''Coprocessor Segment Overrun''),
      (10, ''Invalid TSS''), (11, ''Segment Not Present''), (12, ''Stack-Segment Fault''),
      (16, ''x87 Floating-Point Exception''), (17, ''Alignment Check''), (18, ''Machine Check''),
      (19, ''SIMD Floating-Point Exception''), (20, ''Virtualization Exception''),
      (21, ''Control Protection Exception''), (28, ''Hypervisor Injection Exception''),
      (29, ''VMM Communication Exception''), (30, ''Security Exception''), (15, ''Reserved''),
      (22, ''Reserved''), (23, ''Reserved''), (24, ''Reserved''), (25, ''Reserved''), (26, ''Reserved''),
      (27, ''Reserved''), (31, ''Reserved'')]"

definition common_handler ::
    "profile \<Rightarrow> interrupt_frame \<Rightarrow> 'a sys_state_scheme \<Rightarrow> (exit \<times> 'a sys_state_scheme) res" where
  "common_handler pr frame s =
     (let v = vector frame in
      if v = 0 then exception_divide_by_zero pr frame s
      else if v = 6 then exception_invalid_opcode pr frame s
      else if v = 8 then exception_double_fault pr frame s
      else if v = 13 then exception_general_protection_fault pr frame s
      else if v = 14 then exception_page_fault pr frame s
      else if 32 \<le> v \<and> v \<le> 47 then handle_irq pr frame s
      else if v = 128 then dispatch pr frame s
      else
        case map_of generic_names v of
          Some name \<Rightarrow> exception_generic pr name frame s
        | None \<Rightarrow> exception_generic pr ''Unknown'' frame s)"

section \<open>Messages\<close>

fun item_bytes :: "item \<Rightarrow> u8 list" where
  "item_bytes (Str str) = asc str"
| "item_bytes (Hex v) = asc ''0x'' @ hex_text v"

lemma print_items_emit:
  fixes ts :: "'a tty"
  shows "print_items pr items ts = emit (term_putb pr) (concat (map item_bytes items)) ts"
proof (induction items arbitrary: ts)
  case (Cons x items)
  have hex: "put_hex64 (term_putb pr) v = (emit (term_putb pr) (hex_text v) :: 'a tty \<Rightarrow> 'a tty res)" for v
    by (rule ext) (rule put_hex64_eq)
  have "(print_items pr items :: 'a tty \<Rightarrow> 'a tty res) = emit (term_putb pr) (concat (map item_bytes items))"
    by (rule ext) (rule Cons.IH)
  then show ?case
    by (cases x) (simp_all add: term_print_def term_print_hex64_def hex emit_append andThen_assoc cong: andThen_cong)
qed simp

text \<open>The terminal of a message: a fresh one in the panic colours.\<close>

definition panic_term :: "nat \<Rightarrow> nat \<Rightarrow> nat \<Rightarrow> terminal" where
  "panic_term w h pb = (fresh_term w h pb)\<lparr>tfg := COLOR_PANIC, tbg := COLOR_BG\<rparr>"

definition no_screen :: "'a screen_state_scheme \<Rightarrow> bool" where
  "no_screen s \<longleftrightarrow> framebuffers s = None \<or> framebuffers s = Some []"

definition screen_of :: "nat \<Rightarrow> nat \<Rightarrow> nat \<Rightarrow> 'a screen_state_scheme \<Rightarrow> bool" where
  "screen_of w h pb s \<longleftrightarrow> (\<exists>rest. framebuffers s = Some ((w, h, pb) # rest)) \<and> screen_fits w h pb s"

text \<open>After the message, the screen shows exactly the items' text.\<close>

definition message_shown :: "nat \<Rightarrow> nat \<Rightarrow> nat \<Rightarrow> item list \<Rightarrow> 'a screen_state_scheme \<Rightarrow> bool" where
  "message_shown w h pb items s \<longleftrightarrow>
     (\<exists>c r P. text_puts (font s) (panic_term w h pb) (concat (map item_bytes items)) (0, 0, \<lambda>y x. COLOR_BG) = (c, r, P) \<and>
       shows_picture (panic_term w h pb) s P)"

lemma with_term_no_screen: "no_screen s \<Longrightarrow> with_term pr f s = Inr s"
  by (auto simp: no_screen_def with_term_def terminal_new_def)

lemma with_term_message:
  assumes "screen_of w h pb s"
  shows "\<exists>F. with_term pr (print_items pr items) s = Inr (s\<lparr>fb := F\<rparr>) \<and> length F = length (fb s) \<and>
    message_shown w h pb items (s\<lparr>fb := F\<rparr>)"
proof -
  let ?t = "panic_term w h pb" and ?bs = "concat (map item_bytes items)"
  obtain rest where "framebuffers s = Some ((w, h, pb) # rest)" "screen_fits w h pb s"
    using assms by (auto simp: screen_of_def)
  then obtain F where F: "terminal_new pr s = Inr (Some (fresh_term w h pb), s\<lparr>fb := F\<rparr>)" "length F = length (fb s)"
    "views (fresh_term w h pb, s\<lparr>fb := F\<rparr>) (0, 0, \<lambda>y x. COLOR_BG)"
    using terminal_new_eq by blast
  have "views (?t, s\<lparr>fb := F\<rparr>) (0, 0, \<lambda>y x. COLOR_BG)"
    using F(3) by (simp add: views_def panic_term_def term_ok_def shows_picture_def)
  from emit_views [OF this, of pr ?bs] obtain ts where
    ts: "emit (term_putb pr) ?bs (?t, s\<lparr>fb := F\<rparr>) = Inr ts" "same_term (?t, s\<lparr>fb := F\<rparr>) ts"
    "views ts (text_puts (font s) ?t ?bs (0, 0, \<lambda>y x. COLOR_BG))" by auto
  then obtain c' r' G where G: "ts = (?t\<lparr>tcol := c', trow := r'\<rparr>, s\<lparr>fb := G\<rparr>)" "length G = length (fb s)"
    using F(2) by (cases ts) (auto simp: same_term_def)
  obtain c r P where crP: "text_puts (font s) ?t ?bs (0, 0, \<lambda>y x. COLOR_BG) = (c, r, P)" by (metis prod_cases3)
  have "shows_picture ?t (s\<lparr>fb := G\<rparr>) P" using ts(3) by (simp add: crP views_def G(1))
  then have "message_shown w h pb items (s\<lparr>fb := G\<rparr>)" using crP by (simp add: message_shown_def)
  moreover have "with_term pr (print_items pr items) s = Inr (s\<lparr>fb := G\<rparr>)"
    using F(1) ts(1) by (simp add: with_term_def set_color_def print_items_emit panic_term_def G(1) COLOR_BG_def)
  ultimately show ?thesis using G(2) by blast
qed

lemma exception_with_eq:
  assumes "no_screen s \<or> screen_of w h pb s"
  shows "\<exists>F. exception_with pr items s = Inr (Halted, cli_insn (s\<lparr>fb := F\<rparr>)) \<and> length F = length (fb s) \<and>
    (screen_of w h pb s \<longrightarrow> message_shown w h pb items (s\<lparr>fb := F\<rparr>))"
proof (cases "screen_of w h pb s")
  case True
  then show ?thesis using with_term_message [OF True, of pr items] by (auto simp: exception_with_def halt_forever_def)
next
  case False
  then have "with_term pr (print_items pr items) s = Inr s" using assms with_term_no_screen by blast
  then show ?thesis using False by (intro exI [of _ "fb s"]) (simp add: exception_with_def halt_forever_def)
qed

definition is_exception :: "interrupt_frame \<Rightarrow> bool" where
  "is_exception fr \<longleftrightarrow> \<not> (32 \<le> vector fr \<and> vector fr \<le> 47) \<and> vector fr \<noteq> 128"

lemma generic_items:
  "\<exists>items. exception_generic pr name fr s = exception_with pr items s \<and> Hex (rip fr) \<in> set items"
  unfolding exception_generic_def by (intro exI conjI, rule refl) simp

lemma page_fault_items:
  "\<exists>items. exception_page_fault pr fr s = exception_with pr items s \<and> Hex (rip fr) \<in> set items \<and> Hex (cr2 s) \<in> set items"
  unfolding exception_page_fault_def Let_def by (intro exI conjI, rule refl) simp_all

lemma exception_items:
  assumes "is_exception fr"
  shows "\<exists>items. common_handler pr fr s = exception_with pr items s \<and> Hex (rip fr) \<in> set items \<and>
    (vector fr = 14 \<longrightarrow> Hex (cr2 s) \<in> set items)"
proof -
  consider "vector fr = 0" | "vector fr = 6" | "vector fr = 8" | "vector fr = 13" | "vector fr = 14"
    | "vector fr \<notin> {0, 6, 8, 13, 14}" by blast
  then show ?thesis
  proof cases
    case 1
    then show ?thesis by (simp add: common_handler_def exception_divide_by_zero_def) (intro exI conjI, rule refl, simp)
  next
    case 2
    then show ?thesis by (simp add: common_handler_def exception_invalid_opcode_def) (intro exI conjI, rule refl, simp)
  next
    case 3
    then show ?thesis by (simp add: common_handler_def exception_double_fault_def) (intro exI conjI, rule refl, simp)
  next
    case 4
    then show ?thesis by (simp add: common_handler_def exception_general_protection_fault_def) (intro exI conjI, rule refl, simp)
  next
    case 5
    then have "common_handler pr fr s = exception_page_fault pr fr s" by (simp add: common_handler_def)
    then show ?thesis using page_fault_items [of pr fr s] by auto
  next
    case 6
    then have "\<exists>name. common_handler pr fr s = exception_generic pr name fr s"
      using assms by (auto simp: common_handler_def is_exception_def Let_def split: option.split)
    then obtain name where "common_handler pr fr s = exception_generic pr name fr s" ..
    then show ?thesis using generic_items [of pr name fr s] 6 by auto
  qed
qed

text \<open>C29: no processor exception returns: for every vector that is neither a hardware interrupt nor the system
  call gate, with or without a screen, the handler ends in \<open>cli; hlt\<close> without any fault of its own,
  having changed nothing but the framebuffer and the interrupt flag; if there is a screen it shows
  exactly one message, which contains the faulting instruction's address and, for a page fault, the
  address that was accessed.\<close>

theorem exceptions_halt:
  assumes "is_exception fr" and "no_screen s \<or> screen_of w h pb s"
  shows "\<exists>items F. Hex (rip fr) \<in> set items \<and> (vector fr = 14 \<longrightarrow> Hex (cr2 s) \<in> set items) \<and>
    common_handler pr fr s = Inr (Halted, cli_insn (s\<lparr>fb := F\<rparr>)) \<and> length F = length (fb s) \<and>
    (screen_of w h pb s \<longrightarrow> message_shown w h pb items (s\<lparr>fb := F\<rparr>))"
  using exception_items [OF assms(1), of pr s] exception_with_eq [OF assms(2), of pr] by metis

lemma small_sys_screen: "screen_of 16 32 64 small_sys"
  using small_sys_fits by (auto simp: screen_of_def)

theorem exceptions_halt_witness:
  "\<exists>F. common_handler Dev (undefined\<lparr>vector := 14\<rparr>) small_sys = Inr (Halted, cli_insn (small_sys\<lparr>fb := F\<rparr>))"
proof -
  have "is_exception (undefined\<lparr>vector := 14\<rparr>)" by (simp add: is_exception_def)
  from exceptions_halt [OF this, of small_sys 16 32 64 Dev] small_sys_screen show ?thesis by blast
qed

section \<open>Hardware interrupts\<close>

lemma sent_chips: "sent s s' \<Longrightarrow> master (io_log s') c = master (io_log s) c \<and> slave (io_log s') d = slave (io_log s) d"
  by (auto simp: sent_def)

text \<open>A keyboard interrupt whose scancode decodes without a fault.\<close>

lemma key_irq:
  assumes "vector fr = 33" and "length (irq_handles s) = 16" and "irq_handles s ! 1 = Some On_irq1"
    and "handle_scancode (dev_in s (io_log s) 0x60) (global_keyboard s) = Inr K"
  shows "common_handler pr fr s =
    Inr (Resume fr, s\<lparr>global_keyboard := K, io_log := io_log s @ [In 0x60 (dev_in s (io_log s) 0x60), Out 0x20 0x20]\<rparr>)"
proof -
  let ?s1 = "s\<lparr>io_log := io_log s @ [In 0x60 (dev_in s (io_log s) 0x60)]\<rparr>"
  have "on_irq1 s = Inr (?s1\<lparr>global_keyboard := K\<rparr>)" using assms(4) by (simp add: on_irq1_def inb_def Let_def)
  then have "common_handler pr fr s = Inr (Resume fr, send_eoi 1 (?s1\<lparr>global_keyboard := K\<rparr>))"
    using assms(1-3) by (simp add: common_handler_def handle_irq_def call_handler_def Let_def)
  then show ?thesis by (simp add: send_eoi_def outb_def PIC1_CMD_def PIC_EOI_def word_le_nat_alt)
qed

text \<open>C33: a keyboard interrupt: the scancode waiting at port 0x60 is read once and decoded, its character (if it has
  one, and if there is room) is queued behind the pending keys, the interrupted program resumes with
  its frame unchanged, and both interrupt controllers are acknowledged: with IRQ 1 in service before,
  nothing is in service after.\<close>

theorem keyboard_interrupt:
  assumes "vector fr = 33" and "length (irq_handles s) = 16" and "irq_handles s ! 1 = Some On_irq1" and "kbd_inv s"
    and "serving 1 (master (io_log s) m) (slave (io_log s) sl)"
  shows "\<exists>K. let sc = dev_in s (io_log s) 0x60; sh = shift (global_keyboard s);
      s' = s\<lparr>global_keyboard := K, io_log := io_log s @ [In 0x60 sc, Out 0x20 0x20]\<rparr> in
    common_handler pr fr s = Inr (Resume fr, s') \<and> kbd_inv s' \<and> shift K = shift_after sh [sc] \<and>
    kbd_pending s' = kbd_pending s @ take (255 - length (kbd_pending s)) (typed sh [sc]) \<and>
    in_service (master (io_log s') m) = {} \<and> in_service (slave (io_log s') sl) = {}"
proof -
  let ?sc = "dev_in s (io_log s) 0x60" and ?k = "global_keyboard s"
  let ?s1 = "s\<lparr>io_log := io_log s @ [In 0x60 ?sc]\<rparr>"
  obtain K where K: "handle_scancode ?sc ?k = Inr K" "kb_inv (kbuffer K)" "shift K = shift_after (shift ?k) [?sc]"
    "pending (kbuffer K) = pending (kbuffer ?k) @ take (255 - length (pending (kbuffer ?k))) (typed (shift ?k) [?sc])"
    using scan_all_eq [of ?k "[?sc]"] assms(4) by (auto simp: kbd_inv_def elim!: andThen_InrE)
  have "io_log (send_eoi 1 ?s1) = io_log s @ [In 0x60 ?sc, Out 0x20 0x20]" by (simp add: send_eoi_log word_le_nat_alt)
  moreover have "serving (unat (1 :: u8)) (master (io_log ?s1) m) (slave (io_log ?s1) sl)"
    using assms(5) by (simp add: chip_step_def)
  note send_eoi_acknowledges [OF this]
  ultimately show ?thesis using K key_irq [OF assms(1-3) K(1), of pr]
    by (intro exI [of _ K]) (simp add: Let_def kbd_inv_def kbd_pending_def)
qed

definition idle_chip :: "nat set \<Rightarrow> chip" where
  "idle_chip S = \<lparr>stage = 0, single = False, icw4 = True, vec_base = 32, cascade = 4, mode_8086 = True, imr = 0xfc, in_service = S\<rparr>"

definition small_irq :: sys_state where
  "small_irq = undefined\<lparr>dev_in := (\<lambda>l p. 0x1e), io_log := [], irq_handles := replicate 16 (Some On_irq1),
    global_keyboard := keyboard_new\<rparr>"

lemma small_irq_ok:
  "kbd_inv small_irq" "kbd_pending small_irq = []" "global_keyboard small_irq = keyboard_new" "io_log small_irq = []"
  "dev_in small_irq = (\<lambda>l p. 0x1e)" "irq_handles small_irq = replicate 16 (Some On_irq1)"
  by (simp_all add: small_irq_def kbd_inv_def kb_inv_def kbd_pending_def pending_def key_buffer_new_def keyboard_new_def
      kb_count_def)

theorem keyboard_interrupt_witness:
  "\<exists>s' :: sys_state. common_handler Dev (undefined\<lparr>vector := 33\<rparr>) small_irq = Inr (Resume (undefined\<lparr>vector := 33\<rparr>), s') \<and>
     kbd_pending s' = [97] \<and> in_service (master (io_log s') (idle_chip {1})) = {}"
proof -
  have sc: "typed False [0x1e] = [97]" "shift keyboard_new = False" by code_simp+
  have "serving 1 (master (io_log small_irq) (idle_chip {1})) (slave (io_log small_irq) (idle_chip {}))"
    by (simp add: serving_def idle_chip_def small_irq_ok)
  from keyboard_interrupt [OF _ _ _ small_irq_ok(1) this, of "undefined\<lparr>vector := 33\<rparr>" Dev] obtain s' :: sys_state where
    "common_handler Dev (undefined\<lparr>vector := 33\<rparr>) small_irq = Inr (Resume (undefined\<lparr>vector := 33\<rparr>), s')"
    "kbd_pending s' = kbd_pending small_irq @ take (255 - length (kbd_pending small_irq))
       (typed (shift (global_keyboard small_irq)) [dev_in small_irq (io_log small_irq) 0x60])"
    "in_service (master (io_log s') (idle_chip {1})) = {}"
    by (auto simp: Let_def small_irq_ok simp del: typed.simps)
  then show ?thesis by (simp add: small_irq_ok sc del: typed.simps)
qed

lemma timer_handler:
  assumes "vector fr = 32" "length (irq_handles s) = 16" "irq_handles s ! 0 = Some On_tick" "on_tick pr s = Inr (sw, s1)"
  shows "common_handler pr fr s = Inr (case sw of None \<Rightarrow> (Resume fr, send_eoi 0 s1) | Some (c, n) \<Rightarrow> (Switched c n 0, s1))"
  using assms by (simp add: common_handler_def handle_irq_def call_handler_def Let_def split: option.split)

text \<open>C25: a timer interrupt counts one tick and keeps the scheduler's invariant. Either the interrupted task goes on:
  its frame is unchanged and the interrupt is acknowledged, which leaves no line in service; or the handler
  switches, from the interrupted task to another one that is running from then on, with the timer's line still
  in service: the handler has sent no acknowledgement. What is left of it runs when the interrupted task is
  switched to again, in whatever state the machine is then: it sends one end of interrupt to the master, which
  acknowledges the timer if its line is the one in service, and the task goes on with its frame unchanged.\<close>

theorem timer_interrupt:
  fixes s :: "'a sys_state_scheme"
  assumes "vector fr = 32" and "length (irq_handles s) = 16" and "irq_handles s ! 0 = Some On_tick"
    and "sched_inv s" and "allowed pr Tick s" and "serving 0 (master (io_log s) m) (slave (io_log s) sl)"
  shows "\<exists>sw s1. on_tick pr s = Inr (sw, s1) \<and> sched_inv s1 \<and> tick_count s1 = tick_count s + 1 \<and>
    (case sw of
       None \<Rightarrow> current s1 = current s \<and> common_handler pr fr s = Inr (Resume fr, send_eoi 0 s1) \<and>
         in_service (master (io_log (send_eoi 0 s1)) m) = {} \<and> in_service (slave (io_log (send_eoi 0 s1)) sl) = {}
     | Some (c, n) \<Rightarrow> c = current s \<and> n = current s1 \<and> n \<noteq> c \<and> common_handler pr fr s = Inr (Switched c n 0, s1) \<and>
         serving 0 (master (io_log s1) m) (slave (io_log s1) sl) \<and>
         (\<forall>s2 :: 'a sys_state_scheme. let (e, s3) = after_switch 0 fr s2 in
            e = Resume fr \<and> s3 = s2\<lparr>io_log := io_log s2 @ [Out 0x20 0x20]\<rparr> \<and>
            (\<forall>m2 sl2. serving 0 (master (io_log s2) m2) (slave (io_log s2) sl2) \<longrightarrow>
              in_service (master (io_log s3) m2) = {} \<and> in_service (slave (io_log s3) sl2) = {})))"
proof -
  let ?now = "tick_count s + 1"
  obtain sw s1 lg n where 1: "on_tick pr s = Inr (sw, s1)"
    "sw = None \<and> s1 = ticked ?now lg n (s\<lparr>tick_count := ?now\<rparr>) \<or>
     (\<exists>k. handed_over (ticked ?now lg 0 (s\<lparr>tick_count := ?now\<rparr>)) k sw s1 \<and> leaving (ticked ?now lg 0 (s\<lparr>tick_count := ?now\<rparr>)))"
    using on_tick_handed [OF assms(4,5)] by blast
  have inv: "sched_inv s1" using on_tick_ok [OF assms(4,5)] 1(1) by auto
  have cur: "case sw of None \<Rightarrow> current s1 = current s | Some (c, n) \<Rightarrow> c = current s \<and> n = current s1 \<and> n \<noteq> c"
    and count: "tick_count s1 = ?now"
    using 1(2) by (auto simp: handed_over_def ticked_def split: if_splits)
  have serve: "serving 0 (master (io_log s2) m) (slave (io_log s2) sl)" if "sent s s2" for s2 :: "'a sys_state_scheme"
    using sent_chips [OF that] assms(6) by simp
  have s1: "sent s s1" by (rule on_tick_sent [OF assms(4,5) 1(1)])
  have eoi: "in_service (master (io_log (send_eoi 0 s2)) m) = {}" "in_service (slave (io_log (send_eoi 0 s2)) sl) = {}"
    if "sent s s2" for s2 :: "'a sys_state_scheme"
    using send_eoi_acknowledges [of 0 s2 m sl] serve [OF that] by simp_all
  have later: "let (e, s3) = after_switch 0 fr s2 in
      e = Resume fr \<and> s3 = s2\<lparr>io_log := io_log s2 @ [Out 0x20 0x20]\<rparr> \<and>
      (\<forall>m2 sl2. serving 0 (master (io_log s2) m2) (slave (io_log s2) sl2) \<longrightarrow>
        in_service (master (io_log s3) m2) = {} \<and> in_service (slave (io_log s3) sl2) = {})"
    for s2 :: "'a sys_state_scheme"
    using send_eoi_acknowledges [of 0 s2]
    by (simp add: after_switch_def) (simp add: send_eoi_def outb_def PIC1_CMD_def PIC_EOI_def)
  show ?thesis
    using 1(1) inv cur count timer_handler [OF assms(1-3) 1(1)] serve [OF s1] eoi [OF s1] later
    by (intro exI [of _ sw] exI [of _ s1]) (auto split: option.split)
qed

theorem timer_interrupt_witness:
  "\<exists>s s' :: sys_state. common_handler Release (undefined\<lparr>vector := 32\<rparr>) s = Inr (Resume (undefined\<lparr>vector := 32\<rparr>), s') \<or>
     (\<exists>c n. common_handler Release (undefined\<lparr>vector := 32\<rparr>) s = Inr (Switched c n 0, s') \<and> n \<noteq> c)"
proof -
  let ?s0 = "(small_vmm undefined)\<lparr>dev_in := (\<lambda>l p. 0xff), tasks := initial_tasks, task_lock := False,
    ticks_on_current := 0\<rparr> :: sys_state"
  have part: "vm_part ?s0 = vm_part (small_vmm undefined :: sys_state)" by (simp add: vm_part_def)
  have "vm_inv ?s0" unfolding vm_part_cong [OF part] by (rule small_vmm_inv)
  then obtain s :: sys_state where s: "sched_inv s"
    using init_tasks_inv [of ?s0] by (auto simp: uart_ready_ff)
  let ?s = "s\<lparr>io_log := [], irq_handles := replicate 16 (Some On_tick)\<rparr>"
  have inv: "sched_inv ?s"
    by (rule sched_inv_stays [OF s]) (use sched_invD [OF s] in \<open>simp_all add: vm_part_def\<close>)
  have "serving 0 (master (io_log ?s) (idle_chip {0})) (slave (io_log ?s) (idle_chip {}))"
    by (simp add: serving_def idle_chip_def)
  from timer_interrupt [OF _ _ _ inv _ this, of "undefined\<lparr>vector := 32\<rparr>" Release] show ?thesis
    by (fastforce simp: allowed_def split: option.splits)
qed

section \<open>The system call gate\<close>

text \<open>C26: \<open>int 0x80\<close> end to end: whatever the compiled code of the handler does to the registers, if it computes on
  the frame what \<open>common_handler\<close> does, then the program that raised the interrupt goes on with
  every register, the stack, flags and instruction pointer as they were, except RAX. RAX holds what
  \<open>sys_write\<close> (call 0) or \<open>sys_read\<close> (call 1) returns for the caller's RDI, RSI and RDX, with the effect of that
  call and no other; for any other number it holds \<open>u64::MAX\<close> and nothing has happened; \<open>sys_reboot\<close> (call 2) does not return.\<close>

theorem syscall_gate:
  assumes "176 \<le> sp c" and "sp c < usize_lim" and "callee_of h f"
    and "common_handler pr (context_frame 128 err c) s = Inr (Resume (h (context_frame 128 err c)), s')"
  shows "\<exists>result m. exec_all f (make_stub 128) (deliver 128 err c) = c\<lparr>gpr := (gpr c)(RAX := result), mem := m\<rparr> \<and>
    (if gpr c RAX = SYS_WRITE then
       sys_write pr (gpr c RDI) (unat (gpr c RSI)) (unat (gpr c RDX)) s = Inr (result, s')
     else if gpr c RAX = SYS_READ then
       sys_read pr (gpr c RDI) (unat (gpr c RSI)) (unat (gpr c RDX)) s = Inr (result, s')
     else gpr c RAX \<noteq> SYS_REBOOT \<and> result = -1 \<and> s' = s)"
proof -
  let ?returns = "\<lambda>result. if gpr c RAX = SYS_WRITE then
       sys_write pr (gpr c RDI) (unat (gpr c RSI)) (unat (gpr c RDX)) s = Inr (result, s')
     else if gpr c RAX = SYS_READ then
       sys_read pr (gpr c RDI) (unat (gpr c RSI)) (unat (gpr c RDX)) s = Inr (result, s')
     else gpr c RAX \<noteq> SYS_REBOOT \<and> result = -1 \<and> s' = s"
  let ?fr = "context_frame 128 err c"
  have v: "vector ?fr = 128" "rax ?fr = gpr c RAX" "rdi ?fr = gpr c RDI" "rsi ?fr = gpr c RSI" "rdx ?fr = gpr c RDX" by (simp_all add: context_frame_def)
  have d: "dispatch pr ?fr s = Inr (Resume (h ?fr), s')" using assms(4) v(1) by (simp add: common_handler_def)
  have "\<exists>result. ?fr\<lparr>rax := result\<rparr> = h ?fr \<and> ?returns result"
    using d unfolding dispatch_def v(2-5)
    by (auto simp: sys_reboot_def Let_def split: if_splits elim!: andThen_InrE)
  then obtain result where r: "h ?fr = ?fr\<lparr>rax := result\<rparr>" "?returns result" by metis
  have regs: "frame_regs (?fr\<lparr>rax := result\<rparr>) = (gpr c)(RAX := result)"
    by (auto simp: fun_eq_iff frame_regs_def context_frame_def split: reg.splits)
  have u: "unat (of_nat (sp c) :: u64) = sp c" using assms(2) by (simp add: unsigned_of_nat take_bit_nat_eq_self)
  obtain m where "exec_all f (make_stub 128) (deliver 128 err c) =
      (let fr = h ?fr in c\<lparr>gpr := frame_regs fr, sp := unat (rsp fr), ip := rip fr, flags := rflags fr,
       code_seg := cs fr, stack_seg := ss fr, mem := m\<rparr>)"
    using interrupt_result [OF assms(1-3), of 128 err] by blast
  then have "exec_all f (make_stub 128) (deliver 128 err c) = c\<lparr>gpr := (gpr c)(RAX := result), mem := m\<rparr>"
    unfolding r(1) Let_def regs by (simp add: context_frame_def u)
  then show ?thesis using r(2) by blast
qed

theorem syscall_gate_witness:
  "\<exists>m. exec_all (\<lambda>g m. (\<lambda>r. 0, m(unat (g RDI) + 112 := -1))) (make_stub 128)
      (deliver 128 0 \<lparr>gpr = (\<lambda>r. 7), sp = 4096, ip = 1, flags = 0x202, code_seg = 0x28, stack_seg = 0x30,
        mem = (\<lambda>a. 0)\<rparr>) =
    \<lparr>gpr = (\<lambda>r. 7)(RAX := -1), sp = 4096, ip = 1, flags = 0x202, code_seg = 0x28, stack_seg = 0x30, mem = m\<rparr>"
proof -
  let ?c = "\<lparr>gpr = (\<lambda>r. 7), sp = 4096, ip = 1, flags = 0x202, code_seg = 0x28, stack_seg = 0x30, mem = (\<lambda>a. 0)\<rparr>"
  let ?f = "\<lambda>g m. (\<lambda>r :: reg. 0 :: u64, m(unat (g RDI) + 112 := -1))"
  have f: "callee_of (\<lambda>fr. fr\<lparr>rax := -1\<rparr>) ?f" by (simp add: callee_of_def frame_at_def)
  have run: "common_handler Dev (context_frame 128 0 ?c) small_irq =
      Inr (Resume ((context_frame 128 0 ?c)\<lparr>rax := -1\<rparr>), small_irq)"
    by (simp add: common_handler_def dispatch_def context_frame_def SYS_WRITE_def SYS_READ_def SYS_REBOOT_def)
  from syscall_gate [OF _ _ f run] obtain r m where
    "exec_all ?f (make_stub 128) (deliver 128 0 ?c) = ?c\<lparr>gpr := (gpr ?c)(RAX := r), mem := m\<rparr>" "r = -1"
    by (auto simp: SYS_WRITE_def SYS_READ_def SYS_REBOOT_def)
  then show ?thesis by (intro exI [of _ m]) simp
qed

end
