(* ===== verification/Parsing.thy ===== *)
theory Parsing
  imports Format
begin

text \<open>
  The pure functions of the shell (\<open>shell/simple_shell.rs\<close>): splitting a command line into words, and
  the parsers of its decimal and hexadecimal arguments. Each is shown equal to a reference definition,
  and the parsers invert the kernel's own printers (Format).
\<close>

section \<open>Strings and numbers\<close>

fun position :: "(u8 \<Rightarrow> bool) \<Rightarrow> u8 list \<Rightarrow> nat option" where
  "position P [] = None"
| "position P (b # bs) = (if P b then Some 0 else map_option Suc (position P bs))"

definition rposition :: "(u8 \<Rightarrow> bool) \<Rightarrow> u8 list \<Rightarrow> nat option" where
  "rposition P bs = map_option (\<lambda>i. length bs - 1 - i) (position P (rev bs))"

definition trim_ascii :: "u8 list \<Rightarrow> u8 list" where
  "trim_ascii s =
     (case position (\<lambda>b. b \<noteq> 32) s of
        None \<Rightarrow> []
      | Some i \<Rightarrow> let s = drop i s in
          (case rposition (\<lambda>b. b \<noteq> 32) s of Some i \<Rightarrow> take (i + 1) s | None \<Rightarrow> s))"

definition split_first_word :: "u8 list \<Rightarrow> u8 list \<times> u8 list" where
  "split_first_word s =
     (case position (\<lambda>b. b = 32) s of
        Some i \<Rightarrow> (take i s, drop (i + 1) s)
      | None \<Rightarrow> (s, []))"

definition hex_nibble :: "u8 \<Rightarrow> u8 option" where
  "hex_nibble b =
     (if 48 \<le> b \<and> b \<le> 57 then Some (b - 48)
      else if 97 \<le> b \<and> b \<le> 102 then Some (b - 97 + 10)
      else if 65 \<le> b \<and> b \<le> 70 then Some (b - 65 + 10)
      else None)"

fun hex_loop :: "u32 \<Rightarrow> u8 list \<Rightarrow> u32 option" where
  "hex_loop val [] = Some val"
| "hex_loop val (b # bs) =
     (case hex_nibble b of None \<Rightarrow> None | Some nib \<Rightarrow> hex_loop (push_bit 4 val OR ucast nib) bs)"

definition parse_hex6 :: "u8 list \<Rightarrow> u32 option" where
  "parse_hex6 s = (if s = [] \<or> 6 < length s then None else hex_loop 0 s)"

definition checked_mul :: "u32 \<Rightarrow> u32 \<Rightarrow> u32 option" where
  "checked_mul a b = (if unat a * unat b < 2 ^ 32 then Some (a * b) else None)"

definition checked_add :: "u32 \<Rightarrow> u32 \<Rightarrow> u32 option" where
  "checked_add a b = (if unat a + unat b < 2 ^ 32 then Some (a + b) else None)"

fun decimal_loop :: "u32 \<Rightarrow> u8 list \<Rightarrow> u32 option" where
  "decimal_loop val [] = Some val"
| "decimal_loop val (b # bs) =
     (if \<not> (48 \<le> b \<and> b \<le> 57) then None
      else case Option.bind (checked_mul val 10) (\<lambda>v. checked_add v (ucast (b - 48))) of
        None \<Rightarrow> None
      | Some v \<Rightarrow> decimal_loop v bs)"

definition parse_decimal :: "u8 list \<Rightarrow> u32 option" where
  "parse_decimal s = (if s = [] then None else decimal_loop 0 s)"

section \<open>Words\<close>

lemma position_None: "position P bs = None \<longleftrightarrow> (\<forall>b \<in> set bs. \<not> P b)"
  by (induction bs) auto

lemma position_Some: "position P bs = Some i \<Longrightarrow> take i bs = takeWhile (\<lambda>b. \<not> P b) bs \<and> drop i bs = dropWhile (\<lambda>b. \<not> P b) bs \<and> i < length bs"
  by (induction bs arbitrary: i) (auto split: if_splits)

definition strip :: "u8 list \<Rightarrow> u8 list" where
  "strip s = rev (dropWhile (\<lambda>b. b = 32) (rev (dropWhile (\<lambda>b. b = 32) s)))"

lemma trim_ascii_eq: "trim_ascii s = strip s"
proof (cases "position (\<lambda>b. b \<noteq> 32) s")
  case None
  then have "dropWhile (\<lambda>b. b = 32) s = []" by (simp add: position_None)
  then show ?thesis using None by (simp add: trim_ascii_def strip_def del: dropWhile_eq_Nil_conv)
next
  case (Some i)
  let ?t = "drop i s"
  have t: "?t = dropWhile (\<lambda>b. b = 32) s" using position_Some [OF Some] by simp
  have ne: "?t \<noteq> []" using position_Some [OF Some] by (metis drop_eq_Nil not_le)
  show ?thesis
  proof (cases "position (\<lambda>b. b \<noteq> 32) (rev ?t)")
    case None
    then have sp: "\<forall>b \<in> set ?t. b = 32" by (simp add: position_None)
    have "hd ?t \<noteq> 32" using hd_dropWhile [of "\<lambda>b. b = 32" s] ne unfolding t by simp
    moreover have "hd ?t \<in> set ?t" using ne by (rule hd_in_set)
    ultimately show ?thesis using sp by blast
  next
    case (Some j)
    note j = position_Some [OF Some]
    have "rposition (\<lambda>b. b \<noteq> 32) ?t = Some (length ?t - 1 - j)" using Some by (simp only: rposition_def option.map)
    moreover have "length ?t - 1 - j + 1 = length ?t - j" using j by (simp only: length_rev) linarith
    moreover have "take (length ?t - j) ?t = rev (drop j (rev ?t))" by (simp only: drop_rev rev_rev_ident)
    ultimately have "trim_ascii s = rev (drop j (rev ?t))"
      using \<open>position (\<lambda>b. b \<noteq> 32) s = Some i\<close> by (simp add: trim_ascii_def Let_def)
    then show ?thesis using j by (simp add: strip_def t)
  qed
qed

lemma split_first_word_eq:
  "split_first_word s = (takeWhile (\<lambda>b. b \<noteq> 32) s, tl (dropWhile (\<lambda>b. b \<noteq> 32) s))"
proof (cases "position (\<lambda>b. b = 32) s")
  case None
  then have "\<forall>b \<in> set s. b \<noteq> 32" by (simp add: position_None)
  then have "takeWhile (\<lambda>b. b \<noteq> 32) s = s" "dropWhile (\<lambda>b. b \<noteq> 32) s = []" by simp_all
  then show ?thesis using None
    by (simp add: split_first_word_def del: dropWhile_eq_Nil_conv takeWhile_eq_all_conv)
next
  case (Some i)
  have "drop (i + 1) s = tl (drop i s)" by (simp add: drop_Suc tl_drop)
  then show ?thesis using Some position_Some [OF Some] by (simp add: split_first_word_def)
qed

section \<open>Numbers\<close>

definition is_digit :: "u8 \<Rightarrow> bool" where
  "is_digit b \<longleftrightarrow> 48 \<le> b \<and> b \<le> 57"

abbreviation dec_step :: "nat \<Rightarrow> u8 \<Rightarrow> nat" where
  "dec_step a b \<equiv> a * 10 + unat (b - 48)"

lemma dec_fold_ge: "a \<le> foldl dec_step a bs"
proof (induction bs arbitrary: a)
  case (Cons b bs)
  have "a \<le> dec_step a b" by simp
  also have "\<dots> \<le> foldl dec_step (dec_step a b) bs" by (rule Cons)
  finally show ?case by simp
qed simp

lemma decimal_loop_eq:
  "decimal_loop v bs = (if list_all is_digit bs \<and> foldl dec_step (unat v) bs < 2 ^ 32
     then Some (of_nat (foldl dec_step (unat v) bs)) else None)"
proof (induction bs arbitrary: v)
  case Nil
  have "unat v < 2 ^ 32" using unsigned_less [of v, where ?'a = nat] by simp
  then show ?case by simp
next
  case (Cons b bs)
  let ?d = "unat (b - 48)"
  show ?case
  proof (cases "is_digit b")
    case False
    then have "\<not> (48 \<le> b \<and> b \<le> 57)" by (simp add: is_digit_def)
    then show ?thesis using False by (simp only: decimal_loop.simps list_all_iff list.set ball_simps) simp
  next
    case True
    have c: "unat (ucast (b - 48) :: u32) = ?d" using unsigned_less [of "b - 48", where ?'a = nat]
      by (simp add: unsigned_ucast_eq take_bit_nat_eq_self)
    show ?thesis
    proof (cases "unat v * 10 + ?d < 2 ^ 32")
      case fits: True
      then have m: "unat (v * 10) = unat v * 10" using unat_mult_lem [of v 10] by simp
      then have a: "unat (v * 10 + ucast (b - 48) :: u32) = unat v * 10 + ?d"
        using fits unat_add_lem [of "v * 10" "ucast (b - 48) :: u32"] by (simp add: c)
      have "Option.bind (checked_mul v 10) (\<lambda>v. checked_add v (ucast (b - 48))) = Some (v * 10 + ucast (b - 48))"
        using fits by (simp add: checked_mul_def checked_add_def m c)
      then show ?thesis using True Cons.IH [of "v * 10 + ucast (b - 48)"] by (simp add: is_digit_def a)
    next
      case big: False
      have "Option.bind (checked_mul v 10) (\<lambda>v. checked_add v (ucast (b - 48))) = None"
      proof (cases "unat v * 10 < 2 ^ 32")
        case True
        then have "unat (v * 10) = unat v * 10" using unat_mult_lem [of v 10] by simp
        then show ?thesis using True big by (simp add: checked_mul_def checked_add_def c)
      qed (simp add: checked_mul_def)
      moreover have "\<not> foldl dec_step (unat v * 10 + ?d) bs < 2 ^ 32"
        using big dec_fold_ge [of "unat v * 10 + ?d" bs] by linarith
      ultimately show ?thesis using True by (simp add: is_digit_def)
    qed
  qed
qed

lemma parse_decimal_eq:
  "parse_decimal s = (if s \<noteq> [] \<and> list_all is_digit s \<and> dec_value s < 2 ^ 32 then Some (of_nat (dec_value s)) else None)"
  by (simp add: parse_decimal_def decimal_loop_eq dec_value_def)


section \<open>Hexadecimal numbers\<close>

text \<open>The reference: the digits of either case as they are written, and a digit's value as its place among them.\<close>

definition lower_digits :: "u8 list" where
  "lower_digits = map of_char ''0123456789abcdef''"

definition upper_digits :: "u8 list" where
  "upper_digits = map of_char ''0123456789ABCDEF''"

definition is_hex :: "u8 \<Rightarrow> bool" where
  "is_hex b \<longleftrightarrow> b \<in> set lower_digits \<or> b \<in> set upper_digits"

definition digit_value :: "u8 \<Rightarrow> nat" where
  "digit_value b = the (position (\<lambda>c. c = b) (if b \<in> set lower_digits then lower_digits else upper_digits))"

abbreviation hex_step :: "nat \<Rightarrow> u8 \<Rightarrow> nat" where
  "hex_step a b \<equiv> a * 16 + digit_value b"

definition hex_value :: "u8 list \<Rightarrow> nat" where
  "hex_value bs = foldl hex_step 0 bs"

lemma hex_nibble_digits:
  "\<forall>b \<in> set (lower_digits @ upper_digits). hex_nibble b = Some (of_nat (digit_value b)) \<and> digit_value b < 16"
  by (simp add: lower_digits_def upper_digits_def digit_value_def hex_nibble_def)

lemma hex_nibble_ranges:
  "\<forall>n \<in> set ([48..<58] @ [97..<103] @ [65..<71]). (of_nat n :: u8) \<in> set (lower_digits @ upper_digits)"
  by (simp add: upt_rec lower_digits_def upper_digits_def)

lemma hex_nibble_eq: "hex_nibble b = (if is_hex b then Some (of_nat (digit_value b)) else None)"
proof (cases "is_hex b")
  case True
  then show ?thesis using hex_nibble_digits by (simp add: is_hex_def)
next
  case False
  have "hex_nibble b = None"
  proof (rule ccontr)
    assume "hex_nibble b \<noteq> None"
    then have "unat b \<in> set ([48..<58] @ [97..<103] @ [65..<71])"
      by (simp only: set_append set_upt Un_iff atLeastLessThan_iff) (auto simp: hex_nibble_def word_le_nat_alt split: if_splits)
    then have "(of_nat (unat b) :: u8) \<in> set (lower_digits @ upper_digits)" using hex_nibble_ranges by blast
    then show False using False by (simp add: is_hex_def)
  qed
  then show ?thesis using False by simp
qed

lemma is_hex_digit: "is_hex b \<Longrightarrow> digit_value b < 16"
  using hex_nibble_digits by (auto simp: is_hex_def)

lemma hex_nibble_Some: "hex_nibble b = Some n \<longleftrightarrow> is_hex b \<and> unat n = digit_value b"
proof
  assume "hex_nibble b = Some n"
  then have b: "is_hex b" "n = of_nat (digit_value b)" by (simp_all add: hex_nibble_eq split: if_splits)
  then show "is_hex b \<and> unat n = digit_value b"
    using is_hex_digit [OF b(1)] by (simp add: unat_of_nat take_bit_nat_eq_self)
next
  assume b: "is_hex b \<and> unat n = digit_value b"
  then have "of_nat (unat n) = (of_nat (digit_value b) :: u8)" by simp
  then have "n = of_nat (digit_value b)" by simp
  then show "hex_nibble b = Some n" using b by (simp add: hex_nibble_eq)
qed

lemma hex_nibble_less: "hex_nibble b = Some n \<Longrightarrow> unat n < 16"
  using is_hex_digit by (simp add: hex_nibble_Some)

lemma push_or_nat:
  fixes y :: nat
  assumes "y < 16"
  shows "push_bit 4 x OR y = x * 16 + y"
proof -
  have y: "y = take_bit 4 y" using assms by (simp add: take_bit_nat_eq_self)
  have "push_bit 4 x AND take_bit 4 y = 0" by (rule bit_eqI) (simp add: bit_simps)
  then have "push_bit 4 x OR y = push_bit 4 x + y" using y by (simp add: disjunctive_add_eq_or)
  then show ?thesis by (simp add: push_bit_eq_mult)
qed

lemma shift_or_eq:
  fixes a :: u32 and n :: u8
  assumes "unat n < 16" and "unat a * 16 < 2 ^ 32"
  shows "unat (push_bit 4 a OR ucast n) = unat a * 16 + unat n"
proof -
  have "unat (ucast n :: u32) = unat n"
    using unsigned_less [of n, where ?'a = nat] by (simp add: unsigned_ucast_eq take_bit_nat_eq_self)
  moreover have "unat (push_bit 4 a) = push_bit 4 (unat a)"
    using assms(2) unat_mult_lem [of a 16] by (simp add: push_bit_eq_mult)
  ultimately show ?thesis by (simp add: unsigned_or_eq push_or_nat [OF assms(1)])
qed

lemma hex_loop_eq:
  "unat v < 16 ^ m \<Longrightarrow> m + length bs \<le> 8 \<Longrightarrow>
     hex_loop v bs = (if list_all is_hex bs then Some (of_nat (foldl hex_step (unat v) bs)) else None)"
proof (induction bs arbitrary: v m)
  case (Cons b bs)
  show ?case
  proof (cases "hex_nibble b")
    case (Some n)
    have "(16::nat) ^ m \<le> 16 ^ 7" using Cons.prems(2) by (intro power_increasing) simp_all
    then have "unat v * 16 < 2 ^ 32" using Cons.prems(1) by simp
    note v = shift_or_eq [OF hex_nibble_less [OF Some] this]
    have "unat v * 16 + unat n < 16 ^ Suc m" using Cons.prems(1) hex_nibble_less [OF Some] by simp
    then have "hex_loop (push_bit 4 v OR ucast n) bs =
        (if list_all is_hex bs then Some (of_nat (foldl hex_step (unat v * 16 + unat n) bs)) else None)"
      using Cons.IH [of "push_bit 4 v OR ucast n" "Suc m"] Cons.prems(2) by (simp add: v)
    moreover have "is_hex b" "digit_value b = unat n" using Some by (simp_all add: hex_nibble_Some)
    ultimately show ?thesis using Some by simp
  next
    case None
    then have "\<not> is_hex b" by (simp add: hex_nibble_eq split: if_splits)
    then show ?thesis using None by simp
  qed
qed simp

lemma hex_value_less: "list_all is_hex bs \<Longrightarrow> a < 16 ^ m \<Longrightarrow> foldl hex_step a bs < 16 ^ (m + length bs)"
proof (induction bs arbitrary: a m)
  case (Cons b bs)
  then have "a * 16 + digit_value b < 16 ^ Suc m" using is_hex_digit [of b] by simp
  then show ?case using Cons.IH [of "a * 16 + digit_value b" "Suc m"] Cons.prems(1) by simp
qed simp

lemma parse_hex6_eq:
  "parse_hex6 s = (if s \<noteq> [] \<and> length s \<le> 6 \<and> list_all is_hex s then Some (of_nat (hex_value s)) else None)"
  using hex_loop_eq [of 0 0 s] by (auto simp: parse_hex6_def hex_value_def)

section \<open>The printers inverted\<close>

text \<open>The last \<open>k\<close> hexadecimal digits of a number.\<close>

fun hex_tail :: "nat \<Rightarrow> u64 \<Rightarrow> u8 list" where
  "hex_tail 0 v = []"
| "hex_tail (Suc k) v = hex_tail k (drop_bit 4 v) @ [hex_digit (ucast (v AND 0xf))]"





lemma hex_tail_take: "hex_tail (k + n) v = hex_tail k (drop_bit (4 * n) v) @ hex_tail n v"
  by (induction n arbitrary: v) (simp_all add: algebra_simps)

section \<open>Properties\<close>

lemma parse_hex6_bounds:
  "case parse_hex6 s of None \<Rightarrow> True | Some v \<Rightarrow> unat v = hex_value s \<and> unat v < 16 ^ length s \<and> unat v < 2 ^ 24"
proof (cases "s \<noteq> [] \<and> length s \<le> 6 \<and> list_all is_hex s")
  case True
  have "hex_value s < 16 ^ length s" using hex_value_less [of s 0 0] True by (simp add: hex_value_def)
  moreover have "(16::nat) ^ length s \<le> 16 ^ 6" using True by (intro power_increasing) simp_all
  ultimately have "hex_value s < 16 ^ length s" "hex_value s < 2 ^ 24" by simp_all
  moreover from this(2) have "unat (of_nat (hex_value s) :: u32) = hex_value s"
    by (simp add: unat_of_nat take_bit_nat_eq_self)
  ultimately show ?thesis using True by (simp add: parse_hex6_eq)
next
  case False
  then have "parse_hex6 s = None" unfolding parse_hex6_eq by (simp only: if_False)
  then show ?thesis using False by (simp only: if_False option.case simp_thms)
qed

text \<open>C37: The parsers are total and never wrap. The decimal parser accepts exactly the non-empty strings of digits whose
  value fits 32 bits and returns that value, refusing an argument that overflows; the colour parser accepts exactly
  one to six of the digits 0 to 9, a to f and A to F and returns their value, which is below 16 to the number of digits,
  so a colour never exceeds 24 bits. A digit's value is its place in the sequence 0123456789abcdef or 0123456789ABCDEF.\<close>

theorem parsers_bounded:
  "parse_decimal s = (if s \<noteq> [] \<and> list_all is_digit s \<and> dec_value s < 2 ^ 32 then Some (of_nat (dec_value s)) else None)
   \<and> parse_hex6 s = (if s \<noteq> [] \<and> length s \<le> 6 \<and> list_all is_hex s then Some (of_nat (hex_value s)) else None)
   \<and> (case parse_hex6 s of None \<Rightarrow> True | Some v \<Rightarrow> unat v = hex_value s \<and> unat v < 16 ^ length s \<and> unat v < 2 ^ 24)"
  using parse_decimal_eq parse_hex6_eq parse_hex6_bounds by blast


end
