(* ===== verification/Shell.thy ===== *)
theory Shell
  imports Interrupts Parsing
begin

text \<open>
  The command shell (\<open>shell/simple_shell.rs\<close>): line editing, word splitting, number parsing, the
  commands, and the loop that feeds it with keys. \<open>outcome\<close> lists how a command can end; after
  anything but \<open>Done\<close> the shell's code does not go on. What other tasks do while the shell sleeps is a
  parameter (\<open>env\<close>).
\<close>

section \<open>State\<close>

definition CMD_BUF_SIZE :: nat where "CMD_BUF_SIZE = 256"
definition PROMPT :: string where "PROMPT = ''kernel> ''"

record shell =
  sbuf :: "u8 list"
  slen :: nat

definition shell_new :: shell where
  "shell_new = \<lparr>sbuf = replicate CMD_BUF_SIZE 0, slen = 0\<rparr>"

text \<open>
  \<open>Raised v\<close>: exception \<open>v\<close> is delivered; \<open>Rebooted\<close>: the processor has reset; \<open>Endless\<close>: recursion without
  limit; \<open>Entered a r\<close>: a \<open>syscall\<close> instruction has gone to \<open>a\<close> with the registers \<open>r\<close>.
\<close>

record syscall_regs =
  sys_rax :: u64
  sys_args :: "u64 list"

datatype outcome = Done | Raised nat | Rebooted | Endless | Entered u64 syscall_regs

section \<open>Commands\<close>

fun run_all :: "('s \<Rightarrow> 's res) list \<Rightarrow> 's \<Rightarrow> 's res" where
  "run_all [] s = Inr s"
| "run_all (f # fs) s = andThen (f s) (run_all fs)"

definition shell_print_usize :: "profile \<Rightarrow> nat \<Rightarrow> 'a tty \<Rightarrow> 'a tty res" where
  "shell_print_usize pr v = put_dec pr 20 (term_putb pr) v"

definition finish :: "'a tty res \<Rightarrow> (outcome \<times> 'a tty) res" where
  "finish r = andThen r (\<lambda>ts. Inr (Done, ts))"

definition help_text :: "string list" where
  "help_text =
     [''Available commands:\<newline>'',
      ''  help              - show this help\<newline>'',
      ''  cls               - clear the screen\<newline>'',
      ''  color <fg> <bg>   - set colors (hex RRGGBB)\<newline>'',
      ''  echo <text>       - print text\<newline>'',
      ''  reboot            - reboot the machine\<newline>'',
      ''  meminfo           - show PMM free/total pages\<newline>'',
      ''  memtest           - run heap alloc/free test\<newline>'',
      ''  heap              - dump heap block list\<newline>'',
      ''  pgfault           - trigger intentional page fault\<newline>'',
      ''  divzero           - trigger divide-by-zero exception\<newline>'',
      ''  intopcode         - trigger invalid opcode exception\<newline>'',
      ''  breakpoint        - trigger int3 (returns normally)\<newline>'',
      ''  dfault            - trigger a double fault (stack overflow)\<newline>'',
      ''  uptime            - show ticks/seconds since boot\<newline>'',
      ''  sleep <secs>      - sleep N seconds using the PIT\<newline>'',
      ''  synwrite <text>   - write text via the int 0x80 syscall path\<newline>'']"

definition cmd_echo :: "profile \<Rightarrow> u8 list \<Rightarrow> 'a tty \<Rightarrow> 'a tty res" where
  "cmd_echo pr rest ts = andThen (emit (term_putb pr) (trim_ascii rest) ts) (term_putc pr 10)"

definition cmd_color :: "profile \<Rightarrow> u8 list \<Rightarrow> 'a tty \<Rightarrow> 'a tty res" where
  "cmd_color pr rest ts =
     (let (fg_s, rest2) = split_first_word (trim_ascii rest);
          (bg_s, _) = split_first_word (trim_ascii rest2) in
      case (parse_hex6 fg_s, parse_hex6 bg_s) of
        (Some fg, Some bg) \<Rightarrow> term_print pr ''Color updated.\<newline>'' (set_color fg bg ts)
      | _ \<Rightarrow> term_print pr ''Usage: color RRGGBB RRGGBB\<newline>'' ts)"

type_synonym 'a console = "terminal \<times> 'a sys_state_scheme"

text \<open>\<open>lidt\<close> of ten zero bytes, \<open>int3\<close>.\<close>

definition cmd_reboot :: "profile \<Rightarrow> 'a console \<Rightarrow> (outcome \<times> 'a console) res" where
  "cmd_reboot pr ts =
     andThen (term_print pr ''Rebooting...\<newline>'' ts) (\<lambda>(t, s).
     let s = s\<lparr>idtr := (0, 0)\<rparr> in
     Inr (if idt_has 3 s then Raised 3 else Rebooted, (t, s)))"

definition cmd_meminfo :: "profile \<Rightarrow> 'a console \<Rightarrow> 'a console res" where
  "cmd_meminfo pr ts =
     (let free = get_free_page_count (snd ts); total = get_total_page_count (snd ts) in
      andThen (usub pr total free) (\<lambda>used.
      let kib = (\<lambda>n ts. andThen (umul pr n 4) (\<lambda>v. shell_print_usize pr v ts)) in
      run_all
        [term_print pr ''PMM status:\<newline>'',
         term_print pr ''  Free  pages : '', shell_print_usize pr free, term_print pr '' ('', kib free, term_print pr '' KiB)\<newline>'',
         term_print pr ''  Used  pages : '', shell_print_usize pr used, term_print pr '' ('', kib used, term_print pr '' KiB)\<newline>'',
         term_print pr ''  Total pages : '', shell_print_usize pr total, term_print pr '' ('', kib total, term_print pr '' KiB)\<newline>'']
        ts))"

text \<open>\<open>kmalloc_dump\<close>; the list of headers may be cyclic, \<open>None\<close> is a loop that never ends.\<close>

definition print_hex_usize :: "profile \<Rightarrow> nat \<Rightarrow> 'a tty \<Rightarrow> 'a tty res" where
  "print_hex_usize pr v ts = andThen (term_print pr ''0x'' ts) (put_hex64 (term_putb pr) (of_nat v))"

definition dump_block :: "profile \<Rightarrow> nat \<Rightarrow> nat \<Rightarrow> block_header \<Rightarrow> 'a console \<Rightarrow> 'a console res" where
  "dump_block pr idx cur hdr =
     (let status = (if hused hdr \<noteq> 0 then ''USED'' else ''free'') in
      run_all
        [term_print pr ''['', term_print_usize pr idx, term_print pr '' ] addr='', print_hex_usize pr cur,
         term_print pr '' size='', term_print_usize pr (hsize hdr), term_print pr '' '', term_print pr status,
         term_print pr ''\<newline>''])"

partial_function (option) dump_blocks :: "profile \<Rightarrow> nat \<Rightarrow> nat \<Rightarrow> 'a console \<Rightarrow> 'a console res option" where
  "dump_blocks pr cur idx ts =
     (if cur = 0 then Some (Inr ts)
      else case read_hdr cur (snd ts) of
        Inl e \<Rightarrow> Some (Inl e)
      | Inr hdr \<Rightarrow>
          (case dump_block pr idx cur hdr ts of
             Inl e \<Rightarrow> Some (Inl e)
           | Inr ts \<Rightarrow>
               (case uadd pr idx 1 of
                  Inl e \<Rightarrow> Some (Inl e)
                | Inr idx \<Rightarrow> dump_blocks pr (hnext hdr) idx ts)))"

definition kmalloc_dump :: "profile \<Rightarrow> 'a console \<Rightarrow> 'a console res" where
  "kmalloc_dump pr ts =
     andThen (term_print pr ''\<newline>---- Heap Dump ----\<newline>'' ts) (\<lambda>ts.
     andThen (or_hang (dump_blocks pr (heap_head (snd ts)) 0 ts)) (term_print pr ''----- end -----\<newline>''))"

text \<open>
  \<open>write_bytes\<close> through a pointer into the heap: the bytes it writes over are no longer part of a header.
\<close>

definition write_bytes :: "nat \<Rightarrow> u8 \<Rightarrow> nat \<Rightarrow> 'a sys_state_scheme \<Rightarrow> 'a sys_state_scheme res" where
  "write_bytes p v n s =
     (if p = 0 then Inl (WildAccess 0)
      else Inr (s\<lparr>bytes := (\<lambda>a. if p \<le> a \<and> a < p + n then Some v else bytes s a),
        headers := (\<lambda>x. if x < p + n \<and> p < x + HEADER_SIZE then None else headers s x)\<rparr>))"

fun check_bytes :: "nat list \<Rightarrow> nat \<Rightarrow> u8 \<Rightarrow> bool \<Rightarrow> 'a sys_state_scheme \<Rightarrow> bool res" where
  "check_bytes [] p v ok s = Inr ok"
| "check_bytes (i # is) p v ok s =
     andThen (load_byte (p + i) s) (\<lambda>b. check_bytes is p v (if b \<noteq> v then False else ok) s)"

definition malloc :: "profile \<Rightarrow> nat \<Rightarrow> 'a console \<Rightarrow> (nat \<times> 'a console) res" where
  "malloc pr n = (\<lambda>(t, s). andThen (or_hang (kmalloc pr n s)) (\<lambda>(p, s). Inr (p, (t, s))))"

definition free_ptr :: "profile \<Rightarrow> nat \<Rightarrow> 'a console \<Rightarrow> 'a console res" where
  "free_ptr pr p = (\<lambda>(t, s). andThen (kfree pr p s) (\<lambda>s. Inr (t, s)))"

definition cmd_memtest :: "profile \<Rightarrow> 'a console \<Rightarrow> 'a console res" where
  "cmd_memtest pr ts =
     andThen (term_print pr ''Running heap allocator test...\<newline>'' ts) (\<lambda>ts.
     andThen (malloc pr 64 ts) (\<lambda>(a, ts). andThen (malloc pr 128 ts) (\<lambda>(b, ts).
     andThen (malloc pr 1024 ts) (\<lambda>(c, ts). andThen (malloc pr 37 ts) (\<lambda>(d, (t, s)).
     andThen (write_bytes a 0xAA 64 s) (\<lambda>s. andThen (write_bytes b 0xBB 128 s) (\<lambda>s.
     andThen (write_bytes c 0xCC 1024 s) (\<lambda>s. andThen (write_bytes d 0xDD 37 s) (\<lambda>s.
     andThen (check_bytes [0..<64] a 0xAA True s) (\<lambda>ok. andThen (check_bytes [0..<128] b 0xBB ok s) (\<lambda>ok.
     andThen (check_bytes [0..<1024] c 0xCC ok s) (\<lambda>ok. andThen (check_bytes [0..<37] d 0xDD ok s) (\<lambda>ok.
     andThen (term_print pr (if ok then ''  Pattern check : PASS\<newline>'' else ''  Pattern check : FAIL\<newline>'') (t, s)) (\<lambda>ts.
     andThen (free_ptr pr b ts) (\<lambda>ts. andThen (free_ptr pr c ts) (\<lambda>ts.
     andThen (malloc pr 1152 ts) (\<lambda>(e, ts).
     andThen (term_print pr (if e \<noteq> 0 then ''  Coalesce test : PASS\<newline>'' else ''  Coalesce test : FAIL\<newline>'') ts) (\<lambda>ts.
     andThen (free_ptr pr a ts) (\<lambda>ts. andThen (free_ptr pr d ts) (\<lambda>ts. andThen (free_ptr pr e ts) (\<lambda>ts.
     andThen (term_print pr ''Test complete. Heap dump follows:\<newline>'' ts) (kmalloc_dump pr))))))))))))))))))))))"

text \<open>The read of 0xdeadbeef is a page fault unless the processor finds a page there.\<close>

definition cmd_pgfault :: "profile \<Rightarrow> 'a console \<Rightarrow> (outcome \<times> 'a console) res" where
  "cmd_pgfault pr ts =
     andThen (term_print pr ''Triggering page fault at 0xdeadbeef...\<newline>'' ts) (\<lambda>(t, s).
       if mmu_maps s 0xdeadbeef then Inr (Done, (t, s))
       else Inr (Raised 14, (t, s\<lparr>cr2 := 0xdeadbeef\<rparr>)))"

definition cmd_divzero :: "profile \<Rightarrow> 'a console \<Rightarrow> (outcome \<times> 'a console) res" where
  "cmd_divzero pr ts =
     andThen (term_print pr ''Triggering divide-by-zero...\<newline>'' ts) (\<lambda>ts.
     andThen (udiv 10 0) (\<lambda>_. Inr (Done, ts)))"

definition cmd_intopcode :: "profile \<Rightarrow> 'a console \<Rightarrow> (outcome \<times> 'a console) res" where
  "cmd_intopcode pr ts =
     andThen (term_print pr ''Triggering invalid opcode (ud2)...\<newline>'' ts) (\<lambda>ts. Inr (Raised 6, ts))"

text \<open>The handler of vector 3 does not return, so the message behind \<open>int3\<close> is never printed.\<close>

definition cmd_breakpoint :: "profile \<Rightarrow> 'a console \<Rightarrow> (outcome \<times> 'a console) res" where
  "cmd_breakpoint pr ts =
     andThen (term_print pr ''Triggering breakpoint (int3)...\<newline>'' ts) (\<lambda>ts. Inr (Raised 3, ts))"

definition cmd_dfault :: "profile \<Rightarrow> 'a console \<Rightarrow> (outcome \<times> 'a console) res" where
  "cmd_dfault pr ts =
     andThen (term_print pr ''Triggering double fault (recursive stack overflow)...\<newline>'' ts) (\<lambda>ts. Inr (Endless, ts))"

definition cmd_uptime :: "profile \<Rightarrow> 'a console \<Rightarrow> 'a console res" where
  "cmd_uptime pr ts =
     (let tks = ticks (snd ts); secs = tks div ucast TICKS_PER_SECOND in
      run_all
        [term_print pr ''Uptime: '', shell_print_usize pr (unat secs), term_print pr ''s ('',
         shell_print_usize pr (unat tks), term_print pr '' ticks)\<newline>''] ts)"

text \<open>
  What the source does not determine: what happens until the scheduler comes back to the shell's task
  (\<open>later\<close>), and where a piece of the line lies in memory (\<open>as_ptr\<close>).
\<close>

record 'a env =
  later :: "(nat \<times> nat) option \<Rightarrow> 'a sys_state_scheme \<Rightarrow> 'a sys_state_scheme"
  as_ptr :: "u8 list \<Rightarrow> u64"

definition cmd_sleep :: "profile \<Rightarrow> 'a env \<Rightarrow> u8 list \<Rightarrow> 'a console \<Rightarrow> 'a console res" where
  "cmd_sleep pr env rest ts =
     (let (secs_s, _) = split_first_word (trim_ascii rest);
          secs = (case parse_decimal secs_s of Some n \<Rightarrow> ucast n | None \<Rightarrow> 1) :: u64 in
      andThen (run_all [term_print pr ''Sleeping '', shell_print_usize pr (unat secs), term_print pr ''s...\<newline>''] ts) (\<lambda>(t, s).
      andThen (wmul pr secs 1000) (\<lambda>ms.
      andThen (sleep_ms pr ms s) (\<lambda>(sw, s). term_print pr ''Awake.\<newline>'' (t, later env sw s)))))"

text \<open>
  The \<open>syscall\<close> instruction: undefined opcode unless EFER.SCE is set, else it goes to the address in LSTAR
  with the registers it was given.
\<close>

definition EFER :: u32 where "EFER = 0xC0000080"
definition LSTAR :: u32 where "LSTAR = 0xC0000082"

definition syscall_insn :: "syscall_regs \<Rightarrow> 'a sys_state_scheme \<Rightarrow> outcome" where
  "syscall_insn r s = (if bit (msrs s EFER) 0 then Entered (msrs s LSTAR) r else Raised 6)"

definition sys_write_wrapper :: "u64 \<Rightarrow> u64 \<Rightarrow> u64 \<Rightarrow> 'a sys_state_scheme \<Rightarrow> outcome" where
  "sys_write_wrapper fd buf len s = syscall_insn \<lparr>sys_rax = SYS_WRITE, sys_args = [fd, buf, len]\<rparr> s"

definition sys_read_wrapper :: "u64 \<Rightarrow> u64 \<Rightarrow> u64 \<Rightarrow> 'a sys_state_scheme \<Rightarrow> outcome" where
  "sys_read_wrapper fd buf len s = syscall_insn \<lparr>sys_rax = SYS_READ, sys_args = [fd, buf, len]\<rparr> s"

definition sys_reboot_wrapper :: "'a sys_state_scheme \<Rightarrow> outcome" where
  "sys_reboot_wrapper s = syscall_insn \<lparr>sys_rax = SYS_REBOOT, sys_args = []\<rparr> s"

definition cmd_synwrite :: "profile \<Rightarrow> 'a env \<Rightarrow> u8 list \<Rightarrow> 'a console \<Rightarrow> (outcome \<times> 'a console) res" where
  "cmd_synwrite pr env rest ts =
     (let text = trim_ascii rest in
      andThen (term_print pr ''via syscall: '' ts) (\<lambda>(t, s).
        Inr (sys_write_wrapper 1 (as_ptr env text) (of_nat (length text)) s, (t, s))))"

definition cmd_unknown :: "profile \<Rightarrow> u8 list \<Rightarrow> 'a console \<Rightarrow> 'a console res" where
  "cmd_unknown pr verb =
     run_all [term_print pr ''Unknown command: '', emit (term_putb pr) verb,
       term_print pr (''\<newline>Type '' @ [CHR 0x27] @ ''help'' @ [CHR 0x27] @ '' for a list of commands.\<newline>'')]"

section \<open>The shell\<close>

definition execute ::
    "profile \<Rightarrow> 'a env \<Rightarrow> shell \<Rightarrow> 'a console \<Rightarrow> (outcome \<times> 'a console) res" where
  "execute pr env sh ts =
     (if length (sbuf sh) < slen sh then Inl OutOfBounds
      else
        let cmd_str = trim_ascii (take (slen sh) (sbuf sh)) in
        if cmd_str = [] then Inr (Done, ts)
        else
          let (verb, rest) = split_first_word cmd_str in
          if verb = asc ''help'' then finish (run_all (map (term_print pr) help_text) ts)
          else if verb = asc ''cls'' then finish (clear_term pr ts)
          else if verb = asc ''echo'' then finish (cmd_echo pr rest ts)
          else if verb = asc ''color'' then finish (cmd_color pr rest ts)
          else if verb = asc ''reboot'' then cmd_reboot pr ts
          else if verb = asc ''meminfo'' then finish (cmd_meminfo pr ts)
          else if verb = asc ''memtest'' then finish (cmd_memtest pr ts)
          else if verb = asc ''heap'' then finish (kmalloc_dump pr ts)
          else if verb = asc ''pgfault'' then cmd_pgfault pr ts
          else if verb = asc ''divzero'' then cmd_divzero pr ts
          else if verb = asc ''intopcode'' then cmd_intopcode pr ts
          else if verb = asc ''breakpoint'' then cmd_breakpoint pr ts
          else if verb = asc ''dfault'' then cmd_dfault pr ts
          else if verb = asc ''uptime'' then finish (cmd_uptime pr ts)
          else if verb = asc ''sleep'' then finish (cmd_sleep pr env rest ts)
          else if verb = asc ''synwrite'' then cmd_synwrite pr env rest ts
          else finish (cmd_unknown pr verb ts))"

definition show_prompt :: "profile \<Rightarrow> 'a tty \<Rightarrow> 'a tty res" where
  "show_prompt pr = term_print pr PROMPT"

definition handle_key ::
    "profile \<Rightarrow> 'a env \<Rightarrow> u8 \<Rightarrow> shell \<Rightarrow> 'a console \<Rightarrow> (outcome \<times> shell \<times> 'a console) res" where
  "handle_key pr env key sh ts =
     (if key = 10 then
        andThen (term_putc pr 10 ts) (\<lambda>ts.
        andThen (execute pr env sh ts) (\<lambda>(out, ts).
          if out \<noteq> Done then Inr (out, sh, ts)
          else andThen (show_prompt pr ts) (\<lambda>ts. Inr (Done, sh\<lparr>slen := 0\<rparr>, ts))))
      else if key = 8 then
        (if 0 < slen sh then
           andThen (backspace pr ts) (\<lambda>ts. Inr (Done, sh\<lparr>slen := slen sh - 1\<rparr>, ts))
         else Inr (Done, sh, ts))
      else if 32 \<le> key \<and> key < 127 then
        (if slen sh < CMD_BUF_SIZE - 1 then
           (if length (sbuf sh) \<le> slen sh then Inl OutOfBounds
            else andThen (term_putb pr key ts) (\<lambda>ts.
              Inr (Done, sh\<lparr>sbuf := (sbuf sh)[slen sh := key], slen := slen sh + 1\<rparr>, ts)))
         else Inr (Done, sh, ts))
      else Inr (Done, sh, ts))"

text \<open>\<open>while let Some(key) = global_pop()\<close>, and one round of the shell's loop.\<close>

partial_function (option) drain_keys ::
    "profile \<Rightarrow> 'a env \<Rightarrow> shell \<Rightarrow> 'a console \<Rightarrow> (outcome \<times> shell \<times> 'a console) res option" where
  "drain_keys pr env sh ts =
     (case global_pop (snd ts) of
        Inl e \<Rightarrow> Some (Inl e)
      | Inr (None, s) \<Rightarrow> Some (Inr (Done, sh, (fst ts, s)))
      | Inr (Some key, s) \<Rightarrow>
          (case handle_key pr env key sh (fst ts, s) of
             Inl e \<Rightarrow> Some (Inl e)
           | Inr (out, sh, ts) \<Rightarrow>
               if out = Done then drain_keys pr env sh ts else Some (Inr (out, sh, ts))))"

definition shell_round ::
    "profile \<Rightarrow> 'a env \<Rightarrow> shell \<Rightarrow> 'a console \<Rightarrow> (outcome \<times> shell \<times> 'a console) res" where
  "shell_round pr env sh ts =
     andThen (or_hang (drain_keys pr env sh ts)) (\<lambda>(out, sh, (t, s)).
       if out \<noteq> Done then Inr (out, sh, (t, s))
       else andThen (yield_cpu pr s) (\<lambda>(sw, s). Inr (Done, sh, (t, later env sw s))))"

text \<open>\<open>run_shell\<close> up to its loop, which repeats \<open>shell_round\<close>.\<close>

definition shell_start :: "profile \<Rightarrow> 'a sys_state_scheme \<Rightarrow> (shell \<times> 'a console) res" where
  "shell_start pr s =
     andThen (serial_print ''[Shell] started'' s) (\<lambda>s.
     andThen (terminal_new pr s) (\<lambda>(t, s).
       case t of
         None \<Rightarrow> Inl (Panic ''framebuffer must exist'')
       | Some t \<Rightarrow>
           andThen (term_print pr (''Kernel shell ready. Type '' @ [CHR 0x27] @ ''help'' @ [CHR 0x27] @ '' for commands.\<newline>\<newline>'') (t, s)) (\<lambda>ts.
           andThen (show_prompt pr ts) (\<lambda>ts. Inr (shell_new, ts)))))"

section \<open>Commands as text\<close>

text \<open>Printing operations are \<open>emit\<close> of a list of bytes; a sequence of them is \<open>emit\<close> of the whole.\<close>

named_theorems emits

lemma run_all_Nil [simp]: "run_all [] = Inr"
  by (rule ext) simp

lemma emit_Nil [simp]: "emit putc [] = Inr"
  by (rule ext) simp

lemma term_print_emit [emits]: "term_print pr str = emit (term_putb pr) (asc str)"
  by (rule ext) (simp add: term_print_def)

lemma show_prompt_emit [emits]: "show_prompt pr = emit (term_putb pr) (asc PROMPT)"
  by (rule ext) (simp add: show_prompt_def emits)

lemma shell_print_usize_emit [emits]: "n < usize_lim \<Longrightarrow> shell_print_usize pr n = emit (term_putb pr) (dec_text n)"
  by (rule ext) (simp add: shell_print_usize_def put_dec_eq)

lemma term_print_usize_emit [emits]: "n < usize_lim \<Longrightarrow> term_print_usize pr n = emit (term_putb pr) (dec_text n)"
  by (rule ext) (simp add: term_print_usize_def put_dec_eq)

lemma put_hex64_emit: "put_hex64 putc v = emit putc (hex_text v)"
  by (rule ext) (rule put_hex64_eq)

lemma print_hex_usize_emit [emits]: "print_hex_usize pr n = emit (term_putb pr) (asc ''0x'' @ hex_text (of_nat n))"
  by (rule ext) (simp only: print_hex_usize_def emits emit_append put_hex64_emit)

lemma newline_emit [emits]: "term_putc pr 10 = emit (term_putb pr) [10]"
  by (rule ext) (simp add: term_putb_def)

lemma run_all_one [emits]: "run_all [f] ts = f ts"
  by (simp add: andThen_Inr_right)

lemma run_all_emit [emits]:
  "run_all (emit putc as # emit putc bs # fs) ts = run_all (emit putc (as @ bs) # fs) ts"
proof -
  have "run_all (emit putc bs # fs) = (\<lambda>x. andThen (emit putc bs x) (run_all fs))" by (rule ext) simp
  then show ?thesis by (simp add: emit_append andThen_assoc)
qed

text \<open>The number of pages with its size in KiB, as \<open>meminfo\<close> prints it.\<close>

definition pages_text :: "nat \<Rightarrow> u8 list" where
  "pages_text n = dec_text n @ asc '' ('' @ dec_text (n * 4) @ asc '' KiB)\<newline>''"

definition meminfo_text :: "'a pmm_state_scheme \<Rightarrow> u8 list" where
  "meminfo_text s = asc ''PMM status:\<newline>'' @ asc ''  Free  pages : '' @ pages_text (card (free_pages s)) @
     asc ''  Used  pages : '' @ pages_text (total_pages s - card (free_pages s)) @
     asc ''  Total pages : '' @ pages_text (total_pages s)"

lemma free_le_total: "pmm_inv s \<Longrightarrow> free_count s = card (free_pages s) \<and> card (free_pages s) \<le> total_pages s"
  using card_mono [of "{..<total_pages s}" "free_pages s"] by (auto simp: pmm_inv_def free_pages_def)

lemma cmd_meminfo_emit:
  assumes "pmm_inv (snd ts)"
  shows "cmd_meminfo pr ts = emit (term_putb pr) (meminfo_text (snd ts)) ts"
proof -
  let ?f = "card (free_pages (snd ts))" and ?n = "total_pages (snd ts)"
  have n: "?n * 4 < usize_lim" using assms by (simp add: pmm_inv_def)
  have f: "?f \<le> ?n" "free_count (snd ts) = ?f" using free_le_total [OF assms] by simp_all
  have kib: "(\<lambda>ts. andThen (umul pr m 4) (\<lambda>v. shell_print_usize pr v ts)) = emit (term_putb pr) (dec_text (m * 4))"
    if "m \<le> ?n" for m
    using that n by (intro ext) (simp add: umul_def emits)
  have usub: "usub pr ?n ?f = Inr (?n - ?f)" using f by (simp add: usub_def)
  show ?thesis
    using n f by (simp only: cmd_meminfo_def get_free_page_count_def get_total_page_count_def Let_def usub kib emits
        meminfo_text_def pages_text_def andThen.simps append_assoc)
qed

definition uptime_text :: "'a sched_state_scheme \<Rightarrow> u8 list" where
  "uptime_text s = asc ''Uptime: '' @ dec_text (unat (ticks s) div 100) @ asc ''s ('' @ dec_text (unat (ticks s)) @ asc '' ticks)\<newline>''"

lemma cmd_uptime_emit: "cmd_uptime pr ts = emit (term_putb pr) (uptime_text (snd ts)) ts"
proof -
  have "unat (ticks (snd ts)) < usize_lim" using unsigned_less [of "ticks (snd ts)", where ?'a = nat] by simp
  moreover from this have "unat (ticks (snd ts)) div 100 < usize_lim" by simp
  ultimately show ?thesis
    by (simp add: cmd_uptime_def Let_def TICKS_PER_SECOND_def unat_div emits uptime_text_def del: run_all.simps)
qed

definition unknown_text :: "u8 list \<Rightarrow> u8 list" where
  "unknown_text verb = asc ''Unknown command: '' @ verb @
     asc (''\<newline>Type '' @ [CHR 0x27] @ ''help'' @ [CHR 0x27] @ '' for a list of commands.\<newline>'')"

lemma cmd_unknown_emit: "cmd_unknown pr verb ts = emit (term_putb pr) (unknown_text verb) ts"
  by (simp only: cmd_unknown_def emits unknown_text_def append_assoc)

lemma cmd_echo_emit: "cmd_echo pr rest ts = emit (term_putb pr) (strip rest @ [10]) ts"
  by (simp only: cmd_echo_def trim_ascii_eq emits emit_append)

lemma term_print_fun: "term_print pr = (\<lambda>l. emit (term_putb pr) (asc l))"
  by (rule ext) (rule term_print_emit)

lemma lines_emit: "run_all (map (\<lambda>l. emit putc (asc l)) ls) = emit putc (asc (concat ls))"
proof (induction ls)
  case (Cons l ls)
  have "asc (concat (l # ls)) = asc l @ asc (concat ls)" by (simp add: asc_def)
  then show ?case by (intro ext) (simp add: Cons emit_append)
qed (simp add: asc_def)

lemma help_emit [emits]: "run_all (map (term_print pr) ls) = emit (term_putb pr) (asc (concat ls))"
  by (simp only: term_print_fun lines_emit)

section \<open>The heap dump\<close>

definition dump_line :: "nat \<Rightarrow> nat \<Rightarrow> nat \<Rightarrow> bool \<Rightarrow> u8 list" where
  "dump_line i a sz u = asc ''['' @ dec_text i @ asc '' ] addr='' @ asc ''0x'' @ hex_text (of_nat a) @ asc '' size='' @
     dec_text sz @ asc '' '' @ asc (if u then ''USED'' else ''free'') @ asc ''\<newline>''"

fun dump_lines :: "nat \<Rightarrow> nat \<Rightarrow> (nat \<times> bool) list \<Rightarrow> u8 list" where
  "dump_lines i a [] = []"
| "dump_lines i a ((sz, u) # bs) = dump_line i a sz u @ dump_lines (i + 1) (a + HEADER_SIZE + sz) bs"

lemma dump_block_emit:
  assumes "i < usize_lim" and "sz < usize_lim"
  shows "dump_block pr i a (hdr_of sz u nx) ts = emit (term_putb pr) (dump_line i a sz u) ts"
  using assms by (cases u)
    (simp_all only: dump_block_def hdr_of_def block_header.simps of_bool_eq if_False if_True Let_def emits dump_line_def
      append_assoc zero_neq_one one_neq_zero not_False_eq_True not_True_eq_False simp_thms)

lemma emit_same:
  assumes "term_ok ts"
  obtains ts' where "emit (term_putb pr) bs ts = Inr ts'" "same_term ts ts'" "term_ok ts'"
proof -
  obtain t s where ts: "ts = (t, s)" by (cases ts)
  obtain ts' v' where "emit (term_putb pr) bs ts = Inr ts'" "same_term ts ts'" "views ts' v'"
    using emit_views [OF views_exists] assms unfolding ts by blast
  then show ?thesis using that by (cases ts'; cases v') (auto simp: views_def)
qed

lemma same_term_headers: "same_term (t, s) (t', s') \<Longrightarrow> headers s' = headers s"
  by (auto simp: same_term_def)

lemma dump_blocks_eq:
  assumes "chain H a e bs" and "0 < a" and "e < usize_lim" and "i + length bs < usize_lim"
    and "term_ok (t, s)" and "headers s = H"
  shows "dump_blocks pr (if bs = [] then 0 else a) i (t, s) = Some (emit (term_putb pr) (dump_lines i a bs) (t, s))"
  using assms
proof (induction bs arbitrary: a i t s)
  case Nil
  then show ?case by (subst dump_blocks.simps) simp
next
  case (Cons b bs)
  obtain sz u where b: "b = (sz, u)" by (cases b)
  let ?a = "a + HEADER_SIZE + sz"
  have h: "H a = Some (hdr_of sz u (if bs = [] then 0 else ?a))" and ch: "chain H ?a e bs" using Cons.prems(1) b by simp_all
  have sz: "sz < usize_lim" and i: "i < usize_lim" "i + 1 < usize_lim" using chain_le [OF ch] Cons.prems(3,4) by simp_all
  obtain t1 s1 where 1: "emit (term_putb pr) (dump_line i a sz u) (t, s) = Inr (t1, s1)" "same_term (t, s) (t1, s1)" "term_ok (t1, s1)"
    using emit_same [OF Cons.prems(5)] by (metis surj_pair)
  have "headers s1 = H" using same_term_headers [OF 1(2)] Cons.prems(6) by simp
  then have "dump_blocks pr (if bs = [] then 0 else ?a) (i + 1) (t1, s1) =
      Some (emit (term_putb pr) (dump_lines (i + 1) ?a bs) (t1, s1))"
    using Cons.IH [OF ch _ Cons.prems(3) _ 1(3)] Cons.prems(2,4) by simp
  moreover have "read_hdr a s = Inr (hdr_of sz u (if bs = [] then 0 else ?a))" using h Cons.prems(6) by (simp add: read_hdr_def)
  moreover have "hnext (hdr_of sz u n) = n" for n by (simp add: hdr_of_def)
  ultimately show ?case using Cons.prems(2) i
    by (subst dump_blocks.simps) (simp add: b dump_block_emit [OF i(1) sz] 1 emit_append uadd_def)
qed

definition heap_text :: "nat \<Rightarrow> (nat \<times> bool) list \<Rightarrow> u8 list" where
  "heap_text a bs = asc ''\<newline>---- Heap Dump ----\<newline>'' @ dump_lines 0 a bs @ asc ''----- end -----\<newline>''"

lemma chain_length: "chain H a e bs \<Longrightarrow> a + length bs \<le> e"
  by (induction bs arbitrary: a) fastforce+

lemma kmalloc_dump_emit:
  assumes "heap_blocks s bs" and "term_ok (t, s)"
  shows "kmalloc_dump pr (t, s) = emit (term_putb pr) (heap_text (heap_head s) bs) (t, s)"
proof -
  have ch: "chain (headers s) (heap_head s) (heap_end s) bs" and bs: "bs \<noteq> []"
    and b: "HEAP_START \<le> heap_head s" "heap_end s \<le> HEAP_START + HEAP_MAX_SIZE"
    using assms(1) by (simp_all add: heap_blocks_def)
  have a: "0 < heap_head s" "heap_end s < usize_lim" using b by (simp_all add: HEAP_START_def HEAP_MAX_SIZE_def)
  then have len: "0 + length bs < usize_lim" using chain_length [OF ch] by linarith
  obtain t1 s1 where 1: "emit (term_putb pr) (asc ''\<newline>---- Heap Dump ----\<newline>'') (t, s) = Inr (t1, s1)"
    "same_term (t, s) (t1, s1)" "term_ok (t1, s1)"
    using emit_same [OF assms(2)] by (metis surj_pair)
  have "headers s1 = headers s" "heap_head s1 = heap_head s" using 1(2) by (auto simp: same_term_def)
  then have "dump_blocks pr (heap_head s1) 0 (t1, s1) = Some (emit (term_putb pr) (dump_lines 0 (heap_head s) bs) (t1, s1))"
    using dump_blocks_eq [OF ch a len 1(3)] bs by simp
  then show ?thesis
    by (simp only: kmalloc_dump_def heap_text_def term_print_emit emit_append 1(1) or_hang_def option.case andThen.simps snd_conv andThen_assoc term_print_fun)
qed

section \<open>The shell as a function on pictures\<close>

text \<open>The commands that answer and return without waiting or changing the memory.\<close>

definition answered :: "u8 list \<Rightarrow> bool" where
  "answered verb \<longleftrightarrow> verb \<notin> set (map asc
     [''reboot'', ''memtest'', ''pgfault'', ''divzero'', ''intopcode'', ''breakpoint'', ''dfault'', ''sleep'', ''synwrite''])"

definition word1 :: "u8 list \<Rightarrow> u8 list" where
  "word1 s = takeWhile (\<lambda>b. b \<noteq> 32) s"

definition after_word :: "u8 list \<Rightarrow> u8 list" where
  "after_word s = strip (tl (dropWhile (\<lambda>b. b \<noteq> 32) s))"

definition verb_of :: "u8 list \<Rightarrow> u8 list" where
  "verb_of l = word1 (strip l)"

definition rest_of :: "u8 list \<Rightarrow> u8 list" where
  "rest_of l = after_word (strip l)"

definition reply :: "(nat \<times> bool) list \<Rightarrow> 'a sys_state_scheme \<Rightarrow> u8 list \<Rightarrow> u8 list" where
  "reply bs s l =
     (let verb = verb_of l in
      if verb = asc ''help'' then asc (concat help_text)
      else if verb = asc ''echo'' then rest_of l @ [10]
      else if verb = asc ''meminfo'' then meminfo_text s
      else if verb = asc ''heap'' then heap_text (heap_head s) bs
      else if verb = asc ''uptime'' then uptime_text s
      else unknown_text verb)"

type_synonym view = "nat \<times> nat \<times> picture"

definition answer ::
    "(nat \<times> bool) list \<Rightarrow> 'a sys_state_scheme \<Rightarrow> u8 list \<Rightarrow> terminal \<Rightarrow> view \<Rightarrow> terminal \<times> view" where
  "answer bs s l t v =
     (if strip l = [] then (t, v)
      else if verb_of l = asc ''cls'' then (t, (0, 0, \<lambda>y x. tbg t))
      else if verb_of l = asc ''color'' then
        (case (parse_hex6 (word1 (rest_of l)), parse_hex6 (word1 (after_word (rest_of l)))) of
           (Some fg, Some bg) \<Rightarrow>
             let t = t\<lparr>tfg := fg, tbg := bg\<rparr> in (t, text_puts (font s) t (asc ''Color updated.\<newline>'') v)
         | _ \<Rightarrow> (t, text_puts (font s) t (asc ''Usage: color RRGGBB RRGGBB\<newline>'') v))
      else (t, text_puts (font s) t (reply bs s l) v))"

text \<open>One key: the line, the terminal's colours and the picture afterwards.\<close>

definition type_key ::
    "(nat \<times> bool) list \<Rightarrow> 'a sys_state_scheme \<Rightarrow> u8 \<Rightarrow> u8 list \<times> terminal \<times> view \<Rightarrow> u8 list \<times> terminal \<times> view" where
  "type_key bs s key = (\<lambda>(l, t, v).
     if key = 10 then
       (let (t, v) = answer bs s l t (text_putc (font s) t 10 v) in ([], t, text_puts (font s) t (asc PROMPT) v))
     else if key = 8 then (if l = [] then (l, t, v) else (butlast l, t, text_backspace t v))
     else if 32 \<le> key \<and> key < 127 \<and> length l < 255 then (l @ [key], t, text_putc (font s) t (unat key) v)
     else (l, t, v))"

fun quiet :: "u8 list \<Rightarrow> u8 list \<Rightarrow> bool" where
  "quiet l [] = True"
| "quiet l (k # ks) =
     (if k = 10 then answered (verb_of l) \<and> quiet [] ks
      else if k = 8 then quiet (butlast l) ks
      else if 32 \<le> k \<and> k < 127 \<and> length l < 255 then quiet (l @ [k]) ks
      else quiet l ks)"

text \<open>The terminal without its cursor.\<close>

definition geo :: "terminal \<Rightarrow> terminal" where
  "geo t = t\<lparr>tcol := 0, trow := 0\<rparr>"

definition line :: "shell \<Rightarrow> u8 list" where
  "line sh = take (slen sh) (sbuf sh)"

definition shell_ok :: "shell \<Rightarrow> bool" where
  "shell_ok sh \<longleftrightarrow> length (sbuf sh) = CMD_BUF_SIZE \<and> slen sh < CMD_BUF_SIZE"

lemma geo_simps [simp]:
  "text_putc h (geo t) = text_putc h t" "text_puts h (geo t) = text_puts h t" "text_backspace (geo t) = text_backspace t"
  "tbg (geo t) = tbg t" "geo (t\<lparr>tcol := c\<rparr>) = geo t" "geo (t\<lparr>trow := r\<rparr>) = geo t"
  "geo (t\<lparr>tfg := f\<rparr>) = geo t\<lparr>tfg := f\<rparr>" "geo (t\<lparr>tbg := b\<rparr>) = geo t\<lparr>tbg := b\<rparr>"
  by (simp_all add: geo_def text_puts_def text_backspace_def fun_eq_iff cong: if_cong)

lemma same_term_geo: "same_term (t, s) (t', s') \<Longrightarrow> geo t' = geo t"
  by (auto simp: same_term_def)

section \<open>Refinement\<close>

lemma unat_of_char [simp]: "unat (of_char c :: u8) = of_char c"
proof -
  have "(of_char c :: u8) = of_nat (of_char c)" by (simp only: of_nat_of_char)
  moreover have "of_char c < (2::nat) ^ 8" using nat_of_char_less_256 [of c] by simp
  ultimately show ?thesis by (simp add: unat_of_nat take_bit_nat_eq_self del: of_nat_of_char)
qed

lemma asc_eq_iff [simp]: "asc a = asc b \<longleftrightarrow> a = b"
  unfolding asc_def by (rule inj_map_eq_map) (metis injI of_char_eq_iff unat_of_char)

text \<open>What the editing and the answered commands change: pixels, and the keyboard's ring.\<close>

definition only_screen :: "'a sys_state_scheme \<Rightarrow> 'a sys_state_scheme \<Rightarrow> bool" where
  "only_screen s s' \<longleftrightarrow> (\<exists>F K. s' = s\<lparr>fb := F, global_keyboard := K\<rparr> \<and> length F = length (fb s))"

lemma only_screen_refl [simp]: "only_screen s s"
  unfolding only_screen_def by (intro exI [of _ "fb s"] exI [of _ "global_keyboard s"]) simp

lemma only_screen_trans: "only_screen a b \<Longrightarrow> only_screen b c \<Longrightarrow> only_screen a c"
  unfolding only_screen_def by force

lemma only_screen_same: "same_term (t, s) (t', s') \<Longrightarrow> only_screen s s'"
  unfolding only_screen_def same_term_def by (auto intro!: exI [of _ "global_keyboard s"])

lemma only_screen_facts:
  assumes "only_screen s s'"
  shows "font s' = font s" "pmm_inv s' \<longleftrightarrow> pmm_inv s" "heap_blocks s' bs \<longleftrightarrow> heap_blocks s bs"
    "reply bs s' l = reply bs s l" "answer bs s' = answer bs s" "type_key bs s' = type_key bs s"
proof -
  obtain F K where s': "s' = s\<lparr>fb := F, global_keyboard := K\<rparr>" using assms by (auto simp: only_screen_def)
  have free: "free_pages s' = free_pages s" by (simp add: s' free_pages_def)
  have same: "total_pages s' = total_pages s" "heap_head s' = heap_head s" "ticks s' = ticks s" by (simp_all add: s' ticks_def)
  show font: "font s' = font s" by (simp add: s')
  show "pmm_inv s' \<longleftrightarrow> pmm_inv s" by (simp only: pmm_inv_def free) (simp add: s')
  show "heap_blocks s' bs \<longleftrightarrow> heap_blocks s bs" by (simp add: s' heap_blocks_def)
  have r: "reply bs s' l = reply bs s l" for l
    by (simp only: reply_def meminfo_text_def uptime_text_def free same)
  show "reply bs s' l = reply bs s l" by (rule r)
  show a: "answer bs s' = answer bs s" by (intro ext) (simp only: answer_def r font)
  show "type_key bs s' = type_key bs s" by (intro ext) (simp only: type_key_def a font)
qed

definition only_pixels :: "'a sys_state_scheme \<Rightarrow> 'a sys_state_scheme \<Rightarrow> bool" where
  "only_pixels s s' \<longleftrightarrow> only_screen s s' \<and> global_keyboard s' = global_keyboard s"

lemma only_pixels_refl [simp]: "only_pixels s s"
  by (simp add: only_pixels_def)

lemma only_pixels_trans: "only_pixels a b \<Longrightarrow> only_pixels b c \<Longrightarrow> only_pixels a c"
  unfolding only_pixels_def using only_screen_trans by fastforce

lemma only_pixels_same: "same_term (t, s) (t', s') \<Longrightarrow> only_pixels s s'"
  unfolding only_pixels_def by (auto simp: only_screen_same) (auto simp: same_term_def)

lemma only_pixels_screen: "only_pixels s s' \<Longrightarrow> only_screen s s'"
  by (simp add: only_pixels_def)

lemmas only_pixels_facts = only_screen_facts [OF only_pixels_screen]

lemma emit_answers:
  fixes s :: "'a sys_state_scheme"
  assumes "views (t, s) v"
  obtains t' s' where "emit (term_putb pr) bs (t, s) = Inr (t', s')" "same_term (t, s) (t', s')"
    "views (t', s') (text_puts (font s) t bs v)"
  using emit_views [OF assms] by (metis surj_pair)

lemma finish_Inr [simp]: "finish (Inr ts) = Inr (Done, ts)"
  by (simp add: finish_def)

lemma views_recoloured: "views (t, s) v \<Longrightarrow> views (t\<lparr>tfg := f, tbg := b\<rparr>, s) v"
  by (auto simp: views_def term_ok_def shows_picture_def)

lemma execute_answers:
  fixes s :: "'a sys_state_scheme"
  assumes ok: "shell_ok sh" and v: "views (t, s) v" and p: "pmm_inv s" and h: "heap_blocks s bs"
    and quiet: "answered (verb_of (line sh))"
  shows "\<exists>t' s' v'. execute pr env sh (t, s) = Inr (Done, (t', s')) \<and> only_pixels s s' \<and> views (t', s') v' \<and>
    answer bs s (line sh) (geo t) v = (geo t', v')"
proof -
  let ?l = "line sh" and ?verb = "verb_of (line sh)"
  have run: "\<exists>t' s' v'. finish (emit (term_putb pr) out (t, s)) = Inr (Done, (t', s')) \<and> only_pixels s s' \<and> views (t', s') v' \<and>
      (geo t, text_puts (font s) t out v) = (geo t', v')" for out
    by (rule emit_answers [OF v, of pr out]) (metis finish_Inr only_pixels_same same_term_geo)
  have tok: "term_ok (t, s)" using v by (cases v) (simp add: views_def)
  have "\<not> length (sbuf sh) < slen sh" using ok by (simp add: shell_ok_def)
  then have cmd: "execute pr env sh (t, s) =
      (if strip ?l = [] then Inr (Done, (t, s))
       else if ?verb = asc ''cls'' then finish (clear_term pr (t, s))
       else if ?verb = asc ''color'' then finish (cmd_color pr (tl (dropWhile (\<lambda>b. b \<noteq> 32) (strip ?l))) (t, s))
       else finish (emit (term_putb pr) (reply bs s ?l) (t, s)))"
    using quiet unfolding answered_def
    by (simp add: execute_def trim_ascii_eq split_first_word_eq Let_def flip: line_def word1_def verb_of_def)
       (simp add: reply_def Let_def help_emit cmd_echo_emit cmd_meminfo_emit p kmalloc_dump_emit [OF h tok] cmd_uptime_emit cmd_unknown_emit
         rest_of_def after_word_def)
  show ?thesis
  proof (cases "strip ?l = [] \<or> ?verb = asc ''cls'' \<or> ?verb = asc ''color''")
    case False
    then show ?thesis using run [of "reply bs s ?l"] by (simp add: cmd answer_def)
  next
    case True
    then consider (empty) "strip ?l = []" | (cls) "strip ?l \<noteq> []" "?verb = asc ''cls''" | (color) "strip ?l \<noteq> []" "?verb = asc ''color''"
      by blast
    then show ?thesis
    proof cases
      case empty
      then show ?thesis using v by (cases v) (auto simp: cmd answer_def)
    next
      case cls
      have "theight t * tpitch t \<le> length (fb s)" "length (fb s) < usize_lim" using term_okD [OF tok] by simp_all
      then obtain F where F: "clear_term pr (t, s) = Inr (t\<lparr>tcol := 0, trow := 0\<rparr>, s\<lparr>fb := F\<rparr>)" "length F = length (fb s)"
        "shows_picture t (s\<lparr>fb := F\<rparr>) (\<lambda>y x. tbg t)"
        using clear_shows by blast
      have "views (t\<lparr>tcol := 0, trow := 0\<rparr>, s\<lparr>fb := F\<rparr>) (0, 0, \<lambda>y x. tbg t)"
        using F(2,3) tok term_okD [OF tok] by (simp add: views_def term_ok_def)
      then show ?thesis using cls F only_pixels_same [OF same_termI [OF F(2), of t 0 0]]
        by (simp add: cmd answer_def)
    next
      case color
      let ?fg = "parse_hex6 (word1 (rest_of ?l))" and ?bg = "parse_hex6 (word1 (after_word (rest_of ?l)))"
      have c: "execute pr env sh (t, s) = finish (case (?fg, ?bg) of
           (Some fg, Some bg) \<Rightarrow> emit (term_putb pr) (asc ''Color updated.\<newline>'') (set_color fg bg (t, s))
         | _ \<Rightarrow> emit (term_putb pr) (asc ''Usage: color RRGGBB RRGGBB\<newline>'') (t, s))"
        using color by (simp add: cmd cmd_color_def trim_ascii_eq split_first_word_eq term_print_emit rest_of_def word1_def after_word_def split: option.split)
      show ?thesis
      proof (cases "\<exists>fg bg. ?fg = Some fg \<and> ?bg = Some bg")
        case True
        then obtain fg bg where p: "?fg = Some fg" "?bg = Some bg" by blast
        obtain t' s' where 1: "emit (term_putb pr) (asc ''Color updated.\<newline>'') (t\<lparr>tfg := fg, tbg := bg\<rparr>, s) = Inr (t', s')"
          "same_term (t\<lparr>tfg := fg, tbg := bg\<rparr>, s) (t', s')"
          "views (t', s') (text_puts (font s) (t\<lparr>tfg := fg, tbg := bg\<rparr>) (asc ''Color updated.\<newline>'') v)"
          using emit_answers [OF views_recoloured [OF v]] by blast
        have "text_puts (font s) (geo t\<lparr>tfg := fg, tbg := bg\<rparr>) = text_puts (font s) (t\<lparr>tfg := fg, tbg := bg\<rparr>)"
          using geo_simps(2) [of "font s" "t\<lparr>tfg := fg, tbg := bg\<rparr>"] by simp
        then show ?thesis using color 1 only_pixels_same [OF 1(2)] same_term_geo [OF 1(2)]
          by (cases "text_puts (font s) (t\<lparr>tfg := fg, tbg := bg\<rparr>) (asc ''Color updated.\<newline>'') v")
            (auto simp: c p set_color_def answer_def Let_def)
      next
        case False
        then show ?thesis using color run [of "asc ''Usage: color RRGGBB RRGGBB\<newline>''"]
          by (auto simp: c answer_def split: option.splits)
      qed
    qed
  qed
qed

lemma line_grown: "shell_ok sh \<Longrightarrow> slen sh < CMD_BUF_SIZE - 1 \<Longrightarrow>
    line (sh\<lparr>sbuf := (sbuf sh)[slen sh := key], slen := slen sh + 1\<rparr>) = line sh @ [key]"
  by (simp add: line_def shell_ok_def take_Suc_conv_app_nth)

lemma line_shrunk: "shell_ok sh \<Longrightarrow> line (sh\<lparr>slen := slen sh - 1\<rparr>) = butlast (line sh)"
  by (simp add: line_def shell_ok_def butlast_take)

lemma line_empty: "shell_ok sh \<Longrightarrow> line sh = [] \<longleftrightarrow> slen sh = 0"
  by (auto simp: line_def shell_ok_def)

lemma line_length: "shell_ok sh \<Longrightarrow> length (line sh) = slen sh"
  by (simp add: line_def shell_ok_def)

lemma handle_key_refines:
  fixes s :: "'a sys_state_scheme"
  assumes ok: "shell_ok sh" and v: "views (t, s) v" and p: "pmm_inv s" and h: "heap_blocks s bs"
    and quiet: "key = 10 \<Longrightarrow> answered (verb_of (line sh))"
  shows "\<exists>sh' t' s' v'. handle_key pr env key sh (t, s) = Inr (Done, sh', (t', s')) \<and> shell_ok sh' \<and> only_pixels s s' \<and>
    views (t', s') v' \<and> type_key bs s key (line sh, geo t, v) = (line sh', geo t', v')"
proof -
  obtain c r P where cr: "v = (c, r, P)" by (cases v)
  consider (enter) "key = 10" | (erase) "key = 8" "0 < slen sh" | (char) "32 \<le> key" "key < 127" "slen sh < CMD_BUF_SIZE - 1"
    | (other) "key \<noteq> 10" "key = 8 \<longrightarrow> slen sh = 0" "32 \<le> key \<and> key < 127 \<longrightarrow> \<not> slen sh < CMD_BUF_SIZE - 1" by linarith
  then show ?thesis
  proof cases
    case enter
    obtain t1 s1 where 1: "term_putc pr 10 (t, s) = Inr (t1, s1)" "same_term (t, s) (t1, s1)"
      "views (t1, s1) (text_putc (font s) t 10 v)"
      using term_putc_views v unfolding cr by (metis surj_pair)
    note o1 = only_pixels_same [OF 1(2)]
    obtain t2 s2 v2 where 2: "execute pr env sh (t1, s1) = Inr (Done, (t2, s2))" "only_pixels s1 s2" "views (t2, s2) v2"
      "answer bs s1 (line sh) (geo t1) (text_putc (font s) t 10 v) = (geo t2, v2)"
      using execute_answers [OF ok 1(3)] p h quiet [OF enter] by (metis only_pixels_facts(2,3) [OF o1])
    have o2: "only_pixels s s2" by (rule only_pixels_trans [OF o1 2(2)])
    obtain t3 s3 where 3: "show_prompt pr (t2, s2) = Inr (t3, s3)" "same_term (t2, s2) (t3, s3)"
      "views (t3, s3) (text_puts (font s2) t2 (asc PROMPT) v2)"
      unfolding show_prompt_emit by (rule emit_answers [OF 2(3)])
    have "type_key bs s key (line sh, geo t, v) = ([], geo t3, text_puts (font s2) t2 (asc PROMPT) v2)"
      using 2(4) by (simp add: type_key_def enter only_pixels_facts [OF o1] only_pixels_facts(1) [OF o2]
          same_term_geo [OF 1(2)] same_term_geo [OF 3(2)])
    moreover have "handle_key pr env key sh (t, s) = Inr (Done, sh\<lparr>slen := 0\<rparr>, (t3, s3))"
      by (simp add: handle_key_def enter 1 2 3)
    moreover have "shell_ok (sh\<lparr>slen := 0\<rparr>)" "line (sh\<lparr>slen := 0\<rparr>) = []" using ok by (simp_all add: shell_ok_def line_def)
    ultimately show ?thesis using 3(3) only_pixels_trans [OF o2 only_pixels_same [OF 3(2)]]
      by (metis surj_pair)
  next
    case erase
    obtain t1 s1 where 1: "backspace pr (t, s) = Inr (t1, s1)" "same_term (t, s) (t1, s1)" "views (t1, s1) (text_backspace t v)"
      using backspace_views v unfolding cr by (metis surj_pair)
    have "handle_key pr env key sh (t, s) = Inr (Done, sh\<lparr>slen := slen sh - 1\<rparr>, (t1, s1))"
      using erase by (simp add: handle_key_def 1)
    moreover have "type_key bs s key (line sh, geo t, v) = (line (sh\<lparr>slen := slen sh - 1\<rparr>), geo t1, text_backspace t v)"
      using erase by (simp add: type_key_def line_empty [OF ok] line_shrunk [OF ok] same_term_geo [OF 1(2)] del: One_nat_def)
    moreover have "shell_ok (sh\<lparr>slen := slen sh - 1\<rparr>)" using ok by (auto simp: shell_ok_def)
    ultimately show ?thesis using 1(3) only_pixels_same [OF 1(2)] by metis
  next
    case char
    let ?sh = "sh\<lparr>sbuf := (sbuf sh)[slen sh := key], slen := slen sh + 1\<rparr>"
    have ne: "key \<noteq> 10" "key \<noteq> 8" using char(1) by auto
    obtain t1 s1 where 1: "term_putb pr key (t, s) = Inr (t1, s1)" "same_term (t, s) (t1, s1)"
      "views (t1, s1) (text_putc (font s) t (unat key) v)"
      using term_putc_views v unfolding cr term_putb_def by (metis surj_pair)
    have len: "length (line sh) < 255" "\<not> length (sbuf sh) \<le> slen sh"
      using ok char(3) by (simp_all add: line_length shell_ok_def CMD_BUF_SIZE_def)
    have "handle_key pr env key sh (t, s) = Inr (Done, ?sh, (t1, s1))"
      using char len by (simp add: handle_key_def ne 1)
    moreover have "type_key bs s key (line sh, geo t, v) = (line ?sh, geo t1, text_putc (font s) t (unat key) v)"
      using char len by (simp add: type_key_def ne line_grown [OF ok char(3)] same_term_geo [OF 1(2)] del: One_nat_def)
    moreover have "shell_ok ?sh" using ok char(3) by (simp add: shell_ok_def)
    ultimately show ?thesis using 1(3) only_pixels_same [OF 1(2)] by metis
  next
    case other
    have "handle_key pr env key sh (t, s) = Inr (Done, sh, (t, s))" using other by (simp add: handle_key_def)
    moreover have "type_key bs s key (line sh, geo t, v) = (line sh, geo t, v)"
      using other ok by (auto simp: type_key_def line_empty [OF ok] line_length shell_ok_def CMD_BUF_SIZE_def)
    ultimately show ?thesis using ok v by (metis only_pixels_refl)
  qed
qed

lemma pop_frame:
  assumes "kbd_inv s" and "kbd_pending s = k # ks"
  obtains s' where "global_pop s = Inr (Some k, s')" "kbd_inv s'" "kbd_pending s' = ks" "only_screen s s'"
    "\<And>t v. views (t, s) v \<Longrightarrow> views (t, s') v"
proof -
  obtain s' where s': "global_pop s = Inr (Some k, s')" "kbd_inv s'" "kbd_pending s' = ks"
    using kbd.get_item [OF assms] by blast
  then obtain K where K: "s' = s\<lparr>global_keyboard := K\<rparr>" by (auto simp: global_pop_def)
  have "views (t, s') v" if "views (t, s) v" for t v
    using that by (auto simp: K views_def term_ok_def shows_picture_def)
  moreover have "only_screen s s'" unfolding K only_screen_def by (intro exI [of _ "fb s"] exI [of _ K]) simp
  ultimately show ?thesis using that s' by blast
qed

lemma quiet_step:
  assumes "shell_ok sh" and "quiet (line sh) (k # ks)" and "type_key bs s k (line sh, t, v) = (l', t', v')"
  shows "quiet l' ks" "k = 10 \<Longrightarrow> answered (verb_of (line sh))"
  using assms(2,3) by (auto simp: type_key_def Let_def split: if_splits prod.splits)

lemma drain_refines:
  fixes s :: "'a sys_state_scheme"
  assumes "shell_ok sh" and "views (t, s) v" and "pmm_inv s" and "heap_blocks s bs" and "kbd_inv s"
    and "quiet (line sh) (kbd_pending s)"
  shows "\<exists>sh' t' s' v'. drain_keys pr env sh (t, s) = Some (Inr (Done, sh', (t', s'))) \<and> shell_ok sh' \<and> only_screen s s' \<and>
    kbd_inv s' \<and> kbd_pending s' = [] \<and> views (t', s') v' \<and>
    fold (type_key bs s) (kbd_pending s) (line sh, geo t, v) = (line sh', geo t', v')"
  using assms
proof (induction "kbd_pending s" arbitrary: sh t s v)
  case Nil
  have "drain_keys pr env sh (t, s) = Some (Inr (Done, sh, (t, s)))"
    using kbd.get_empty [OF Nil.prems(5) Nil.hyps [symmetric]] by (subst drain_keys.simps) simp
  then show ?case using Nil by (metis fold_simps(1) id_apply only_screen_refl)
next
  case (Cons k ks)
  obtain s1 where 1: "global_pop s = Inr (Some k, s1)" "kbd_inv s1" "kbd_pending s1 = ks" "only_screen s s1"
    "views (t, s1) v"
    using pop_frame [OF Cons.prems(5) Cons.hyps(2) [symmetric]] Cons.prems(2) by metis
  note f1 = only_screen_facts [OF 1(4)]
  have q: "quiet (line sh) (k # ks)" using Cons.prems(6) Cons.hyps(2) by simp
  then have "k = 10 \<Longrightarrow> answered (verb_of (line sh))" by simp
  moreover have p1: "pmm_inv s1" "heap_blocks s1 bs" using Cons.prems(3,4) f1 by simp_all
  ultimately obtain sh2 t2 s2 v2 where 2: "handle_key pr env k sh (t, s1) = Inr (Done, sh2, (t2, s2))" "shell_ok sh2"
    "only_pixels s1 s2" "views (t2, s2) v2" "type_key bs s1 k (line sh, geo t, v) = (line sh2, geo t2, v2)"
    using handle_key_refines [OF Cons.prems(1) 1(5) p1, of k pr env] by blast
  note f2 = only_pixels_facts [OF 2(3)]
  have k2: "kbd_inv s2" "kbd_pending s2 = ks" using 2(3) 1(2,3) by (simp_all add: only_pixels_def kbd_inv_def kbd_pending_def)
  have p2: "pmm_inv s2" "heap_blocks s2 bs" using p1 f2 by simp_all
  have q2: "quiet (line sh2) (kbd_pending s2)" using quiet_step(1) [OF Cons.prems(1) q 2(5)] by (simp add: k2)
  obtain sh' t' s' v' where 3: "drain_keys pr env sh2 (t2, s2) = Some (Inr (Done, sh', (t', s')))" "shell_ok sh'"
    "only_screen s2 s'" "kbd_inv s'" "kbd_pending s' = []" "views (t', s') v'"
    "fold (type_key bs s2) (kbd_pending s2) (line sh2, geo t2, v2) = (line sh', geo t', v')"
    using Cons.hyps(1) [OF k2(2) [symmetric] 2(2,4) p2 k2(1) q2] by blast
  have "drain_keys pr env sh (t, s) = Some (Inr (Done, sh', (t', s')))"
    by (subst drain_keys.simps) (simp add: 1(1) 2(1) 3(1))
  moreover have "only_screen s s'" using 1(4) only_pixels_screen [OF 2(3)] 3(3) only_screen_trans by blast
  moreover have "fold (type_key bs s) (kbd_pending s) (line sh, geo t, v) = (line sh', geo t', v')"
    using 3(7) 2(5) Cons.hyps(2) by (simp add: f1(6) f2(6) k2(2) flip: Cons.hyps(2))
  ultimately show ?case using 3(2,4,5,6) by metis
qed

section \<open>Properties\<close>

text \<open>C8: The shell's loop over the pending keys refines a line editor on pictures. From any console whose terminal shows
  a picture, with the ring holding any keys at all whose entered lines name no command that waits, faults or
  changes the memory, it ends without a fault with the ring empty: the line in the buffer, the terminal's colours
  and every visible pixel are what folding \<open>type_key\<close> over the keys gives, that is characters appended and drawn,
  backspaces, and for each newline the command's answer (help, echo, cls, color, meminfo, heap, uptime or the
  complaint about an unknown command) and a prompt. Nothing else in the machine changes.\<close>

theorem shell_session:
  assumes "shell_ok sh" and "views (t, s) v" and "pmm_inv s" and "heap_blocks s bs" and "kbd_inv s"
    and "quiet (line sh) (kbd_pending s)"
  shows "\<exists>sh' t' s' v'. drain_keys pr env sh (t, s) = Some (Inr (Done, sh', (t', s'))) \<and> shell_ok sh' \<and>
    only_screen s s' \<and> kbd_pending s' = [] \<and> views (t', s') v' \<and>
    fold (type_key bs s) (kbd_pending s) (line sh, geo t, v) = (line sh', geo t', v')"
  using drain_refines [OF assms, of pr env] by blast

text \<open>The line alone.\<close>

definition edit_line :: "u8 \<Rightarrow> u8 list \<Rightarrow> u8 list" where
  "edit_line k l =
     (if k = 10 then [] else if k = 8 then butlast l else if 32 \<le> k \<and> k < 127 \<and> length l < 255 then l @ [k] else l)"

lemma fold_type_key_line: "fst (fold (type_key bs s) ks (l, t, v)) = fold edit_line ks l"
proof (induction ks arbitrary: l t v)
  case (Cons k ks)
  obtain l1 t1 v1 where 1: "type_key bs s k (l, t, v) = (l1, t1, v1)" by (metis prod_cases3)
  then have "l1 = edit_line k l" by (auto simp: type_key_def edit_line_def Let_def split: if_splits prod.splits)
  then show ?case by (simp add: 1 Cons)
qed simp

definition idle_env :: "'a env" where
  "idle_env = \<lparr>later = (\<lambda>sw s. s), as_ptr = (\<lambda>t. 0)\<rparr>"

definition small_console :: "u8 list \<Rightarrow> sys_state" where
  "small_console ks = undefined\<lparr>fb := replicate 512 0, font := FONT_HEADER @ replicate 4096 0, framebuffers := Some [(16, 32, 64)],
     bitmap := bitmap small_pmm, bitmap_len := 2, total_pages := 16, free_count := 2,
     headers := [HEAP_START \<mapsto> hdr_of 4072 False 0], heap_head := HEAP_START, heap_end := HEAP_START + 4096, heap_inited := True,
     global_keyboard := keyboard_new\<lparr>kbuffer := key_buffer_new\<lparr>kbuf := ks @ replicate (256 - length ks) 0, khead := length ks\<rparr>\<rparr>,
     tick_count := 0\<rparr>"

lemma small_console_ok:
  assumes "length ks < 256"
  shows "pmm_inv (small_console ks)" "heap_blocks (small_console ks) [(4072, False)]" "kbd_inv (small_console ks)"
    "kbd_pending (small_console ks) = ks" "views (small_term, small_console ks) (0, 0, \<lambda>y x. 0)"
proof -
  show "pmm_inv (small_console ks)"
    using small_pmm_inv by (simp add: pmm_inv_def free_pages_def small_console_def small_pmm_def)
  show "heap_blocks (small_console ks) [(4072, False)]"
    by (simp add: heap_blocks_def small_console_def HEAP_START_def HEAP_MAX_SIZE_def block_ok_def)
  show "kbd_inv (small_console ks)"
    using assms by (simp add: kbd_inv_def kb_inv_def small_console_def key_buffer_new_def)
  show "kbd_pending (small_console ks) = ks"
    using assms by (intro nth_equalityI)
      (auto simp: kbd_pending_def pending_def kb_count_def small_console_def key_buffer_new_def nth_append)
  show "views (small_term, small_console ks) (0, 0, \<lambda>y x. 0)"
    by (simp add: views_def term_ok_def shows_picture_def small_term_def small_console_def FONT_HEADER_def)
qed

lemma shell_new_ok: "shell_ok shell_new" "line shell_new = []"
  by (simp_all add: shell_ok_def line_def shell_new_def CMD_BUF_SIZE_def)

theorem shell_session_witness:
  "\<exists>sh' t' s'. drain_keys Dev idle_env shell_new (small_term, small_console [104, 10, 105, 8, 106]) =
     Some (Inr (Done, sh', (t', s'))) \<and> line sh' = [106]"
proof -
  let ?ks = "[104, 10, 105, 8, 106] :: u8 list" and ?v = "(0, 0, \<lambda>y x. 0) :: view"
  have n: "length ?ks < 256" by simp
  note ok = small_console_ok [OF n]
  have q: "quiet (line shell_new) (kbd_pending (small_console ?ks))"
    by (simp add: ok shell_new_ok answered_def verb_of_def strip_def word1_def asc_def)
  obtain sh' t' s' v' where 1: "drain_keys Dev idle_env shell_new (small_term, small_console ?ks) = Some (Inr (Done, sh', (t', s')))"
    "fold (type_key [(4072, False)] (small_console ?ks)) ?ks (line shell_new, geo small_term, ?v) = (line sh', geo t', v')"
    using shell_session [OF shell_new_ok(1) ok(5,1,2,3) q, of Dev idle_env] by (auto simp: ok(4))
  have "fst (fold (type_key bs s) ?ks ([], t, v)) = [106]" for bs t v and s :: sys_state
    by (simp only: fold_type_key_line) (simp add: edit_line_def)
  then show ?thesis using 1 by (metis shell_new_ok(2) fst_conv)
qed

definition shell_typed :: "shell \<Rightarrow> bool" where
  "shell_typed sh \<longleftrightarrow> shell_ok sh \<and> list_all (\<lambda>b. 32 \<le> b \<and> b < 127) (line sh)"

lemma list_all_butlast: "list_all P xs \<Longrightarrow> list_all P (butlast xs)"
  by (auto simp: list_all_iff dest: in_set_butlastD)

lemma handle_key_typed:
  assumes "shell_typed sh" and "handle_key pr env key sh ts = Inr (out, sh', ts')"
  shows "shell_typed sh'"
proof -
  have ok: "shell_ok sh" and l: "list_all (\<lambda>b. 32 \<le> b \<and> b < 127) (line sh)" using assms(1) by (simp_all add: shell_typed_def)
  have z: "shell_typed (sh\<lparr>slen := 0\<rparr>)" using ok by (simp add: shell_typed_def shell_ok_def line_def)
  have d: "shell_typed (sh\<lparr>slen := slen sh - 1\<rparr>)" if "0 < slen sh"
    using ok list_all_butlast [OF l] unfolding shell_typed_def line_shrunk [OF ok] by (auto simp: shell_ok_def)
  have g: "shell_typed (sh\<lparr>sbuf := (sbuf sh)[slen sh := key], slen := slen sh + 1\<rparr>)"
    if "32 \<le> key" "key < 127" "slen sh < CMD_BUF_SIZE - 1"
    using ok l that unfolding shell_typed_def line_grown [OF ok that(3)] by (simp add: shell_ok_def)
  show ?thesis using assms z d g
    by (auto simp: handle_key_def andThen_Inr_iff split: if_splits)
qed

lemma drain_typed:
  assumes "drain_keys pr env sh ts = Some r" and "shell_typed sh"
  shows "case r of Inl e \<Rightarrow> True | Inr (out, sh', ts') \<Rightarrow> shell_typed sh'"
  using assms(2)
proof (induction rule: drain_keys.raw_induct [OF _ assms(1)])
  case (1 drain pr env sh ts r)
  show ?case
  proof (cases "global_pop (snd ts)")
    case (Inl e)
    then show ?thesis using 1(2) by auto
  next
    case (Inr q)
    obtain ko s1 where q: "q = (ko, s1)" by (cases q)
    show ?thesis
    proof (cases ko)
      case None
      then show ?thesis using 1(2,3) Inr q by auto
    next
      case (Some k)
      show ?thesis
      proof (cases "handle_key pr env k sh (fst ts, s1)")
        case h: (Inl e)
        have "r = Inl e" using 1(2) Inr q Some h by simp
        then show ?thesis by simp
      next
        case h: (Inr x)
        obtain out sh1 ts1 where x: "x = (out, sh1, ts1)" by (cases x)
        have t: "shell_typed sh1" using handle_key_typed [OF 1(3)] h x by simp
        show ?thesis
        proof (cases "out = Done")
          case True
          then have "drain pr env sh1 ts1 = Some r" using 1(2) Inr q Some h x by simp
          then show ?thesis by (rule 1(1)) (rule t)
        next
          case False
          then show ?thesis using 1(2) Inr q Some h x t by auto
        qed
      qed
    qed
  qed
qed

text \<open>C35: The line in the shell's buffer is well typed and stays so, whatever keys arrive, whatever they make the shell do
  and however its commands end: at most 255 bytes, all of them printable ASCII, in a buffer of 256.\<close>

theorem shell_line_typed:
  assumes "shell_typed sh" and "drain_keys pr env sh ts = Some (Inr (out, sh', ts'))"
  shows "shell_typed sh'"
  using drain_typed [OF assms(2,1)] by simp

theorem shell_line_typed_witness:
  "\<exists>sh' ts'. drain_keys Dev idle_env shell_new (small_term, small_console []) = Some (Inr (Done, sh', ts')) \<and> shell_typed sh'"
proof -
  have n: "length ([] :: u8 list) < 256" by simp
  note ok = small_console_ok [OF n]
  have "drain_keys Dev idle_env shell_new (small_term, small_console []) = Some (Inr (Done, shell_new, (small_term, small_console [])))"
    using kbd.get_empty [OF ok(3,4)] by (subst drain_keys.simps) simp
  moreover have "shell_typed shell_new" by (simp add: shell_typed_def shell_new_ok)
  ultimately show ?thesis using shell_line_typed by blast
qed

text \<open>The line a fault command prints before the fault.\<close>

definition fault_line :: "string \<Rightarrow> string" where
  "fault_line w =
     (if w = ''pgfault'' then ''Triggering page fault at 0xdeadbeef...\<newline>''
      else if w = ''breakpoint'' then ''Triggering breakpoint (int3)...\<newline>''
      else if w = ''intopcode'' then ''Triggering invalid opcode (ud2)...\<newline>'' else ''via syscall: '')"

definition faults_with :: "'a sys_state_scheme \<Rightarrow> string \<Rightarrow> nat \<Rightarrow> bool" where
  "faults_with s w vec \<longleftrightarrow>
     w = ''pgfault'' \<and> vec = 14 \<and> \<not> mmu_maps s 0xdeadbeef \<or> w = ''breakpoint'' \<and> vec = 3 \<or>
     w = ''intopcode'' \<and> vec = 6 \<or> w = ''synwrite'' \<and> vec = 6 \<and> \<not> bit (msrs s EFER) 0"

lemma strip_verb: "verb_of l = asc w \<Longrightarrow> w \<noteq> [] \<Longrightarrow> strip l \<noteq> []"
  by (auto simp: verb_of_def word1_def asc_def)

lemma same_after_print:
  assumes "same_term (t, s) (t', s')"
  shows "msrs s' = msrs s" "mmu_maps s' a = mmu_maps s a" "screen_of w h pb s' = screen_of w h pb s"
proof -
  have part: "vm_part s' = vm_part s" using assms by (auto simp: same_term_def vm_part_def)
  show "mmu_maps s' a = mmu_maps s a" unfolding mmu_maps_def by (simp only: vm_part_cong [OF part])
qed (use assms in \<open>auto simp: same_term_def screen_of_def screen_fits_def\<close>)

lemma execute_faults:
  assumes ok: "shell_ok sh" and v: "views (t, s) v" and verb: "verb_of (line sh) = asc w" and f: "faults_with s w vec"
  shows "\<exists>t' s1. same_term (t, s) (t', s1) \<and> views (t', s1) (text_puts (font s) t (asc (fault_line w)) v) \<and>
    execute pr env sh (t, s) = Inr (Raised vec, (t', if vec = 14 then s1\<lparr>cr2 := 0xdeadbeef\<rparr> else s1))"
proof -
  have "w \<noteq> []" using f by (auto simp: faults_with_def)
  then have ne: "strip (line sh) \<noteq> []" by (rule strip_verb [OF verb])
  have len: "\<not> length (sbuf sh) < slen sh" using ok by (simp add: shell_ok_def)
  have w: "w = ''pgfault'' \<or> w = ''intopcode'' \<or> w = ''breakpoint'' \<or> w = ''synwrite''"
    using f by (auto simp: faults_with_def)
  have cmd: "execute pr env sh (t, s) =
      (if w = ''pgfault'' then cmd_pgfault pr (t, s) else if w = ''intopcode'' then cmd_intopcode pr (t, s)
       else if w = ''breakpoint'' then cmd_breakpoint pr (t, s) else cmd_synwrite pr env (tl (dropWhile (\<lambda>b. b \<noteq> 32) (strip (line sh)))) (t, s))"
    using w ne len verb
    by (elim disjE) (simp_all add: execute_def trim_ascii_eq split_first_word_eq Let_def cmd_synwrite_def flip: line_def word1_def verb_of_def)
  obtain t1 s1 where 1: "emit (term_putb pr) (asc (fault_line w)) (t, s) = Inr (t1, s1)" "same_term (t, s) (t1, s1)"
    "views (t1, s1) (text_puts (font s) t (asc (fault_line w)) v)"
    using emit_answers [OF v] by blast
  note m = same_after_print [OF 1(2)]
  have "execute pr env sh (t, s) = Inr (Raised vec, (t1, if vec = 14 then s1\<lparr>cr2 := 0xdeadbeef\<rparr> else s1))"
    using w f 1(1) unfolding faults_with_def
    by (elim disjE)
      (simp_all add: cmd cmd_pgfault_def cmd_intopcode_def cmd_breakpoint_def cmd_synwrite_def Let_def term_print_emit sys_write_wrapper_def syscall_insn_def
        m(1,2) fault_line_def)
  then show ?thesis using 1(2,3) by blast
qed

text \<open>C36: The fault commands print their line, raise the exception they name, and none of them returns. After a command line
  \<open>pgfault\<close> (when the processor finds no page at 0xdeadbeef), \<open>breakpoint\<close>, \<open>intopcode\<close>, or \<open>synwrite\<close> as long
  as EFER.SCE is clear (the kernel never sets it), the screen shows the picture it showed before with the command's line added
  after the cursor and nothing but the screen has changed; then vector 14 (with
  0xdeadbeef in CR2), 3, 6 or 6 is raised, and its handler, whatever the registers, clears the screen, shows a message
  with the faulting address and halts the processor with interrupts off. This contradicts the shell's help text, which says that
  \<open>breakpoint\<close> returns normally and that \<open>synwrite\<close> goes through int 0x80: neither reaches the next prompt.\<close>

theorem fault_commands_halt:
  assumes "shell_ok sh" and "views (t, s) v" and "verb_of (line sh) = asc w" and "faults_with s w vec"
    and "screen_of wd h pb s" and "vector fr = of_nat vec"
  shows "\<exists>t' s1. same_term (t, s) (t', s1) \<and> views (t', s1) (text_puts (font s) t (asc (fault_line w)) v) \<and>
    (let s' = if vec = 14 then s1\<lparr>cr2 := 0xdeadbeef\<rparr> else s1 in
       execute pr env sh (t, s) = Inr (Raised vec, (t', s')) \<and>
       (\<exists>items F. common_handler pr fr s' = Inr (Halted, cli_insn (s'\<lparr>fb := F\<rparr>)) \<and>
          message_shown wd h pb items (s'\<lparr>fb := F\<rparr>) \<and>
          Hex (rip fr) \<in> set items \<and> (vec = 14 \<longrightarrow> Hex 0xdeadbeef \<in> set items)))"
proof -
  obtain t' s1 where 1: "same_term (t, s) (t', s1)" "views (t', s1) (text_puts (font s) t (asc (fault_line w)) v)"
    "execute pr env sh (t, s) = Inr (Raised vec, (t', if vec = 14 then s1\<lparr>cr2 := 0xdeadbeef\<rparr> else s1))"
    using execute_faults [OF assms(1,2,3,4)] by blast
  let ?s = "if vec = 14 then s1\<lparr>cr2 := 0xdeadbeef\<rparr> else s1"
  have vec: "vec \<in> {3, 6, 14}" using assms(4) by (auto simp: faults_with_def)
  then have "is_exception fr" using assms(6) by (auto simp: is_exception_def)
  then obtain items where items: "common_handler pr fr ?s = exception_with pr items ?s" "Hex (rip fr) \<in> set items"
    "vector fr = 14 \<longrightarrow> Hex (cr2 ?s) \<in> set items"
    using exception_items by blast
  have "screen_of wd h pb s1" using same_after_print(3) [OF 1(1)] assms(5) by simp
  then have "screen_of wd h pb ?s" by (simp add: screen_of_def screen_fits_def)
  then obtain F where F: "exception_with pr items ?s = Inr (Halted, cli_insn (?s\<lparr>fb := F\<rparr>))" "message_shown wd h pb items (?s\<lparr>fb := F\<rparr>)"
    using exception_with_eq by blast
  have "vec = 14 \<longrightarrow> Hex 0xdeadbeef \<in> set items" using items(3) assms(6) by auto
  then have "\<exists>items F. common_handler pr fr ?s = Inr (Halted, cli_insn (?s\<lparr>fb := F\<rparr>)) \<and>
      message_shown wd h pb items (?s\<lparr>fb := F\<rparr>) \<and> Hex (rip fr) \<in> set items \<and> (vec = 14 \<longrightarrow> Hex 0xdeadbeef \<in> set items)"
    using items(1,2) F by metis
  then show ?thesis unfolding Let_def using 1 by blast
qed

theorem fault_commands_halt_witness:
  "\<exists>t' s' F. execute Dev idle_env (shell_new\<lparr>sbuf := asc ''breakpoint'' @ replicate 246 0, slen := 10\<rparr>)
      (small_term, small_console []) = Inr (Raised 3, (t', s')) \<and> same_term (small_term, small_console []) (t', s') \<and>
    common_handler Dev (undefined\<lparr>vector := 3\<rparr>) s' = Inr (Halted, cli_insn (s'\<lparr>fb := F\<rparr>))"
proof -
  let ?sh = "shell_new\<lparr>sbuf := asc ''breakpoint'' @ replicate 246 0, slen := 10\<rparr>"
  have n: "length ([] :: u8 list) < 256" by simp
  have sh: "shell_ok ?sh" by (simp add: shell_ok_def CMD_BUF_SIZE_def asc_def)
  have l: "line ?sh = asc ''breakpoint''" by (simp add: line_def asc_def)
  have verb: "verb_of (line ?sh) = asc ''breakpoint''" unfolding l by (simp add: verb_of_def word1_def strip_def asc_def)
  have f: "faults_with (small_console []) ''breakpoint'' 3" by (simp add: faults_with_def)
  have scr: "screen_of 16 32 64 (small_console [])"
    by (simp add: screen_of_def screen_fits_def small_console_def FONT_HEADER_def)
  from fault_commands_halt [OF sh small_console_ok(5) [OF n] verb f scr, where fr = "undefined\<lparr>vector := 3\<rparr>" and env = idle_env and pr = Dev]
  show ?thesis by auto
qed

text \<open>\<open>divzero\<close> panics in the language's own check and never reaches the divide error.\<close>

lemma divzero_panics:
  assumes "shell_ok sh" and "views (t, s) v" and "verb_of (line sh) = asc ''divzero''"
  shows "\<exists>m. execute pr env sh (t, s) = Inl (Panic m)"
proof -
  have "strip (line sh) \<noteq> []" by (rule strip_verb [OF assms(3)]) simp
  then have "execute pr env sh (t, s) = cmd_divzero pr (t, s)"
    using assms(1,3) by (auto simp: shell_ok_def execute_def trim_ascii_eq split_first_word_eq Let_def
        simp flip: line_def word1_def verb_of_def)
  moreover obtain ts where "emit (term_putb pr) (asc ''Triggering divide-by-zero...\<newline>'') (t, s) = Inr ts"
    using emit_answers [OF assms(2)] by blast
  ultimately show ?thesis by (simp add: cmd_divzero_def term_print_emit udiv_def)
qed

end
