(* ===== verification/Boot.thy ===== *)
theory Boot
  imports Shell
begin

text \<open>
  The boot sequence (\<open>_start\<close> in \<open>main.rs\<close>), in four parts, and what it establishes: the invariants under
  which the other theories describe the running kernel. The Limine responses, the addresses of the
  interrupt stubs and of the tasks' entry functions and the place of the descriptor table are parameters.
  The sequence behind \<open>sti\<close> is stated without an interrupt in between; what interrupts there can do is covered by the runs
  of the kernel (Multitask) from the state right after \<open>sti\<close>, in which the creation of the tasks is an event among ticks.
\<close>

section \<open>The sequence\<close>

definition boot_memory ::
    "profile \<Rightarrow> bool \<Rightarrow> nat option \<Rightarrow> nat \<Rightarrow> memmap_entry list option \<Rightarrow> 'a heap_state_scheme \<Rightarrow> 'a heap_state_scheme res" where
  "boot_memory pr supported hhdm memmap_usable memmap s =
     andThen (serial_print ''\<newline>[boot] serial ok\<newline>'' (serial_init s)) (\<lambda>s.
     andThen (ensure supported ''assertion failed: BASE_REVISION.is_supported()'') (\<lambda>_.
     andThen (serial_print ''[boot] limine revision ok\<newline>'' s) (\<lambda>s.
     andThen (init_vmm hhdm s) (\<lambda>s.
     andThen (serial_print ''[boot] vmm ok\<newline>'' s) (\<lambda>s.
     andThen (init_pmm pr memmap_usable memmap (hhdm_offset s) s) (\<lambda>s.
     andThen (serial_print ''[boot] pmm ok, free pages: '' s) (\<lambda>s.
     andThen (serial_print_usize pr (get_free_page_count s) s) (\<lambda>s.
     andThen (serial_print ''\<newline>'' s) (\<lambda>s.
     andThen (kmalloc_init pr HEAP_START (1024 * 1024) s) (\<lambda>s.
       serial_print ''[boot] heap ok\<newline>'' s))))))))))"

text \<open>The mask of a chip, read back and printed.\<close>

definition print_mask :: "string \<Rightarrow> u16 \<Rightarrow> 'a machine_scheme \<Rightarrow> 'a machine_scheme res" where
  "print_mask msg port s =
     andThen (serial_print msg s) (\<lambda>s.
     let (v, s) = inb port s in
     andThen (serial_print_hex64 (ucast v) s) (serial_print ''\<newline>''))"

definition boot_devices ::
    "profile \<Rightarrow> (nat \<Rightarrow> u64) \<Rightarrow> u64 \<Rightarrow> 'a pic_state_scheme \<Rightarrow> 'a pic_state_scheme res" where
  "boot_devices pr stub idt_base s =
     andThen (serial_print ''[boot] idt ok\<newline>'' (init_idt stub idt_base s)) (\<lambda>s.
     andThen (remap pr s) (\<lambda>s.
     andThen (print_mask ''[pic] master mask='' 0x21 s) (\<lambda>s.
     andThen (print_mask ''[pic] slave mask='' 0xA1 s) (\<lambda>s.
     andThen (serial_print ''[boot] pic remapped\<newline>'' s) (\<lambda>s.
     andThen (kbd_init s)
       (serial_print ''[boot] keyboard init ok\<newline>''))))))"

definition boot_clock :: "'a sched_state_scheme \<Rightarrow> 'a sched_state_scheme res" where
  "boot_clock s =
     andThen (init_tasks s) (\<lambda>s.
     andThen (serial_print ''[boot] task table ok\<newline>'' s) (\<lambda>s.
     andThen (pit_init s) (\<lambda>s.
     andThen (serial_print ''[boot] pit ok\<newline>'' s) (\<lambda>s.
     andThen (serial_print ''[waiting]\<newline>'' s) (\<lambda>s.
       Inr (sti_insn s))))))"

text \<open>\<open>new_kernel_task(..).expect(..)\<close>\<close>

definition spawn ::
    "profile \<Rightarrow> string \<Rightarrow> u64 \<Rightarrow> string \<Rightarrow> 'a task_state_scheme \<Rightarrow> 'a task_state_scheme res" where
  "spawn pr nm entry msg s =
     andThen (new_kernel_task pr (asc nm) entry s) (\<lambda>(r, s). case r of None \<Rightarrow> Inl (Panic msg) | Some p \<Rightarrow> Inr s)"

definition create_tasks ::
    "profile \<Rightarrow> u64 \<Rightarrow> u64 \<Rightarrow> u64 \<Rightarrow> 'a task_state_scheme \<Rightarrow> 'a task_state_scheme res" where
  "create_tasks pr task_a task_b run_shell s =
     andThen (spawn pr ''task_a'' task_a ''failed to create task_a'' s) (\<lambda>s.
     andThen (spawn pr ''task_b'' task_b ''failed to create task_b'' s) (\<lambda>s.
     andThen (spawn pr ''shell'' run_shell ''failed to create shell task'' s) (\<lambda>s.
     andThen (serial_print ''[boot] tasks created\<newline>'' s) (\<lambda>s.
     andThen (dump_tasks pr s) (\<lambda>s.
       serial_print ''[boot] entering idle\<newline>'' s)))))"

definition boot_tasks ::
    "profile \<Rightarrow> u64 \<Rightarrow> u64 \<Rightarrow> u64 \<Rightarrow> 'a task_state_scheme \<Rightarrow> 'a task_state_scheme res" where
  "boot_tasks pr task_a task_b run_shell s =
     andThen (serial_print ''[boot] interrupts enabled\<newline>'' s) (create_tasks pr task_a task_b run_shell)"

section \<open>What the parts leave alone\<close>

lemma set_free_more:
  "set_free p s = Inr s' \<Longrightarrow> pmm_state.more s' = pmm_state.more s \<and> dev_in s' = dev_in s \<and> io_log s' = io_log s \<and> bitmap_len s' = bitmap_len s"
  by (auto simp: set_free_def bm_write_def Let_def split: if_splits elim!: andThen_InrE)

lemma free_range_more:
  "free_range pr bp be n p s = Inr s' \<Longrightarrow>
     pmm_state.more s' = pmm_state.more s \<and> dev_in s' = dev_in s \<and> io_log s' = io_log s \<and> bitmap_len s' = bitmap_len s"
proof (induction n arbitrary: p s)
  case (Suc n)
  show ?case
  proof (cases "\<exists>s1. set_free p s = Inr s1 \<and> (\<exists>fc up. free_range pr bp be n (Suc p) (s1\<lparr>free_count := fc, usable_page := up\<rparr>) = Inr s')")
    case True
    then show ?thesis using Suc.IH set_free_more by fastforce
  next
    case False
    then have "free_range pr bp be n (Suc p) s = Inr s'"
      using Suc.prems by (auto split: if_splits elim!: andThen_InrE)
    then show ?thesis by (rule Suc.IH)
  qed
qed simp

lemma free_regions_more:
  "free_regions pr u bp be es s = Inr s' \<Longrightarrow>
     pmm_state.more s' = pmm_state.more s \<and> dev_in s' = dev_in s \<and> io_log s' = io_log s \<and> bitmap_len s' = bitmap_len s"
proof (induction es arbitrary: s)
  case (Cons e es)
  show ?case
  proof (cases "entry_type e = u")
    case True
    then obtain n p s1 where "free_range pr bp be n p s = Inr s1" "free_regions pr u bp be es s1 = Inr s'"
      using Cons.prems by (auto simp: Let_def elim!: andThen_InrE)
    then show ?thesis using Cons.IH free_range_more by metis
  qed (use Cons in simp)
qed simp

lemma init_pmm_more:
  assumes "init_pmm pr u (Some es) h s = Inr s'" and mm: "memmap_ok u es" "memmap_end es + PAGE_SIZE < usize_lim"
    and bp: "find_bitmap_region pr u (init_bytes es) es = Inr bp"
  shows "pmm_state.more s' = pmm_state.more s" "dev_in s' = dev_in s" "io_log s' = io_log s" "bitmap_len s' = init_bytes es"
proof -
  obtain be virt where "free_regions pr u bp be es (blank_bitmap (init_total es) virt s) = Inr s'"
    using assms(1) unfolding init_pmm_unfold [OF mm bp] by (auto elim!: andThen_InrE)
  from free_regions_more [OF this]
  show "pmm_state.more s' = pmm_state.more s" "dev_in s' = dev_in s" "io_log s' = io_log s" "bitmap_len s' = init_bytes es"
    by (simp_all add: blank_bitmap_def init_bytes_def)
qed

text \<open>Mapping \<open>n\<close> fresh pages takes at most four frames for each.\<close>

lemma map_fresh_pages_left:
  assumes "vm_inv s" "virt mod PAGE_SIZE = 0" "virt + (i + n) * PAGE_SIZE < usize_lim"
    and "small_range virt (virt + (i + n) * PAGE_SIZE) s"
    and "map_fresh_pages pr virt n i s = Inr s'"
  shows "card (free_pages s) \<le> card (free_pages s') + 4 * n"
  using assms
proof (induction n arbitrary: i s)
  case (Suc n)
  have ne: "free_pages s \<noteq> {}"
    using Suc.prems(5) vm_invD(1) [OF Suc.prems(1)] by (auto simp: alloc_page_eq)
  let ?p = "Min (free_pages s)" and ?v = "virt + i * PAGE_SIZE" and ?fl = "PTE_PRESENT OR PTE_WRITABLE OR PTE_NO_EXEC"
  let ?s = "take_page ?p s"
  have inv: "vm_inv ?s" by (rule vm_inv_take [OF Suc.prems(1) Min_free_pages [OF ne]])
  have unf: "map_fresh_pages pr virt (Suc n) i s =
      andThen (map_page pr ?v (?p * PAGE_SIZE) ?fl ?s) (map_fresh_pages pr virt n (Suc i))"
    using ne vm_invD(1) [OF Suc.prems(1)] Suc.prems(3) by (simp add: alloc_page_eq)
  have free: "card (free_pages s) = Suc (card (free_pages ?s))"
    unfolding free_pages_take [OF vm_invD(1) [OF Suc.prems(1)] free_pages_lt [OF Min_free_pages [OF ne]]]
    by (rule card_Suc_Diff1 [symmetric, OF finite_free_pages Min_free_pages [OF ne]])
  obtain s1 where 1: "map_page pr ?v (?p * PAGE_SIZE) ?fl ?s = Inr s1" "map_fresh_pages pr virt n (Suc i) s1 = Inr s'"
    using Suc.prems(5) unfolding unf by blast
  have al: "?v mod PAGE_SIZE = 0" "?p * PAGE_SIZE mod PAGE_SIZE = 0" using Suc.prems(2) by auto
  have part: "same_large s ?s" by (intro same_large_eq same_large_of same_memory) simp_all
  have "small_path s (split_indices ?v)" using Suc.prems(4) by (simp add: small_range_def)
  then have small: "small_path ?s (split_indices ?v)" by (simp only: same_large_small [OF part])
  have r: "vm_inv s1" "card (free_pages ?s) = card (free_pages s1) + missing_tables ?s (split_indices ?v)" "same_large ?s s1"
    using map_page_result [OF inv small al, of ?fl pr] unfolding map_result_def 1(1) by simp_all
  have "small_range virt (virt + (Suc i + n) * PAGE_SIZE) s1"
    using Suc.prems(4) by (simp only: small_range_same [OF same_large_trans [OF part r(3)]] add_Suc add_Suc_right)
  then have "card (free_pages s1) \<le> card (free_pages s') + 4 * n"
    by (intro Suc.IH [OF r(1) Suc.prems(2) _ _ 1(2)]) (use Suc.prems(3) in simp)
  then show ?case using r(2) free missing_tables_le [of ?s "split_indices ?v"] by simp
qed simp

lemma heap_start_facts: "HEAP_START mod PAGE_SIZE = 0" "HEAP_START + (0 + 256) * PAGE_SIZE < usize_lim"
  by (simp_all add: HEAP_START_def)

lemma kmalloc_init_boot:
  assumes inv: "vm_inv s" "heap_window s" and ok: "\<not> heap_inited s" and enough: "1024 + n \<le> card (free_pages s)"
  shows "\<exists>s'. kmalloc_init pr HEAP_START (1024 * 1024) s = Inr s' \<and> heap_inv s' \<and> heap_blocks s' [(1024 * 1024 - 24, False)] \<and>
    heap_state.more s' = heap_state.more s \<and> dev_in s' = dev_in s \<and> io_log s' = io_log s \<and> same_large s s' \<and> n \<le> card (free_pages s')"
proof -
  have "HEAP_START + 1024 * 1024 \<le> HEAP_START + HEAP_MAX_SIZE" "HEADER_SIZE + ALIGN < 1024 * 1024"
    by (simp_all add: HEAP_MAX_SIZE_def)
  note r = kmalloc_init_result [OF inv order_refl this(1) ok heap_start_facts(1) this(2), of pr]
  obtain s' where s': "kmalloc_init pr HEAP_START (1024 * 1024) s = Inr s'"
    using r enough by (cases "kmalloc_init pr HEAP_START (1024 * 1024) s") simp_all
  obtain s1 H h e where 1: "map_fresh_pages pr HEAP_START 256 0 s = Inr s1"
    and eq: "s' = s1\<lparr>headers := H, heap_head := h, heap_end := e, heap_inited := True\<rparr>"
    using s' unfolding kmalloc_init_def Let_def write_hdr_def
    by (elim andThen_InrE) (simp add: uadd_def usub_def umul_def, blast)
  have range: "small_range HEAP_START (HEAP_START + (0 + 256) * PAGE_SIZE) s"
    by (rule small_range_sub [OF inv(2) [unfolded heap_window_def]]) (simp_all add: HEAP_MAX_SIZE_def)
  have om: "only_maps s s1" using map_fresh_pages_result [OF inv(1) heap_start_facts range, of pr] by (simp add: 1)
  then have f: "vmm_state.more s1 = vmm_state.more s" "dev_in s1 = dev_in s" "io_log s1 = io_log s"
    by (simp_all add: only_maps_def frame_only_def)
  have "free_pages s' = free_pages s1" by (simp add: eq free_pages_def)
  then have "n \<le> card (free_pages s')" using map_fresh_pages_left [OF inv(1) heap_start_facts range 1] enough by simp
  moreover have "heap_state.more s1 = heap_state.more s" using f(1) by (cases s; cases s1) simp
  then have "heap_state.more s' = heap_state.more s" "dev_in s' = dev_in s" "io_log s' = io_log s"
    using f by (simp_all add: eq)
  moreover have "vm_part s' = vm_part s1" by (simp add: eq vm_part_def)
  then have "same_large s s'"
    using om unfolding only_maps_def by (metis same_large_trans same_large_eq vm_part_cong(7))
  ultimately show ?thesis using r s' by simp
qed

section \<open>The memory\<close>

text \<open>The statics as they are linked, on a machine whose serial port works.\<close>

definition linked :: "'a sched_state_scheme \<Rightarrow> bool" where
  "linked s \<longleftrightarrow> free_count s = 0 \<and> usable_page s = 0 \<and> \<not> heap_inited s \<and> length (idt s) = 256 \<and>
     irq_handles s = replicate 16 None \<and> global_keyboard s = keyboard_new \<and> tasks s = initial_tasks \<and> \<not> task_lock s \<and>
     ticks_on_current s = 0 \<and> serial_good s"

text \<open>
  What the boot loader promises: the memory map's form, a direct map that fits the address space, and page
  tables that lie outside the memory it calls usable and form a tree, whose leaves may be large pages anywhere but
  in the part of the address space the kernel maps page by page: the heap's window and the local APIC's page.
\<close>

definition loader_ok :: "nat \<Rightarrow> memmap_entry list \<Rightarrow> nat \<Rightarrow> 'a vmm_state_scheme \<Rightarrow> bool" where
  "loader_ok u es off s \<longleftrightarrow> memmap_ok u es \<and> memmap_end es + off + PAGE_SIZE < usize_lim \<and> init_total es \<le> 2 ^ 40 \<and>
     off + init_total es * PAGE_SIZE < usize_lim \<and>
     (let s = s\<lparr>hhdm_offset := off\<rparr> in
        heap_window s \<and> small_path s (split_indices LAPIC_VIRT) \<and>
        (\<forall>is t. table_path is \<and> tab s is = Some t \<longrightarrow> t div PAGE_SIZE \<notin> usable_pages u es \<and> t + PAGE_SIZE + off \<le> usize_lim) \<and>
        (\<forall>is js t. table_path is \<and> table_path js \<and> tab s is = Some t \<and> tab s js = Some t \<longrightarrow> is = js))"

text \<open>The frames the allocator starts with when its bitmap lies at \<open>bp\<close>.\<close>

definition boot_frames :: "nat \<Rightarrow> memmap_entry list \<Rightarrow> nat \<Rightarrow> nat set" where
  "boot_frames u es bp = {p \<in> usable_pages u es. 0x100000 \<le> p * PAGE_SIZE \<and>
     \<not> (bp div PAGE_SIZE \<le> p \<and> p * PAGE_SIZE < bp + init_bytes es)}"

lemma print_ok: "serial_good s \<Longrightarrow> \<exists>l. serial_print str s = Inr (s\<lparr>io_log := l\<rparr>)"
  by (rule printsD [OF prints_basic(1)])

lemma serial_init_log: "\<exists>l. serial_init s = s\<lparr>io_log := l\<rparr>"
  by (auto simp: serial_init_def outb_def)

lemma walk_more:
  assumes "vmm_state.more s' = vmm_state.more s" "hhdm_offset s' = hhdm_offset s" "cr3 s' = cr3 s" "cells s' = cells s"
  shows "tab s' = tab s" "large_of s' = large_of s"
proof -
  have e: "ent s' = ent s" using assms by (simp add: ent_def read_cell_def fun_eq_iff)
  then have "descend s' t is = descend s t is" for t "is" by (induction "is" arbitrary: t) simp_all
  then show t: "tab s' = tab s" using assms(3) by (simp add: tab_def root_def fun_eq_iff)
  show "large_of s' = large_of s" by (rule same_large_of [OF e t])
qed

lemma pmm_more_fields:
  fixes s s' :: "'a vmm_state_scheme"
  assumes "pmm_state.more s' = pmm_state.more s"
  shows "hhdm_offset s' = hhdm_offset s" "cr3 s' = cr3 s" "cells s' = cells s" "vmm_state.more s' = vmm_state.more s"
  using assms by (cases s; cases s'; simp)+

lemma vm_inv_start:
  assumes ok: "loader_ok u es off s" and good: "init_good u es bp s1" and bl: "bitmap_len s1 = init_bytes es"
    and more: "pmm_state.more s1 = pmm_state.more (s\<lparr>hhdm_offset := off\<rparr>)"
  shows "vm_inv s1" "free_pages s1 = boot_frames u es bp" "heap_window s1" "small_path s1 (split_indices LAPIC_VIRT)"
proof -
  have f: "hhdm_offset s1 = off" "cr3 s1 = cr3 s" "cells s1 = cells s" using pmm_more_fields [OF more] by simp_all
  have t: "tab s1 = tab (s\<lparr>hhdm_offset := off\<rparr>)" "large_of s1 = large_of (s\<lparr>hhdm_offset := off\<rparr>)"
    using walk_more pmm_more_fields [OF more] by blast+
  note lg = same_large_eq [OF t(2)]
  show "heap_window s1" "small_path s1 (split_indices LAPIC_VIRT)"
    unfolding heap_window_def small_range_same [OF lg] same_large_small [OF lg]
    using ok by (simp_all only: loader_ok_def Let_def heap_window_def)
  show fr: "free_pages s1 = boot_frames u es bp"
    using good unfolding init_good_def boot_frames_def bl by blast
  have "t \<notin> avail_frames s1" if "t div PAGE_SIZE \<notin> usable_pages u es" for t
    using that unfolding avail_frames_def fr boot_frames_def by auto
  then show "vm_inv s1"
    using ok good unfolding vm_inv_def t(1) loader_ok_def f init_good_def Let_def by auto
qed

lemma boot_memory_ok:
  fixes s :: "'a sched_state_scheme"
  assumes s: "linked s" and ok: "loader_ok u es off s" and bp: "find_bitmap_region pr u (init_bytes es) es = Inr bp" "bp \<noteq> 0"
    and enough: "1024 + n \<le> card (boot_frames u es bp)"
  shows "\<exists>s'. boot_memory pr True (Some off) u (Some es) s = Inr s' \<and> heap_inv s' \<and> heap_blocks s' [(1024 * 1024 - 24, False)] \<and>
    heap_state.more s' = heap_state.more s \<and> dev_in s' = dev_in s \<and> small_path s' (split_indices LAPIC_VIRT) \<and>
    n \<le> card (free_pages s')"
proof -
  have lim: "memmap_ok u es" "memmap_end es + off + PAGE_SIZE < usize_lim" "memmap_end es + PAGE_SIZE < usize_lim"
    using ok by (simp_all add: loader_ok_def)
  have g: "serial_good (s\<lparr>io_log := l\<rparr>)" for l using s by (simp add: linked_def)
  obtain l0 where l0: "serial_init s = s\<lparr>io_log := l0\<rparr>" using serial_init_log by blast
  obtain l1 where l1: "serial_print ''\<newline>[boot] serial ok\<newline>'' (s\<lparr>io_log := l0\<rparr>) = Inr (s\<lparr>io_log := l1\<rparr>)"
    using print_ok [OF g] by fastforce
  obtain l2 where l2: "serial_print ''[boot] limine revision ok\<newline>'' (s\<lparr>io_log := l1\<rparr>) = Inr (s\<lparr>io_log := l2\<rparr>)"
    using print_ok [OF g] by fastforce
  let ?s = "s\<lparr>hhdm_offset := off\<rparr>"
  obtain l3 where l3: "serial_print ''[boot] vmm ok\<newline>'' (s\<lparr>io_log := l2, hhdm_offset := off\<rparr>) = Inr (?s\<lparr>io_log := l3\<rparr>)"
    using print_ok [of "s\<lparr>io_log := l2, hhdm_offset := off\<rparr>"] g by fastforce
  let ?s3 = "?s\<lparr>io_log := l3\<rparr>"
  have "free_count ?s3 = 0" "usable_page ?s3 = 0" using s by (simp_all add: linked_def)
  note r = init_pmm_result [OF lim(1) this lim(2), of pr]
  have "memmap_end es \<noteq> 0"
  proof
    assume "memmap_end es = 0"
    then have "e \<in> set es \<Longrightarrow> base e + len_bytes e = 0" for e using memmap_end_ge [of e es] by simp
    then have "usable_pages u es = {}" by (auto simp: usable_pages_def region_pages_def)
    then show False using enough by (simp add: boot_frames_def)
  qed
  then obtain s1 where s1: "init_pmm pr u (Some es) off ?s3 = Inr s1" "init_good u es bp s1"
    using r bp by (auto split: sum.splits)
  note m = init_pmm_more [OF s1(1) lim(1,3) bp(1)]
  have v: "vm_inv s1" "free_pages s1 = boot_frames u es bp" "heap_window s1" "small_path s1 (split_indices LAPIC_VIRT)"
    by (rule vm_inv_start [OF ok s1(2) m(4)]; simp add: m(1))+
  have dev: "dev_in s1 = dev_in s" and more: "vmm_state.more s1 = vmm_state.more s"
    using m(2) pmm_more_fields(4) [of s1 ?s3] m(1) by simp_all
  have g1: "serial_good (s1\<lparr>io_log := l\<rparr>)" "serial_good s1" for l using g dev by simp_all
  have count: "get_free_page_count s1 < usize_lim"
    using free_le_total [OF vm_invD(1) [OF v(1)]] vm_invD(3) [OF v(1)] by (simp add: get_free_page_count_def)
  obtain l4 where l4: "serial_print ''[boot] pmm ok, free pages: '' s1 = Inr (s1\<lparr>io_log := l4\<rparr>)"
    using print_ok [OF g1(2)] by blast
  have c4: "get_free_page_count (s1\<lparr>io_log := l4\<rparr>) = get_free_page_count s1" by (simp add: get_free_page_count_def)
  obtain l5 where l5: "serial_print_usize pr (get_free_page_count s1) (s1\<lparr>io_log := l4\<rparr>) = Inr (s1\<lparr>io_log := l5\<rparr>)"
    using printsD [OF prints_basic(3) [OF count] g1(1)] by fastforce
  obtain l6 where l6: "serial_print ''\<newline>'' (s1\<lparr>io_log := l5\<rparr>) = Inr (s1\<lparr>io_log := l6\<rparr>)"
    using print_ok [OF g1(1)] by fastforce
  let ?s6 = "s1\<lparr>io_log := l6\<rparr>"
  have part: "vm_part ?s6 = vm_part s1" by (simp add: vm_part_def)
  have h: "vm_inv ?s6" "1024 + n \<le> card (free_pages ?s6)" "heap_window ?s6" "small_path ?s6 (split_indices LAPIC_VIRT)"
    using v enough by (simp_all only: vm_part_cong [OF part] heap_window_def small_range_vm_part [OF part])
  have "heap_inited s1 = heap_inited s" using more by (cases s; cases s1) simp
  then have "\<not> heap_inited ?s6" using s by (simp add: linked_def)
  then obtain s7 where 7: "kmalloc_init pr HEAP_START (1024 * 1024) ?s6 = Inr s7" "heap_inv s7"
    "heap_blocks s7 [(1024 * 1024 - 24, False)]" "heap_state.more s7 = heap_state.more ?s6" "dev_in s7 = dev_in ?s6"
    "n \<le> card (free_pages s7)" "same_large ?s6 s7"
    using kmalloc_init_boot [OF h(1,3) _ h(2), of pr] by blast
  have g7: "serial_good s7" using g1(2) 7(5) by simp
  obtain l8 where l8: "serial_print ''[boot] heap ok\<newline>'' s7 = Inr (s7\<lparr>io_log := l8\<rparr>)"
    using print_ok [OF g7] by blast
  have run: "boot_memory pr True (Some off) u (Some es) s = Inr (s7\<lparr>io_log := l8\<rparr>)"
    using s1(1) by (simp add: boot_memory_def l0 l1 l2 init_vmm_def l3 l4 c4 l5 l6 7(1) [simplified] l8 ensure_def)
  have part8: "vm_part (s7\<lparr>io_log := l8\<rparr>) = vm_part s7" by (simp add: vm_part_def)
  have "heap_inv (s7\<lparr>io_log := l8\<rparr>)" using 7(2)
    by (simp add: heap_inv_def heap_window_def small_range_vm_part [OF part8] heap_blocks_def mapped_range_def vm_part_cong [OF part8])
  moreover have "heap_blocks (s7\<lparr>io_log := l8\<rparr>) [(1024 * 1024 - 24, False)]" using 7(3) by (simp add: heap_blocks_def)
  moreover have "heap_state.more s7 = heap_state.more s" using 7(4) more by (cases s; cases s1; cases s7) simp
  moreover have "n \<le> card (free_pages (s7\<lparr>io_log := l8\<rparr>))" using 7(6) by (simp only: vm_part_cong [OF part8])
  moreover have "small_path (s7\<lparr>io_log := l8\<rparr>) (split_indices LAPIC_VIRT)"
    using h(4) by (simp only: vm_part_cong(8) [OF part8] same_large_small [OF 7(7)])
  ultimately show ?thesis using run 7(5) dev by simp
qed

section \<open>Interrupts and the task table\<close>

definition chips :: "io_event list \<Rightarrow> (chip \<Rightarrow> chip) \<times> (chip \<Rightarrow> chip)" where
  "chips l = (master l, slave l)"

text \<open>A message changes the bus history only, and none of it reaches the interrupt controllers.\<close>

lemma say:
  assumes "prints m" and "serial_good s"
  obtains l where "m s = Inr (s\<lparr>io_log := l\<rparr>)" "chips l = chips (io_log s)"
proof -
  obtain bs where "m s = Inr (s\<lparr>io_log := tx_log (dev_in s) (io_log s) bs\<rparr>)"
    using assms unfolding prints_def by blast
  moreover have "chips (tx_log (dev_in s) (io_log s) bs) = chips (io_log s)" by (simp add: chips_def fun_eq_iff)
  ultimately show ?thesis using that by blast
qed

lemma chips_extend: "chips l = (\<lambda>c. c, \<lambda>c. c) \<Longrightarrow> chips (k @ l) = chips k"
  by (simp add: chips_def fun_eq_iff)

lemma chips_reads: "\<forall>e \<in> set l. \<exists>p v. e = In p v \<Longrightarrow> chips l = (\<lambda>c. c, \<lambda>c. c)"
  by (induction l) (auto simp: chips_def fun_eq_iff chip_step_def)

lemma chips_others [simp]:
  "chips [Out 0x64 v] = (\<lambda>c. c, \<lambda>c. c)" "chips [Out 0x60 v] = (\<lambda>c. c, \<lambda>c. c)" "chips [In p v] = (\<lambda>c. c, \<lambda>c. c)"
  "chips [Out 0x43 x, Out 0x40 y, Out 0x40 z] = (\<lambda>c. c, \<lambda>c. c)"
  by (simp_all add: chips_def fun_eq_iff chip_step_def)

lemma print_mask_ok:
  assumes "serial_good s"
  obtains l where "print_mask msg p s = Inr (s\<lparr>io_log := l\<rparr>)" "chips l = chips (io_log s)"
proof -
  have g: "serial_good (s\<lparr>io_log := k\<rparr>)" for k using assms by simp
  obtain l1 where 1: "serial_print msg s = Inr (s\<lparr>io_log := l1\<rparr>)" "chips l1 = chips (io_log s)"
    by (rule say [OF prints_basic(1) assms])
  let ?v = "dev_in s l1 p" and ?l2 = "l1 @ [In p (dev_in s l1 p)]"
  obtain l3 where 3: "serial_print_hex64 (ucast ?v) (s\<lparr>io_log := ?l2\<rparr>) = Inr (s\<lparr>io_log := l3\<rparr>)" "chips l3 = chips ?l2"
    using say [OF prints_basic(4) g [of ?l2], of "ucast ?v"] by auto
  obtain l4 where 4: "serial_print ''\<newline>'' (s\<lparr>io_log := l3\<rparr>) = Inr (s\<lparr>io_log := l4\<rparr>)" "chips l4 = chips l3"
    using say [OF prints_basic(1) g [of l3], of "''\<newline>''"] by auto
  have "chips ?l2 = chips l1" by (rule chips_extend) simp
  then show ?thesis using that [of l4] 1 3 4 by (simp add: print_mask_def inb_def Let_def)
qed

lemma kbd_init_boot:
  obtains l where "kbd_init s = Inr (s\<lparr>io_log := l, irq_handles := (irq_handles s)[1 := Some On_irq1]\<rparr>)"
    "chips l = chips (io_log s)"
proof -
  let ?s1 = "outb 0x64 0x20 s"
  obtain l1 where 1: "wait_read 100000 ?s1 = ?s1\<lparr>io_log := io_log ?s1 @ l1\<rparr>" "\<forall>e \<in> set l1. \<exists>v. e = In 0x64 v"
    using wait_read_log by blast
  let ?s2 = "?s1\<lparr>io_log := io_log ?s1 @ l1\<rparr>"
  let ?ccb = "dev_in s (io_log ?s2) 0x60"
  let ?s3 = "?s2\<lparr>io_log := io_log ?s2 @ [In 0x60 ?ccb]\<rparr>"
  obtain l2 where 2: "wait_write 100000 ?s3 = ?s3\<lparr>io_log := io_log ?s3 @ l2\<rparr>" "\<forall>e \<in> set l2. \<exists>v. e = In 0x64 v"
    using wait_write_log by blast
  let ?s4 = "outb 0x64 0x60 (?s3\<lparr>io_log := io_log ?s3 @ l2\<rparr>)"
  obtain l3 where 3: "wait_write 100000 ?s4 = ?s4\<lparr>io_log := io_log ?s4 @ l3\<rparr>" "\<forall>e \<in> set l3. \<exists>v. e = In 0x64 v"
    using wait_write_log by blast
  let ?l = "((((((io_log s @ [Out 0x64 0x20]) @ l1) @ [In 0x60 ?ccb]) @ l2) @ [Out 0x64 0x60]) @ l3) @
    [Out 0x60 ((?ccb OR 1) AND NOT 0x10)]"
  have r: "chips l1 = (\<lambda>c. c, \<lambda>c. c)" "chips l2 = (\<lambda>c. c, \<lambda>c. c)" "chips l3 = (\<lambda>c. c, \<lambda>c. c)"
    using 1(2) 2(2) 3(2) by (blast intro: chips_reads)+
  have "kbd_init s = Inr (s\<lparr>io_log := ?l, irq_handles := (irq_handles s)[1 := Some On_irq1]\<rparr>)"
    using 1(1) 2(1) 3(1) by (simp add: kbd_init_def Let_def inb_def outb_def register_irq_handler_def)
  moreover have "chips ?l = chips (io_log s)" by (simp only: chips_extend r chips_others)
  ultimately show ?thesis using that by blast
qed

definition kept where
  "kept s = (headers s, heap_head s, heap_end s, heap_inited s, idt s, idtr s, irq_handles s, global_keyboard s,
     (tasks s, task_lock s, rflags_reg s, ticks_on_current s, dev_in s))"

lemma kept_frame: "frame_only s s' \<Longrightarrow> kept s' = kept s" for s s' :: "'a sched_state_scheme"
  by (cases s; cases s') (simp add: kept_def frame_only_def)

lemma heap_inv_kept:
  fixes s s' :: "'a sched_state_scheme"
  assumes "heap_inv s" and "kept s' = kept s" and "vm_inv s'" and "same_large s s'"
    and "\<And>v. pte_of s (split_indices v) \<noteq> None \<Longrightarrow> pte_of s' (split_indices v) \<noteq> None"
  shows "heap_inv s'" "heap_blocks s bs \<Longrightarrow> heap_blocks s' bs"
proof -
  have f: "headers s' = headers s" "heap_head s' = heap_head s" "heap_end s' = heap_end s" "heap_inited s' = heap_inited s"
    using assms(2) by (simp_all add: kept_def)
  show "heap_blocks s bs \<Longrightarrow> heap_blocks s' bs" by (simp add: heap_blocks_def f)
  have "heap_window s'" using assms(1) by (simp add: heap_inv_def heap_window_def small_range_same [OF assms(4)])
  then show "heap_inv s'" using assms(1,3,5) by (auto simp: heap_inv_def heap_blocks_def mapped_range_def f)
qed

lemma enable_lapic_boot:
  fixes s :: "'a sys_state_scheme"
  assumes inv: "heap_inv s" and small: "small_path s (split_indices LAPIC_VIRT)"
    and good: "serial_good s" and low: "lapic_page s < 2 ^ 32" and enough: "3 + n \<le> card (free_pages s)"
  shows "\<exists>s'. enable_lapic_pic_mode pr s = Inr s' \<and> heap_inv s' \<and> kept s' = kept s \<and> n \<le> card (free_pages s') \<and>
    (\<forall>bs. heap_blocks s bs \<longrightarrow> heap_blocks s' bs) \<and> chips (io_log s') = chips (io_log s) \<and>
    get_phys_addr pr LAPIC_VIRT s' = Inr (Some (lapic_page s))"
proof -
  have vm: "vm_inv s" using inv by (simp add: heap_inv_def)
  have few: "missing_tables s (split_indices LAPIC_VIRT) \<le> card (free_pages s)"
    using missing_tables_le [of s "split_indices LAPIC_VIRT"] enough by linarith
  obtain s' bs where 1: "enable_lapic_pic_mode pr s = Inr s'" "vm_inv s'" "io_log s' = tx_log (dev_in s) (io_log s) bs"
    "get_phys_addr pr LAPIC_VIRT s' = Inr (Some (lapic_page s))"
    using enable_lapic_eq [OF vm small good low few, of pr] by blast
  let ?fl = "PTE_PRESENT OR PTE_WRITABLE OR PTE_NO_CACHE" and ?p = "unat (read_msr APIC_BASE_MSR s AND 0xFFFFF000)"
  obtain s1 L s2 where 2: "map_page pr LAPIC_VIRT ?p ?fl s = Inr s1" "s2 = s1\<lparr>lapic := L\<rparr>"
    "serial_print ''[lapic] LINT0 set to ExtInT mode\<newline>'' s2 = Inr s'"
    using 1(1) by (auto simp: enable_lapic_pic_mode_def Let_def write_lapic_def elim!: andThen_InrE)
  have al: "LAPIC_VIRT mod PAGE_SIZE = 0" "?p mod PAGE_SIZE = 0"
    by (simp_all add: LAPIC_VIRT_def apic_phys_eq [OF low]) (simp add: lapic_page_def)
  have r: "mapped s (split_indices LAPIC_VIRT) (Some (pte_bits ?p ?fl)) s1" "frame_only s s1"
    "card (free_pages s) = card (free_pages s1) + missing_tables s (split_indices LAPIC_VIRT)" "same_large s s1"
    using map_page_result [OF vm small al, of ?fl pr] unfolding map_result_def 2(1) by simp_all
  have k1: "kept s1 = kept s" by (rule kept_frame [OF r(2)])
  then have "serial_good s2" using good by (simp add: 2(2) kept_def)
  then have "\<exists>l. serial_print ''[lapic] LINT0 set to ExtInT mode\<newline>'' s2 = Inr (s2\<lparr>io_log := l\<rparr>)" by (rule print_ok)
  then obtain l where s': "s' = s2\<lparr>io_log := l\<rparr>" using 2(3) by auto
  have part: "vm_part s' = vm_part s1" by (simp add: s' 2(2) vm_part_def)
  have k: "kept s' = kept s" using k1 by (simp add: s' 2(2) kept_def)
  have pte: "pte_of s' (split_indices v) \<noteq> None" if "pte_of s (split_indices v) \<noteq> None" for v
    using r(1) that unfolding mapped_def vm_part_cong(2) [OF part] by auto
  have "n \<le> card (free_pages s')"
    using r(3) missing_tables_le [of s "split_indices LAPIC_VIRT"] enough by (simp add: vm_part_cong [OF part])
  moreover have "chips (io_log s') = chips (io_log s)" by (simp add: 1(3) chips_def fun_eq_iff)
  moreover have "same_large s s'" by (rule same_large_trans [OF r(4) same_large_eq [OF vm_part_cong(7) [OF part]]])
  ultimately show ?thesis using 1(1,4) k heap_inv_kept [OF inv k 1(2) _ pte] by blast
qed

definition remapped :: "(chip \<Rightarrow> chip) \<times> (chip \<Rightarrow> chip)" where
  "remapped = (\<lambda>c. \<lparr>stage = 0, single = False, icw4 = True, vec_base = 32, cascade = 4, mode_8086 = True, imr = 0xfc, in_service = {}\<rparr>,
     \<lambda>c. \<lparr>stage = 0, single = False, icw4 = True, vec_base = 40, cascade = 2, mode_8086 = True, imr = 0xff, in_service = {}\<rparr>)"

lemma heap_inv_cong:
  fixes s s' :: "'a heap_state_scheme"
  assumes "vm_part s' = vm_part s" "headers s' = headers s" "heap_head s' = heap_head s" "heap_end s' = heap_end s"
    "heap_inited s' = heap_inited s"
  shows "heap_inv s' = heap_inv s" "heap_blocks s' bs = heap_blocks s bs"
  using assms(2-5)
  by (simp_all add: heap_inv_def heap_window_def small_range_vm_part [OF assms(1)] heap_blocks_def mapped_range_def vm_part_cong [OF assms(1)])

lemma remap_boot:
  fixes s :: "'a sys_state_scheme"
  assumes inv: "heap_inv s" and small: "small_path s (split_indices LAPIC_VIRT)"
    and good: "serial_good s" and low: "lapic_page s < 2 ^ 32" and enough: "3 + n \<le> card (free_pages s)"
  shows "\<exists>s'. remap pr s = Inr s' \<and> heap_inv s' \<and> kept s' = kept s \<and> n \<le> card (free_pages s') \<and>
    (\<forall>bs. heap_blocks s bs \<longrightarrow> heap_blocks s' bs) \<and> chips (io_log s') = remapped \<and>
    get_phys_addr pr LAPIC_VIRT s' = Inr (Some (lapic_page s))"
proof -
  obtain m1 m2 where run: "remap pr s = enable_lapic_pic_mode pr (s\<lparr>io_log := io_log s @ remap_events m1 m2\<rparr>)"
    using remap_eq by blast
  let ?s = "s\<lparr>io_log := io_log s @ remap_events m1 m2\<rparr>"
  have part: "vm_part ?s = vm_part s" by (simp add: vm_part_def)
  have h: "heap_inv ?s" "\<And>bs. heap_blocks ?s bs = heap_blocks s bs" "serial_good ?s" "lapic_page ?s = lapic_page s"
    "3 + n \<le> card (free_pages ?s)" "kept ?s = kept s"
    using inv good enough heap_inv_cong [OF part] by (simp_all add: vm_part_cong [OF part] lapic_page_def kept_def)
  have sm: "small_path ?s (split_indices LAPIC_VIRT)" using small by (simp only: vm_part_cong(8) [OF part])
  have "chips (io_log ?s) = remapped" by (simp add: chips_def remapped_def remapped_chips fun_eq_iff)
  then show ?thesis using enable_lapic_boot [OF h(1) sm h(3) _ h(5), of pr] low unfolding run h(2,4,6) by simp
qed

lemma init_tasks_boot:
  fixes s :: "'a sched_state_scheme"
  assumes vm: "vm_inv s" and g: "serial_good s" and t: "tasks s = initial_tasks" "\<not> task_lock s" "ticks_on_current s = 0"
  shows "\<exists>ts l. init_tasks s = Inr (s\<lparr>tasks := ts, current := 0, next_pid := 1, io_log := l\<rparr>) \<and> chips l = chips (io_log s) \<and>
    sched_inv (s\<lparr>tasks := ts, current := 0, next_pid := 1, io_log := l\<rparr>) \<and>
    (\<forall>i < 32. tstate (ts ! i) = (if i = 0 then Running else Empty)) \<and> (\<forall>i > 0. ts ! i = initial_tasks ! i)"
proof -
  obtain s' where s': "init_tasks s = Inr s'" "sched_inv s'" "\<forall>i < 32. tstate (tasks s' ! i) = (if i = 0 then Running else Empty)"
    using init_tasks_inv [OF vm g t] by blast
  obtain ti s2 where 2: "s2 = s\<lparr>tasks := (tasks s)[0 := ti], current := 0, next_pid := 1\<rparr>"
    "serial_print ''[task] idle task initialised (slot 0)\<newline>'' s2 = Inr s'"
    using s'(1) by (auto simp: init_tasks_def Let_def set_task_def elim!: andThen_InrE)
  have g2: "serial_good s2" using g by (simp add: 2(1))
  obtain l where l: "serial_print ''[task] idle task initialised (slot 0)\<newline>'' s2 = Inr (s2\<lparr>io_log := l\<rparr>)" "chips l = chips (io_log s2)"
    by (rule say [OF prints_basic(1) g2])
  then have "s' = s\<lparr>tasks := (tasks s)[0 := ti], current := 0, next_pid := 1, io_log := l\<rparr>" using 2 by simp
  then show ?thesis using s' l(2) 2(1) t(1) by (intro exI [of _ "(tasks s)[0 := ti]"] exI [of _ l]) simp
qed

lemma sched_inv_same:
  fixes s s' :: "'a sched_state_scheme"
  assumes "sched_inv s" "vm_part s' = vm_part s" "tasks s' = tasks s" "dev_in s' = dev_in s" "task_lock s' = task_lock s"
    "next_pid s' = next_pid s" "current s' = current s" "ticks_on_current s' = ticks_on_current s"
  shows "sched_inv s'"
  using sched_invD(7) [OF assms(1)] assms by (intro sched_inv_stays [OF assms(1) _ assms(2)]) simp_all

lemma boot_devices_ok:
  fixes s :: "'a sys_state_scheme"
  assumes inv: "heap_inv s" and small: "small_path s (split_indices LAPIC_VIRT)"
    and bs: "heap_blocks s bs" and g: "serial_good s" and low: "lapic_page s < 2 ^ 32"
    and enough: "3 + n \<le> card (free_pages s)" and irqs: "irq_handles s = replicate 16 None"
  shows "\<exists>s'. boot_devices pr stub idt_base s = Inr s' \<and> heap_inv s' \<and> heap_blocks s' bs \<and> n \<le> card (free_pages s') \<and>
    chips (io_log s') = remapped \<and> kept s' = kept (init_idt stub idt_base s\<lparr>irq_handles := (replicate 16 None)[1 := Some On_irq1]\<rparr>)"
proof -
  define tbl where "tbl = idt (init_idt stub idt_base s)"
  let ?i = "s\<lparr>idt := tbl, idtr := (4095, idt_base)\<rparr>"
  have i: "init_idt stub idt_base s = ?i" by (simp add: tbl_def init_idt_def Let_def)
  have gi: "serial_good ?i" using g by simp
  obtain l1 where 1: "serial_print ''[boot] idt ok\<newline>'' ?i = Inr (?i\<lparr>io_log := l1\<rparr>)"
    by (rule say [OF prints_basic(1) gi])
  let ?s1 = "?i\<lparr>io_log := l1\<rparr>"
  have part1: "vm_part ?s1 = vm_part s" by (simp add: vm_part_def)
  have h1: "heap_inv ?s1" "heap_blocks ?s1 bs" "serial_good ?s1" "3 + n \<le> card (free_pages ?s1)" "lapic_page ?s1 < 2 ^ 32"
    using inv bs g enough low heap_inv_cong [OF part1] by (simp_all add: vm_part_cong [OF part1] lapic_page_def)
  have sm: "small_path ?s1 (split_indices LAPIC_VIRT)" using small by (simp only: vm_part_cong(8) [OF part1])
  obtain s2 where 2: "remap pr ?s1 = Inr s2" "heap_inv s2" "kept s2 = kept ?s1" "n \<le> card (free_pages s2)" "heap_blocks s2 bs"
    "chips (io_log s2) = remapped"
    using remap_boot [OF h1(1) sm h1(3,5,4), of pr] h1(2) by blast
  have f2: "dev_in s2 = dev_in s" "irq_handles s2 = replicate 16 None" using 2(3) irqs by (simp_all add: kept_def)
  have g2: "serial_good s2" "serial_good (s2\<lparr>io_log := l\<rparr>)" for l using g by (simp_all add: f2)
  obtain l3 where 3: "print_mask ''[pic] master mask='' 0x21 s2 = Inr (s2\<lparr>io_log := l3\<rparr>)" "chips l3 = remapped"
    using 2(6) by (metis print_mask_ok [OF g2(1)])
  obtain l4 where 4: "print_mask ''[pic] slave mask='' 0xA1 (s2\<lparr>io_log := l3\<rparr>) = Inr (s2\<lparr>io_log := l4\<rparr>)" "chips l4 = remapped"
    using print_mask_ok [OF g2(2) [of l3], of "''[pic] slave mask=''" "0xA1"] 3(2) by auto
  obtain l5 where 5: "serial_print ''[boot] pic remapped\<newline>'' (s2\<lparr>io_log := l4\<rparr>) = Inr (s2\<lparr>io_log := l5\<rparr>)" "chips l5 = remapped"
    using say [OF prints_basic(1) g2(2) [of l4], of "''[boot] pic remapped\<newline>''"] 4(2) by auto
  let ?h = "(irq_handles s2)[1 := Some On_irq1]"
  obtain l6 where 6: "kbd_init (s2\<lparr>io_log := l5\<rparr>) = Inr (s2\<lparr>io_log := l6, irq_handles := ?h\<rparr>)" "chips l6 = remapped"
    using kbd_init_boot [of "s2\<lparr>io_log := l5\<rparr>"] 5(2) by auto
  let ?s6 = "s2\<lparr>io_log := l6, irq_handles := ?h\<rparr>"
  have g6: "serial_good ?s6" using g2(1) by simp
  obtain l7 where 7: "serial_print ''[boot] keyboard init ok\<newline>'' ?s6 = Inr (?s6\<lparr>io_log := l7\<rparr>)" "chips l7 = remapped"
    using say [OF prints_basic(1) g6, of "''[boot] keyboard init ok\<newline>''"] 6(2) by auto
  let ?s7 = "?s6\<lparr>io_log := l7\<rparr>"
  have part7: "vm_part ?s7 = vm_part s2" by (simp add: vm_part_def)
  have "heap_inv ?s7" "heap_blocks ?s7 bs" using 2(2,5) heap_inv_cong [OF part7] by simp_all
  moreover have "n \<le> card (free_pages ?s7)" using 2(4) by (simp only: vm_part_cong [OF part7])
  moreover have "kept ?s7 = kept (init_idt stub idt_base s\<lparr>irq_handles := (replicate 16 None)[1 := Some On_irq1]\<rparr>)"
    using 2(3) irqs unfolding i by (simp add: kept_def)
  moreover have "boot_devices pr stub idt_base s = Inr ?s7"
    by (simp only: boot_devices_def i 1 2(1) 3(1) 4(1) 5(1) 6(1) 7(1) andThen.simps)
  ultimately show ?thesis using 7(2) by (intro exI [of _ ?s7]) simp
qed

lemma boot_clock_ok:
  fixes s :: "'a sched_state_scheme"
  assumes inv: "heap_inv s" and bs: "heap_blocks s bs" and g: "serial_good s" and enough: "n \<le> card (free_pages s)"
    and t: "tasks s = initial_tasks" "\<not> task_lock s" "ticks_on_current s = 0"
    and irqs: "irq_handles s = (replicate 16 None)[1 := Some On_irq1]"
  shows "\<exists>s'. boot_clock s = Inr s' \<and> heap_inv s' \<and> heap_blocks s' bs \<and> n \<le> card (free_pages s') \<and>
    sched_inv s' \<and> current s' = 0 \<and> next_pid s' = 1 \<and> (\<forall>i < 32. tstate (tasks s' ! i) = (if i = 0 then Running else Empty)) \<and>
    (\<forall>i > 0. tasks s' ! i = initial_tasks ! i) \<and> idt s' = idt s \<and> idtr s' = idtr s \<and>
    irq_handles s' = (replicate 16 None)[0 := Some On_tick, 1 := Some On_irq1] \<and> global_keyboard s' = global_keyboard s \<and>
    bit (rflags_reg s') IF_bit \<and> chips (io_log s') = chips (io_log s) \<and> dev_in s' = dev_in s"
proof -
  have "vm_inv s" using inv by (simp add: heap_inv_def)
  from init_tasks_boot [OF this g t] obtain ts l1 where 1: "init_tasks s = Inr (s\<lparr>tasks := ts, current := 0, next_pid := 1, io_log := l1\<rparr>)"
    "chips l1 = chips (io_log s)" "sched_inv (s\<lparr>tasks := ts, current := 0, next_pid := 1, io_log := l1\<rparr>)"
    "\<forall>i < 32. tstate (ts ! i) = (if i = 0 then Running else Empty)" "\<forall>i > 0. ts ! i = initial_tasks ! i" by blast
  let ?s1 = "s\<lparr>tasks := ts, current := 0, next_pid := 1, io_log := l1\<rparr>"
  have g1: "serial_good ?s1" using g by simp
  obtain l2 where 2: "serial_print ''[boot] task table ok\<newline>'' ?s1 = Inr (?s1\<lparr>io_log := l2\<rparr>)" "chips l2 = chips (io_log s)"
    using say [OF prints_basic(1) g1, of "''[boot] task table ok\<newline>''"] 1(2) by auto
  let ?h = "(irq_handles s)[0 := Some On_tick]"
  let ?l3 = "l2 @ [Out 0x43 0x36, Out 0x40 0x9b, Out 0x40 0x2e]"
  let ?s3 = "?s1\<lparr>io_log := ?l3, irq_handles := ?h\<rparr>"
  have 3: "pit_init (?s1\<lparr>io_log := l2\<rparr>) = Inr ?s3" using pit_init_eq [of "?s1\<lparr>io_log := l2\<rparr>"] irqs by simp
  have c3: "chips ?l3 = chips (io_log s)" using 2(2) by (simp add: chips_extend)
  have g3: "serial_good ?s3" using g by simp
  obtain l4 where 4: "serial_print ''[boot] pit ok\<newline>'' ?s3 = Inr (?s3\<lparr>io_log := l4\<rparr>)" "chips l4 = chips (io_log s)"
    using say [OF prints_basic(1) g3, of "''[boot] pit ok\<newline>''"] c3 by auto
  have g4: "serial_good (?s3\<lparr>io_log := l4\<rparr>)" using g by simp
  obtain l5 where 5: "serial_print ''[waiting]\<newline>'' (?s3\<lparr>io_log := l4\<rparr>) = Inr (?s3\<lparr>io_log := l5\<rparr>)" "chips l5 = chips (io_log s)"
    using say [OF prints_basic(1) g4, of "''[waiting]\<newline>''"] 4(2) by auto
  let ?s' = "sti_insn (?s3\<lparr>io_log := l5\<rparr>)"
  have run: "boot_clock s = Inr ?s'" by (simp only: boot_clock_def 1(1) 2(1) 3 4(1) 5(1) andThen.simps)
  have part: "vm_part ?s' = vm_part s" by (simp add: vm_part_def sti_insn_def)
  have "sched_inv ?s'" by (rule sched_inv_same [OF 1(3)]) (simp_all add: vm_part_def sti_insn_def)
  moreover have "heap_inv ?s'" "heap_blocks ?s' bs" using inv bs heap_inv_cong [OF part] by (simp_all add: sti_insn_def)
  moreover have "n \<le> card (free_pages ?s')" using enough by (simp only: vm_part_cong [OF part])
  moreover have "bit (sti f) IF_bit" for f by (simp add: sti_def bit_simps IF_bit_def)
  moreover have "?h = (replicate 16 None)[0 := Some On_tick, 1 := Some On_irq1]" by (simp add: irqs list_update_swap)
  ultimately show ?thesis using run 1(4,5) 5(2) by (intro exI [of _ ?s']) (simp add: sti_insn_def)
qed

section \<open>The tasks\<close>

text \<open>A computation that, from \<open>s\<close> with any bus history, only adds messages to it.\<close>

definition logs where
  "logs k s \<longleftrightarrow> (\<forall>l. \<exists>l'. k (s\<lparr>io_log := l\<rparr>) = Inr (s\<lparr>io_log := l'\<rparr>) \<and> chips l' = chips l)"

lemma logs_andThen: "logs m s \<Longrightarrow> logs k s \<Longrightarrow> logs (\<lambda>s. andThen (m s) k) s"
  unfolding logs_def by (metis andThen.simps(2))

lemma logs_prints:
  assumes "prints m" "serial_good s"
  shows "logs m s"
  unfolding logs_def
proof
  fix l
  have "serial_good (s\<lparr>io_log := l\<rparr>)" using assms(2) by simp
  from say [OF assms(1) this] obtain l' where "m (s\<lparr>io_log := l\<rparr>) = Inr (s\<lparr>io_log := l, io_log := l'\<rparr>)"
    "chips l' = chips (io_log (s\<lparr>io_log := l\<rparr>))" by blast
  then show "\<exists>l'. m (s\<lparr>io_log := l\<rparr>) = Inr (s\<lparr>io_log := l'\<rparr>) \<and> chips l' = chips l" by auto
qed

lemma dump_loop_logs:
  assumes "table_ok s" and "serial_good s" and "list_all (\<lambda>i. i < 32) is"
  shows "logs (dump_loop pr is) s"
  using assms(3)
proof (induction "is")
  case Nil
  show ?case unfolding logs_def by auto
next
  case (Cons i "is")
  let ?t = "tasks s ! i"
  have i: "i < 32" "i < usize_lim" and IH: "logs (dump_loop pr is) s" using Cons by simp_all
  have get: "get_task i (s\<lparr>io_log := l\<rparr>) = Inr ?t" for l
    using assms(1) i(1) get_task_ok [of "s\<lparr>io_log := l\<rparr>" i] by (simp add: table_ok_def)
  show ?case
  proof (cases "tstate ?t = Empty")
    case True
    then show ?thesis using IH unfolding logs_def by (simp add: get)
  next
    case False
    let ?m = "\<lambda>s. andThen (serial_print '' ['' s) (\<lambda>s. andThen (serial_print_usize pr i s) (\<lambda>s.
       andThen (serial_print ''] pid='' s) (\<lambda>s. andThen (serial_print_usize pr (unat (pid ?t)) s) (\<lambda>s.
       andThen (serial_print '' state='' s) (\<lambda>s. andThen (serial_print (state_name (tstate ?t)) s) (\<lambda>s.
       andThen (serial_print '' ticks='' s) (\<lambda>s.
       andThen (serial_print_usize pr (unat (ticks_run ?t)) s) (\<lambda>s.
       andThen (serial_print '' name='' s) (\<lambda>s.
       andThen (print_chars (takeWhile (\<lambda>b. b \<noteq> 0) (tname ?t)) s) (\<lambda>s.
         andThen (serial_print ''\<newline>'' s) (dump_loop pr is)))))))))))"
    have m: "logs ?m s"
      by (intro logs_andThen IH logs_prints [OF _ assms(2)] prints_basic prints_chars word_usize i(2))
    have step: "dump_loop pr (i # is) (s\<lparr>io_log := l\<rparr>) = ?m (s\<lparr>io_log := l\<rparr>)" for l
      by (simp only: dump_loop.simps get andThen.simps False if_False)
    from m show ?thesis unfolding logs_def step .
  qed
qed

lemma dump_tasks_logs:
  assumes "table_ok s" and "serial_good s"
  shows "logs (dump_tasks pr) s"
proof -
  have "logs (dump_loop pr [0..<MAX_TASKS]) s"
    by (rule dump_loop_logs [OF assms]) (simp add: list_all_iff del: upt_Suc)
  then show ?thesis unfolding dump_tasks_def [abs_def]
    by (intro logs_andThen logs_prints [OF prints_basic(1) assms(2)])
qed

lemma card_avail: "card (avail_frames s) = card (free_pages s)"
  unfolding avail_frames_def by (rule card_image) (simp add: inj_on_def)

lemma created_heap:
  assumes "created slot nm entry s s'" and "heap_inv s" and "heap_blocks s bs"
  shows "heap_inv s'" "heap_blocks s' bs"
proof -
  have s': "s' = s\<lparr>io_log := io_log s', bitmap := bitmap s', free_count := free_count s', cells := cells s',
       tasks := tasks s', next_pid := next_pid s'\<rparr>"
    and pte: "pte_of s' (split_indices v) = pte_of s (split_indices v)" and vm: "vm_inv s'" and lg: "same_large s s'" for v
    using assms(1) unfolding created_def by blast+
  have f: "headers s' = headers s" "heap_head s' = heap_head s" "heap_end s' = heap_end s" "heap_inited s' = heap_inited s"
    by (subst s', simp)+
  show "heap_blocks s' bs" using assms(3) by (simp add: heap_blocks_def f)
  then show "heap_inv s'" using assms(2) vm
    by (auto simp: heap_inv_def heap_window_def small_range_same [OF lg] mapped_range_def pte f)
qed

lemma spawn_ok:
  assumes inv: "sched_inv s" and np: "next_pid s \<noteq> -1" and enough: "2 + n \<le> card (free_pages s)"
    and slot: "slot < 32" "tstate (tasks s ! slot) = Empty" "\<forall>i < slot. tstate (tasks s ! i) \<noteq> Empty"
  shows "\<exists>s'. spawn pr nm entry msg s = Inr s' \<and> created slot (asc nm) entry s s' \<and> sched_inv s' \<and> n \<le> card (free_pages s')"
proof -
  note d = sched_invD [OF inv]
  have "alloc_slot s = Inr (Some slot)" using d(4) slot by (auto simp: alloc_slot_eq find_upt_Some simp del: upt_Suc)
  then obtain s' where s': "new_kernel_task pr (asc nm) entry s = Inr (Some (next_pid s), s')" "created slot (asc nm) entry s s'"
    using new_kernel_task_success [OF d(6,4,3) _ _ np, of slot pr "asc nm" entry] enough by auto
  obtain f0 f1 where f: "avail_frames s' = avail_frames s - {f0, f1}" using s'(2) unfolding created_def by blast
  have "card (avail_frames s) \<le> card (avail_frames s') + 2"
    using diff_card_le_card_Diff [of "{f0, f1}" "avail_frames s"] by (simp add: f card_insert_if split: if_splits)
  then have "n \<le> card (free_pages s')" using enough by (simp add: card_avail)
  then show ?thesis using s' created_inv [OF inv s'(2) slot(1,2) np] by (simp add: spawn_def)
qed


text \<open>The task in slot \<open>i\<close> is ready to run \<open>entry\<close> from a fresh stack.\<close>

definition started :: "nat \<Rightarrow> string \<Rightarrow> u64 \<Rightarrow> 'a task_state_scheme \<Rightarrow> bool" where
  "started i nm entry s \<longleftrightarrow>
     (let t = tasks s ! i in
        tstate t = Ready \<and> unat (pid t) = i \<and> tname t = copy_name (asc nm) (replicate 16 0) \<and>
        t_rsp t + 56 = stack_top t \<and> PAGE_SIZE + hhdm_offset s \<le> stack_top t \<and>
        (\<forall>k < 6. cells s (t_rsp t + 8 * k) = 0) \<and> cells s (t_rsp t + 48) = entry)"

lemma created_started:
  assumes "created slot (asc nm) entry s s'" and "slot < length (tasks s)" "tasks s ! slot = task_empty" "unat (next_pid s) = slot"
  shows "started slot nm entry s'"
proof -
  obtain f1 t where t: "tasks s' = (tasks s)[slot := t]" "tstate t = Ready" "pid t = next_pid s"
    "stack_top t = f1 + PAGE_SIZE + hhdm_offset s" "t_rsp t + 56 = stack_top t"
    "tname t = copy_name (asc nm) (tname (tasks s ! slot))"
    "\<forall>i < 6. cells s' (t_rsp t + 8 * i) = 0" "cells s' (t_rsp t + 48) = entry"
    using assms(1) unfolding created_def by blast
  have "tasks s' ! slot = t" using t(1) assms(2) by simp
  then show ?thesis
    using t(2-8) assms(4) unfolding started_def Let_def created_same(3) [OF assms(1)] assms(3)
    by (simp add: task_empty_def)
qed

lemma started_kept:
  assumes cr: "created slot nm' entry' s s'" and inv: "sched_inv s" and st: "started i nm entry s" and i: "0 < i" "i < 32" "i \<noteq> slot"
  shows "started i nm entry s'"
proof -
  let ?t = "tasks s ! i"
  obtain f0 f1 t where f: "f1 \<in> avail_frames s" "tasks s' = (tasks s)[slot := t]" "stack_top t = f1 + PAGE_SIZE + hhdm_offset s"
    "t_rsp t + 56 = stack_top t" "\<forall>a. \<not> (t_rsp t \<le> a \<and> a < t_rsp t + 56) \<longrightarrow> cells s' a = cells s a"
    using cr unfolding created_def by blast
  have same: "tasks s' ! i = ?t" "hhdm_offset s' = hhdm_offset s" using f(2) i(3) created_same(3) [OF cr] by simp_all
  have s: "tstate ?t = Ready" "t_rsp ?t + 56 = stack_top ?t" "PAGE_SIZE + hhdm_offset s \<le> stack_top ?t"
    using st by (simp_all add: started_def Let_def)
  have "top_frame (hhdm_offset s) ?t \<in> owned (hhdm_offset s) ?t" using s(1) by (simp add: owned_def)
  then have top: "top_frame (hhdm_offset s) ?t \<in> stack_space s"
    using sched_invD(5) [OF inv] i(1,2) unfolding table_inv_def stacks_ok_def by blast
  obtain p where p: "top_frame (hhdm_offset s) ?t = p * 4096" using top by (auto simp: stack_space_def all_frames_def)
  have "top_frame (hhdm_offset s) ?t \<noteq> f1" using top f(1) by (auto simp: stack_space_def)
  moreover obtain q where q: "f1 = q * 4096" using f(1) by (auto simp: avail_frames_def)
  ultimately have "p \<noteq> q" using p by auto
  then have far: "p * 4096 + 4096 \<le> q * 4096 \<or> q * 4096 + 4096 \<le> p * 4096" by linarith
  have "stack_top ?t = p * 4096 + 4096 + hhdm_offset s" using p s(3) by (simp add: top_frame_def)
  then have apart: "\<not> (t_rsp t \<le> a \<and> a < t_rsp t + 56)" if "t_rsp ?t \<le> a" "a < t_rsp ?t + 56" for a
    using f(3,4) that far s(2) q unfolding PAGE_SIZE_def by linarith
  have eq: "cells s' a = cells s a" if "t_rsp ?t \<le> a" "a < t_rsp ?t + 56" for a
    using f(5) apart [OF that] by blast
  have "cells s' (t_rsp ?t + 8 * k) = cells s (t_rsp ?t + 8 * k)" if "k < 6" for k using that by (intro eq) simp_all
  moreover have "cells s' (t_rsp ?t + 48) = cells s (t_rsp ?t + 48)" by (intro eq) simp_all
  ultimately show ?thesis using st unfolding started_def Let_def same by simp
qed


text \<open>What the rest of the kernel set up and the creation of tasks leaves alone.\<close>

definition devices where
  "devices s = (idt s, idtr s, irq_handles s, global_keyboard s, rflags_reg s, dev_in s, current s, chips (io_log s))"

lemma created_devices:
  fixes s :: "'a sys_state_scheme"
  assumes "created slot nm entry s s'"
  shows "devices s' = devices s"
proof -
  have s': "s' = s\<lparr>io_log := io_log s', bitmap := bitmap s', free_count := free_count s', cells := cells s',
       tasks := tasks s', next_pid := next_pid s'\<rparr>" and sent: "sent s s'"
    using assms unfolding created_def by blast+
  have "idt s' = idt s" "idtr s' = idtr s" "irq_handles s' = irq_handles s" "global_keyboard s' = global_keyboard s"
    "rflags_reg s' = rflags_reg s" "dev_in s' = dev_in s" "current s' = current s"
    by (subst s', simp)+
  moreover have "chips (io_log s') = chips (io_log s)" using sent by (auto simp: sent_def chips_def fun_eq_iff)
  ultimately show ?thesis by (simp add: devices_def)
qed


lemma create_tasks_ok:
  fixes s :: "'a sys_state_scheme"
  assumes inv: "sched_inv s" "heap_inv s" "heap_blocks s bs" and enough: "6 \<le> card (free_pages s)" and np: "next_pid s = 1"
    and st: "\<forall>i < 32. tstate (tasks s ! i) = (if i = 0 then Running else Empty)" "\<forall>i > 0. tasks s ! i = initial_tasks ! i"
  shows "\<exists>s'. create_tasks pr a b c s = Inr s' \<and> sched_inv s' \<and> heap_inv s' \<and> heap_blocks s' bs \<and> devices s' = devices s \<and>
    started 1 ''task_a'' a s' \<and> started 2 ''task_b'' b s' \<and> started 3 ''shell'' c s' \<and>
    (\<forall>i < 32. tstate (tasks s' ! i) = (if i = 0 then Running else if i \<le> 3 then Ready else Empty))"
proof -
  have empty: "tasks s ! i = task_empty" if "0 < i" "i < 32" for i
    using st(2) that by (simp add: initial_tasks_def)
  have "2 + 4 \<le> card (free_pages s)" using enough by simp
  from spawn_ok [OF inv(1) _ this, of 1 pr "''task_a''" a "''failed to create task_a''"] np st(1)
  obtain s1 where 1: "spawn pr ''task_a'' a ''failed to create task_a'' s = Inr s1" "created 1 (asc ''task_a'') a s s1"
    "sched_inv s1" "2 + 2 \<le> card (free_pages s1)" by auto
  obtain t1 where t1: "tasks s1 = (tasks s)[1 := t1]" "tstate t1 = Ready" "next_pid s1 = 2"
    using 1(2) np unfolding created_def by auto
  have len: "length (tasks s) = 32" using sched_invD(1) [OF inv(1)] .
  have state1: "tstate (tasks s1 ! i) = (if i = 0 then Running else if i = 1 then Ready else Empty)" if "i < 32" for i
    using st(1) that t1(2) len by (simp add: t1(1) nth_list_update)
  have "\<forall>i < 2. tstate (tasks s1 ! i) \<noteq> Empty" using state1 by auto
  with spawn_ok [OF 1(3) _ 1(4), of 2 pr "''task_b''" b "''failed to create task_b''"] t1(3) state1 [of 2]
  obtain s2 where 2: "spawn pr ''task_b'' b ''failed to create task_b'' s1 = Inr s2" "created 2 (asc ''task_b'') b s1 s2"
    "sched_inv s2" "2 + 0 \<le> card (free_pages s2)" by auto
  obtain t2 where t2: "tasks s2 = (tasks s1)[2 := t2]" "tstate t2 = Ready" "next_pid s2 = 3"
    using 2(2) t1(3) unfolding created_def by auto
  have state2: "tstate (tasks s2 ! i) = (if i = 0 then Running else if i \<le> 2 then Ready else Empty)" if "i < 32" for i
    using state1 [OF that] t2(2) sched_invD(1) [OF 1(3)] by (cases "i = 2") (auto simp: t2(1))
  have "\<forall>i < 3. tstate (tasks s2 ! i) \<noteq> Empty" using state2 by auto
  with spawn_ok [OF 2(3) _ 2(4), of 3 pr "''shell''" c "''failed to create shell task''"] t2(3) state2 [of 3]
  obtain s3 where 3: "spawn pr ''shell'' c ''failed to create shell task'' s2 = Inr s3" "created 3 (asc ''shell'') c s2 s3"
    "sched_inv s3" by auto
  obtain t3 where t3: "tasks s3 = (tasks s2)[3 := t3]" "tstate t3 = Ready"
    using 3(2) unfolding created_def by auto
  have state3: "tstate (tasks s3 ! i) = (if i = 0 then Running else if i \<le> 3 then Ready else Empty)" if "i < 32" for i
    using state2 [OF that] t3(2) sched_invD(1) [OF 2(3)] by (cases "i = 3") (auto simp: t3(1))
  note c = 1(2) 2(2) 3(2)
  have other: "tasks s1 ! 2 = task_empty" "tasks s2 ! 3 = task_empty" using empty by (simp_all add: t1(1) t2(1))
  have "started 1 ''task_a'' a s1" using created_started [OF c(1)] empty [of 1] np len by simp
  then have a3: "started 1 ''task_a'' a s3" using started_kept [OF c(2) 1(3)] started_kept [OF c(3) 2(3)] by simp
  have "started 2 ''task_b'' b s2" using created_started [OF c(2)] other(1) t1 len by simp
  then have b3: "started 2 ''task_b'' b s3" using started_kept [OF c(3) 2(3)] by simp
  have c3: "started 3 ''shell'' c s3" using created_started [OF c(3)] other(2) t1(1) t2 len by simp
  have h: "heap_inv s3" "heap_blocks s3 bs"
    using created_heap [OF c(3)] created_heap [OF c(2)] created_heap [OF c(1)] inv(2,3) by blast+
  have d: "devices s3 = devices s" using created_devices [OF c(1)] created_devices [OF c(2)] created_devices [OF c(3)] by simp
  note i3 = sched_invD [OF 3(3)]
  obtain l1 where p1: "serial_print ''[boot] tasks created\<newline>'' s3 = Inr (s3\<lparr>io_log := l1\<rparr>)" "chips l1 = chips (io_log s3)"
    by (rule say [OF prints_basic(1) i3(3)])
  obtain l2 where p2: "dump_tasks pr (s3\<lparr>io_log := l1\<rparr>) = Inr (s3\<lparr>io_log := l2\<rparr>)" "chips l2 = chips l1"
    using dump_tasks_logs [OF i3(4,3), of pr] unfolding logs_def by blast
  have "serial_good (s3\<lparr>io_log := l2\<rparr>)" using i3(3) by simp
  then obtain l3 where p3: "serial_print ''[boot] entering idle\<newline>'' (s3\<lparr>io_log := l2\<rparr>) = Inr (s3\<lparr>io_log := l3\<rparr>)" "chips l3 = chips l2"
    using say [OF prints_basic(1), of "s3\<lparr>io_log := l2\<rparr>" "''[boot] entering idle\<newline>''"] by auto
  let ?s' = "s3\<lparr>io_log := l3\<rparr>"
  have "create_tasks pr a b c s = Inr ?s'" by (simp only: create_tasks_def 1(1) 2(1) 3(1) p1(1) p2(1) p3(1) andThen.simps)
  moreover have part: "vm_part ?s' = vm_part s3" by (simp add: vm_part_def)
  moreover have "sched_inv ?s'" by (rule sched_inv_same [OF 3(3) part]) simp_all
  moreover have "heap_inv ?s'" "heap_blocks ?s' bs" using h heap_inv_cong [OF part] by simp_all
  moreover have "devices ?s' = devices s" unfolding d [symmetric] using p1(2) p2(2) p3(2) by (simp add: devices_def)
  moreover have "started i nm e ?s' = started i nm e s3" for i nm e by (simp add: started_def)
  ultimately show ?thesis using a3 b3 c3 state3 by (intro exI [of _ ?s']) simp
qed

lemma boot_tasks_ok:
  fixes s :: "'a sys_state_scheme"
  assumes inv: "sched_inv s" "heap_inv s" "heap_blocks s bs" and enough: "6 \<le> card (free_pages s)" and np: "next_pid s = 1"
    and st: "\<forall>i < 32. tstate (tasks s ! i) = (if i = 0 then Running else Empty)" "\<forall>i > 0. tasks s ! i = initial_tasks ! i"
  shows "\<exists>s'. boot_tasks pr a b c s = Inr s' \<and> sched_inv s' \<and> heap_inv s' \<and> heap_blocks s' bs \<and> devices s' = devices s \<and>
    started 1 ''task_a'' a s' \<and> started 2 ''task_b'' b s' \<and> started 3 ''shell'' c s' \<and>
    (\<forall>i < 32. tstate (tasks s' ! i) = (if i = 0 then Running else if i \<le> 3 then Ready else Empty))"
proof -
  obtain l where l: "serial_print ''[boot] interrupts enabled\<newline>'' s = Inr (s\<lparr>io_log := l\<rparr>)" "chips l = chips (io_log s)"
    by (rule say [OF prints_basic(1) sched_invD(3) [OF inv(1)]])
  let ?s = "s\<lparr>io_log := l\<rparr>"
  have part: "vm_part ?s = vm_part s" by (simp add: vm_part_def)
  have si: "sched_inv ?s" by (rule sched_inv_same [OF inv(1) part]) simp_all
  have h: "heap_inv ?s" "heap_blocks ?s bs" using inv(2,3) heap_inv_cong [OF part] by simp_all
  have en: "6 \<le> card (free_pages ?s)" using enough by (simp only: vm_part_cong [OF part])
  have np': "next_pid ?s = 1" "\<forall>i < 32. tstate (tasks ?s ! i) = (if i = 0 then Running else Empty)"
    "\<forall>i > 0. tasks ?s ! i = initial_tasks ! i" using np st by simp_all
  have d: "devices ?s = devices s" by (simp add: devices_def l(2))
  have unf: "boot_tasks pr a b c s = create_tasks pr a b c ?s" by (simp add: boot_tasks_def l(1))
  from create_tasks_ok [OF si h en np', of pr a b c] show ?thesis unfolding unf d .
qed


text \<open>\<open>_start\<close>, up to the call of \<open>idle_task\<close>, which halts from interrupt to interrupt.\<close>

definition kernel_start ::
    "profile \<Rightarrow> bool \<Rightarrow> nat option \<Rightarrow> nat \<Rightarrow> memmap_entry list option \<Rightarrow> (nat \<Rightarrow> u64) \<Rightarrow> u64 \<Rightarrow> u64 \<Rightarrow> u64 \<Rightarrow> u64 \<Rightarrow>
     'a pic_state_scheme \<Rightarrow> 'a pic_state_scheme res" where
  "kernel_start pr supported hhdm memmap_usable memmap stub idt_base task_a task_b run_shell s =
     andThen (boot_memory pr supported hhdm memmap_usable memmap s) (\<lambda>s.
     andThen (boot_devices pr stub idt_base s) (\<lambda>s.
     andThen (boot_clock s)
       (boot_tasks pr task_a task_b run_shell)))"

text \<open>The gates of the exceptions, the hardware interrupts and the system calls; only the last is open to user code.\<close>

definition gates :: "(nat \<Rightarrow> u64) \<Rightarrow> idt_entry list \<Rightarrow> bool" where
  "gates stub tbl \<longleftrightarrow> length tbl = 256 \<and>
     (\<forall>v. v < 48 \<or> v = 128 \<longrightarrow> gate_present (tbl ! v) \<and> gate_is_interrupt (tbl ! v) \<and> gate_offset (tbl ! v) = stub v \<and>
        selector (tbl ! v) = 0x28 \<and> gate_dpl (tbl ! v) = (if v = 128 then 3 else 0))"

lemma init_idt_gates: "length (idt s) = 256 \<Longrightarrow> gates stub (idt (init_idt stub idt_base s))"
  using init_idt_correct [of s 0 stub idt_base] init_idt_correct [of s _ stub idt_base] by (auto simp: gates_def Let_def)

text \<open>A kernel that has booted: the memory, the heap, the devices, the descriptor table and the tasks.\<close>

definition booted :: "(nat \<Rightarrow> u64) \<Rightarrow> u64 \<Rightarrow> u64 \<Rightarrow> u64 \<Rightarrow> u64 \<Rightarrow> 'a sys_state_scheme \<Rightarrow> bool" where
  "booted stub idt_base a b c s \<longleftrightarrow>
     sched_inv s \<and> heap_inv s \<and> heap_blocks s [(1024 * 1024 - 24, False)] \<and> current s = 0 \<and>
     started 1 ''task_a'' a s \<and> started 2 ''task_b'' b s \<and> started 3 ''shell'' c s \<and>
     (\<forall>i < 32. tstate (tasks s ! i) = (if i = 0 then Running else if i \<le> 3 then Ready else Empty)) \<and>
     gates stub (idt s) \<and> idtr s = (4095, idt_base) \<and>
     irq_handles s = (replicate 16 None)[0 := Some On_tick, 1 := Some On_irq1] \<and> chips (io_log s) = remapped \<and>
     kbd_inv s \<and> kbd_pending s = [] \<and> bit (rflags_reg s) IF_bit"

lemma heap_more_fields:
  fixes s s' :: "'a sys_state_scheme"
  assumes "heap_state.more s' = heap_state.more s"
  shows "idt s' = idt s" "tasks s' = tasks s" "task_lock s' = task_lock s" "ticks_on_current s' = ticks_on_current s"
    "irq_handles s' = irq_handles s" "global_keyboard s' = global_keyboard s" "msrs s' = msrs s"
  using assms by (cases s; cases s'; simp)+

lemma boot_result:
  fixes s :: "'a sys_state_scheme"
  assumes s: "linked s" and ok: "loader_ok u es off s" and bp: "find_bitmap_region pr u (init_bytes es) es = Inr bp" "bp \<noteq> 0"
    and enough: "1033 \<le> card (boot_frames u es bp)" and low: "lapic_page s < 2 ^ 32"
  shows "\<exists>s1 s'. andThen (boot_memory pr True (Some off) u (Some es) s) (\<lambda>s. andThen (boot_devices pr stub idt_base s) boot_clock) = Inr s1 \<and>
    (\<forall>tr s2. kernel_run pr s1 tr s2 \<longrightarrow> sched_inv s2) \<and>
    boot_tasks pr a b c s1 = Inr s' \<and> kernel_start pr True (Some off) u (Some es) stub idt_base a b c s = Inr s' \<and>
    booted stub idt_base a b c s' \<and> (\<forall>tr s2. kernel_run pr s' tr s2 \<longrightarrow> sched_inv s2)"
proof -
  note st = s [unfolded linked_def]
  obtain s1 where 1: "boot_memory pr True (Some off) u (Some es) s = Inr s1" "heap_inv s1" "heap_blocks s1 [(1024 * 1024 - 24, False)]"
    "heap_state.more s1 = heap_state.more s" "dev_in s1 = dev_in s" "3 + 6 \<le> card (free_pages s1)"
    "small_path s1 (split_indices LAPIC_VIRT)"
    using boot_memory_ok [OF s ok bp, of 9] enough by auto
  note f = heap_more_fields [OF 1(4)]
  have g1: "serial_good s1" and l1: "lapic_page s1 < 2 ^ 32" using st low by (simp_all add: 1(5) lapic_page_def f(7))
  have t1: "tasks s1 = initial_tasks" "\<not> task_lock s1" "ticks_on_current s1 = 0" "irq_handles s1 = replicate 16 None" "length (idt s1) = 256"
    using st by (simp_all add: f)
  obtain d where d: "boot_devices pr stub idt_base s1 = Inr d" "heap_inv d" "heap_blocks d [(1024 * 1024 - 24, False)]" "6 \<le> card (free_pages d)"
    "chips (io_log d) = remapped" "kept d = kept (init_idt stub idt_base s1\<lparr>irq_handles := (replicate 16 None)[1 := Some On_irq1]\<rparr>)"
    using boot_devices_ok [OF 1(2,7,3) g1 l1 1(6) t1(4), of pr stub idt_base] by blast
  have k: "tasks d = initial_tasks" "\<not> task_lock d" "ticks_on_current d = 0" "irq_handles d = (replicate 16 None)[1 := Some On_irq1]"
    "serial_good d" "idt d = idt (init_idt stub idt_base s1)" "idtr d = (4095, idt_base)" "global_keyboard d = global_keyboard s1"
    using d(6) t1 g1 by (simp_all add: kept_def init_idt_def Let_def)
  obtain s2 where 2: "boot_clock d = Inr s2" "heap_inv s2" "heap_blocks s2 [(1024 * 1024 - 24, False)]"
    "6 \<le> card (free_pages s2)" "sched_inv s2" "current s2 = 0" "next_pid s2 = 1"
    "\<forall>i < 32. tstate (tasks s2 ! i) = (if i = 0 then Running else Empty)" "\<forall>i > 0. tasks s2 ! i = initial_tasks ! i"
    "idt s2 = idt (init_idt stub idt_base s1)" "idtr s2 = (4095, idt_base)"
    "irq_handles s2 = (replicate 16 None)[0 := Some On_tick, 1 := Some On_irq1]" "global_keyboard s2 = global_keyboard s1"
    "bit (rflags_reg s2) IF_bit" "chips (io_log s2) = remapped"
    using boot_clock_ok [OF d(2,3) k(5) d(4) k(1-4)] unfolding k(6-8) d(5) by blast
  obtain s3 where 3: "boot_tasks pr a b c s2 = Inr s3" "sched_inv s3" "heap_inv s3" "heap_blocks s3 [(1024 * 1024 - 24, False)]"
    "devices s3 = devices s2" "started 1 ''task_a'' a s3" "started 2 ''task_b'' b s3" "started 3 ''shell'' c s3"
    "\<forall>i < 32. tstate (tasks s3 ! i) = (if i = 0 then Running else if i \<le> 3 then Ready else Empty)"
    using boot_tasks_ok [OF 2(5,2,3,4,7-9), of pr a b c] by blast
  have "gates stub (idt s3)" using 3(5) init_idt_gates [OF t1(5)] 2(10) by (simp add: devices_def)
  moreover have "global_keyboard s3 = keyboard_new" using 3(5) 2(13) st by (simp add: devices_def f)
  then have "kbd_inv s3" "kbd_pending s3 = []" using keyboard_new_inv by (simp_all add: kbd_inv_def kbd_pending_def)
  ultimately have "booted stub idt_base a b c s3"
    using 3 2(6,11-15) by (simp add: booted_def devices_def)
  moreover have "kernel_start pr True (Some off) u (Some es) stub idt_base a b c s = Inr s3"
    by (simp only: kernel_start_def 1(1) d(1) 2(1) 3(1) andThen.simps)
  moreover have "andThen (boot_memory pr True (Some off) u (Some es) s) (\<lambda>s. andThen (boot_devices pr stub idt_base s) boot_clock) = Inr s2"
    by (simp only: 1(1) d(1) 2(1) andThen.simps)
  ultimately show ?thesis using run_inv [OF _ 3(2)] run_inv [OF _ 2(5)] 3(1) by blast
qed

text \<open>
  A machine with 8 MiB of usable memory from 1 MiB. Below it lie the boot loader's tables: entry 256 of the root
  leads to a table whose first entry maps the direct map of the low memory as one large page.
\<close>

definition small_map :: "memmap_entry list" where
  "small_map = [\<lparr>base = 0x100000, len_bytes = 0x800000, entry_type = 0\<rparr>]"

definition small_machine :: sys_state where
  "small_machine = undefined\<lparr>free_count := 0, usable_page := 0, heap_inited := False, idt := replicate 256 zero_entry,
     irq_handles := replicate 16 None, global_keyboard := keyboard_new, tasks := initial_tasks, task_lock := False,
     ticks_on_current := 0, dev_in := (\<lambda>l p. 0xff), 
     cells := (\<lambda>a. if a = 0xffff800000009800 then 0xA003 else if a = 0xffff80000000A000 then 0x83 else 0), cr3 := 0x9000, msrs := (\<lambda>r. 0xFEE00900)\<rparr>"

lemma small_map_ok:
  "memmap_ok 0 small_map" "memmap_end small_map = 0x900000" "init_total small_map = 2304" "init_bytes small_map = 288"
  "find_bitmap_region pr 0 288 small_map = Inr 0x100000"
proof -
  show e: "memmap_ok 0 small_map" "memmap_end small_map = 0x900000" by (simp_all add: small_map_def memmap_end_def)
  show "init_total small_map = 2304" by (simp add: init_total_def e(2))
  then show "init_bytes small_map = 288" by (simp add: init_bytes_def)
  show "find_bitmap_region pr 0 288 small_map = Inr 0x100000"
    by (simp add: small_map_def Let_def and_not_4095)
qed

lemma small_map_pages: "usable_pages 0 small_map = {256..<2304}"
  by (auto simp: usable_pages_def region_pages_def small_map_def)

lemma small_map_frames: "1033 \<le> card (boot_frames 0 small_map 0x100000)"
proof -
  have "{257..<2304} \<subseteq> boot_frames 0 small_map 0x100000"
    unfolding boot_frames_def small_map_pages small_map_ok(4) by auto
  moreover have "finite (boot_frames 0 small_map 0x100000)" by (simp add: boot_frames_def small_map_pages)
  ultimately have "card {257..<2304 :: nat} \<le> card (boot_frames 0 small_map 0x100000)" by (intro card_mono)
  then show ?thesis by simp
qed

abbreviation loaded_machine :: sys_state where
  "loaded_machine \<equiv> small_machine\<lparr>hhdm_offset := 0xffff800000000000\<rparr>"

lemma small_machine_ent:
  "ent loaded_machine 0x9000 i = (if i = 256 then 0xA003 else if i = 512 then 0x83 else 0)"
  "ent loaded_machine 0xA000 i = (if i = 0 then 0x83 else 0)"
  by (auto simp: ent_def read_cell_def small_machine_def)

lemma small_machine_entries: "links 0xA003" "\<not> links 0x83" "\<not> large 0xA003" "large 0x83" "frame_of 0xA003 = 0xA000" "root loaded_machine = 0x9000"
  by (simp_all add: links_def large_def present_def root_def small_machine_def frame_of_eq drop_bit_eq_div take_bit_eq_mod bit_simps
      bit_iff_odd_drop_bit drop_bit_eq_div)

lemma small_machine_tab:
  "tab loaded_machine ps = (if ps = [] then Some 0x9000 else if ps = [256] then Some 0xA000 else None)"
proof (cases ps)
  case (Cons i js)
  then show ?thesis by (cases js) (simp_all add: tab_def small_machine_ent small_machine_entries)
qed (simp add: tab_def small_machine_entries)

lemma small_machine_large: "large_of loaded_machine ps i = (if ps = [] \<and> i = 512 \<or> ps = [256] \<and> i = 0 then Some 0x83 else None)"
  by (simp add: large_of_def small_machine_tab small_machine_ent small_machine_entries)

text \<open>The heap's window is not in the first gigabyte of the direct map.\<close>

lemma small_machine_small: "heap_window loaded_machine" "small_path loaded_machine (split_indices LAPIC_VIRT)"
proof -
  have path: "small_path loaded_machine (split_indices v)" if "drop_bit 30 v AND 0x1ff \<noteq> 0" for v
  proof -
    obtain i4 i3 i2 i1 where ix: "split_indices v = (i4, i3, i2, i1)" by (metis prod_cases4)
    then have "i3 \<noteq> 0" using that by (simp add: split_indices_def)
    moreover have "i4 \<noteq> 512" using split_indices_lt [OF ix] by simp
    ultimately show ?thesis by (simp add: ix small_machine_large)
  qed
  have "drop_bit 30 v AND 0x1ff = (4 :: nat)" if "HEAP_START \<le> v" "v < HEAP_START + HEAP_MAX_SIZE" for v
  proof -
    have "v div 2 ^ 30 = 0x3fffe0004" using that by (simp add: HEAP_START_def HEAP_MAX_SIZE_def)
    then show ?thesis by (simp add: drop_bit_eq_div)
  qed
  then show "heap_window loaded_machine" unfolding heap_window_def small_range_def using path by simp
  show "small_path loaded_machine (split_indices LAPIC_VIRT)" by (rule path) (simp add: LAPIC_VIRT_def drop_bit_eq_div)
qed

lemma small_machine_ok: "linked small_machine" "loader_ok 0 small_map 0xffff800000000000 small_machine" "lapic_page small_machine < 2 ^ 32"
proof -
  show "linked small_machine" by (simp add: linked_def small_machine_def uart_ready_ff)
  show "loader_ok 0 small_map 0xffff800000000000 small_machine"
    unfolding loader_ok_def Let_def small_machine_tab small_map_ok small_map_pages using small_map_ok(1) small_machine_small by auto
  show "lapic_page small_machine < 2 ^ 32"
    by (simp add: lapic_page_def small_machine_def frame_of_eq drop_bit_eq_div take_bit_eq_mod)
qed

lemma small_machine_boots:
  "\<exists>s'. kernel_start Dev True (Some 0xffff800000000000) 0 (Some small_map) stub idt_base a b c small_machine = Inr s' \<and>
     booted stub idt_base a b c s'"
proof -
  have "find_bitmap_region Dev 0 (init_bytes small_map) small_map = Inr 0x100000" by (simp only: small_map_ok)
  from boot_result [OF small_machine_ok(1,2) this _ small_map_frames small_machine_ok(3)] show ?thesis by simp blast
qed

text \<open>
  C2: The kernel boots, from the statics as linked, in every build profile. Assumed: Limine supports the base revision
  and answers; the serial port works; the memory map has the promised form (\<open>memmap_ok\<close>) and with the direct map fits the address
  space; the bitmap finds a place, not at 0; Limine's page tables, whose entries may be large pages, are a
  tree outside usable memory, no large page covering the heap's window or the local APIC's page; the APIC is below 4 GiB;
  1033 frames are usable above 1 MiB beside the bitmap. Then \<open>_start\<close> runs to \<open>sti\<close>, and whatever sequence of kernel
  events follows, task creations among ticks, keeps the scheduler's invariant. Uninterrupted it goes on to its idle loop:
  memory and heap (one free block of 1 MiB) are in order, the gates installed, the interrupt controllers remapped
  with only IRQ 0 and 1 unmasked, both with their handlers, no key pending, the idle task in slot 0 with interrupts on, the
  three tasks ready at their entries on stacks of their own; from there too every sequence of events keeps the invariant.
\<close>

theorem boot_correct:
  fixes s :: "'a sys_state_scheme"
  assumes s: "linked s" and ok: "loader_ok u es off s" and bp: "find_bitmap_region pr u (init_bytes es) es = Inr bp" "bp \<noteq> 0"
    and enough: "1033 \<le> card (boot_frames u es bp)" and low: "lapic_page s < 2 ^ 32"
  shows "\<exists>s1 s'. andThen (boot_memory pr True (Some off) u (Some es) s) (\<lambda>s. andThen (boot_devices pr stub idt_base s) boot_clock) = Inr s1 \<and>
    (\<forall>tr s2. kernel_run pr s1 tr s2 \<longrightarrow> sched_inv s2) \<and>
    boot_tasks pr a b c s1 = Inr s' \<and> kernel_start pr True (Some off) u (Some es) stub idt_base a b c s = Inr s' \<and>
    booted stub idt_base a b c s' \<and> (\<forall>tr s2. kernel_run pr s' tr s2 \<longrightarrow> sched_inv s2)"
  by (rule boot_result [OF assms])

theorem boot_correct_witness:
  "\<exists>s'. kernel_start Dev True (Some 0xffff800000000000) 0 (Some small_map) (\<lambda>v. of_nat v) 0 1 2 3 small_machine = Inr s' \<and>
     booted (\<lambda>v. of_nat v) 0 1 2 3 s'"
proof -
  have "find_bitmap_region Dev 0 (init_bytes small_map) small_map = Inr 0x100000" by (simp only: small_map_ok)
  from boot_correct [OF small_machine_ok(1,2) this _ small_map_frames small_machine_ok(3)] show ?thesis by simp blast
qed

end
