(* ===== verification/Demo.thy ===== *)
theory Demo
  imports Boot
begin

text \<open>
  The demo tasks (\<open>multitask/demo_tasks.rs\<close>), one round of their loops at a time, and the panic
  handler of \<open>main.rs\<close>. A round and the handler run without an interrupt in between.
\<close>

section \<open>Operations\<close>

text \<open>\<open>count\<close> is a \<open>u32\<close>, its buffer has 10 digits.\<close>

definition show_count :: "profile \<Rightarrow> string \<Rightarrow> u32 \<Rightarrow> 'a screen_state_scheme \<Rightarrow> 'a screen_state_scheme res" where
  "show_count pr title count s =
     andThen (terminal_new pr s) (\<lambda>(t, s).
       case t of
         None \<Rightarrow> Inr s
       | Some t \<Rightarrow>
           andThen (term_print pr title (t, s)) (\<lambda>ts.
           andThen (put_dec pr 10 (term_putb pr) (unat count) ts) (\<lambda>ts.
           andThen (term_print pr '')\<newline>'' ts) (\<lambda>ts. Inr (snd ts)))))"

definition demo_round ::
    "profile \<Rightarrow> string \<Rightarrow> string \<Rightarrow> u64 \<Rightarrow> u32 \<Rightarrow> 'a screen_state_scheme \<Rightarrow>
     ((nat \<times> nat) option \<times> u32 \<times> 'a screen_state_scheme) res" where
  "demo_round pr tag title ms count s =
     andThen (serial_print tag s) (\<lambda>s.
     andThen (serial_print_usize pr (unat count) s) (\<lambda>s.
     andThen (serial_print ''\<newline>'' s) (\<lambda>s.
     andThen (show_count pr title count s) (\<lambda>s.
     andThen (wadd pr count 1) (\<lambda>count.
     andThen (sleep_ms pr ms s) (\<lambda>(sw, s). Inr (sw, count, s)))))))"

text \<open>The tasks' first steps, and the bodies of their loops.\<close>

definition task_a_start :: "'a machine_scheme \<Rightarrow> (u32 \<times> 'a machine_scheme) res" where
  "task_a_start s = andThen (serial_print ''[task_a] starting\<newline>'' s) (\<lambda>s. Inr (0, s))"

definition task_a_round where
  "task_a_round pr = demo_round pr ''[task_a] tick'' ''Process A (count='' 500"

definition task_b_start :: "'a machine_scheme \<Rightarrow> (u32 \<times> 'a machine_scheme) res" where
  "task_b_start s = andThen (serial_print ''[task_b] starting\<newline>'' s) (\<lambda>s. Inr (0, s))"

definition task_b_round where
  "task_b_round pr = demo_round pr ''[task_b] tick'' ''Process B (count='' 700"

text \<open>The panic handler, \<open>loc\<close> is the file and the line of the panic: first its messages on the serial line.\<close>

definition panic_serial ::
    "profile \<Rightarrow> (string \<times> nat) option \<Rightarrow> 'a machine_scheme \<Rightarrow> 'a machine_scheme res" where
  "panic_serial pr loc s =
     andThen (serial_print ''\<newline>!!! KERNEL PANIC !!!\<newline>'' s) (\<lambda>s.
     case loc of
         None \<Rightarrow> Inr s
       | Some (file, lineno) \<Rightarrow>
           andThen (serial_print ''at: '' s) (\<lambda>s.
           andThen (serial_print file s) (\<lambda>s.
           andThen (serial_print '':'' s) (\<lambda>s.
           andThen (serial_print_usize pr lineno s) (serial_print ''\<newline>'')))))"

definition panic ::
    "profile \<Rightarrow> (string \<times> nat) option \<Rightarrow> 'a sys_state_scheme \<Rightarrow> (exit \<times> 'a sys_state_scheme) res" where
  "panic pr loc s =
     andThen (panic_serial pr loc (cli_insn s)) (\<lambda>s.
     andThen (terminal_new pr s) (\<lambda>(t, s).
       case t of
         None \<Rightarrow> Inr (halt_forever s)
       | Some t \<Rightarrow>
           andThen (term_print pr ''\<newline>KERNEL PANIC\<newline>'' (set_color COLOR_PANIC COLOR_BG (t, s))) (\<lambda>ts.
           let ts = set_color COLOR_FG COLOR_BG ts in
           andThen (case loc of
               None \<Rightarrow> Inr ts
             | Some (file, _) \<Rightarrow>
                 andThen (term_print pr ''at: '' ts) (\<lambda>ts.
                 andThen (term_print pr file ts) (term_print pr ''\<newline>''))) (\<lambda>ts.
           Inr (halt_forever (snd ts))))))"

section \<open>What the screen shows\<close>

definition text_shown :: "nat \<Rightarrow> nat \<Rightarrow> nat \<Rightarrow> u8 list \<Rightarrow> 'a screen_state_scheme \<Rightarrow> bool" where
  "text_shown w h pb bs s \<longleftrightarrow>
     (\<exists>c r P. text_puts (font s) (fresh_term w h pb) bs (0, 0, \<lambda>y x. COLOR_BG) = (c, r, P) \<and> shows_picture (fresh_term w h pb) s P)"

definition count_text :: "string \<Rightarrow> u32 \<Rightarrow> u8 list" where
  "count_text title count = asc title @ dec_text (unat count) @ asc '')\<newline>''"

lemma emit_fresh:
  assumes "screen_of w h pb s"
  shows "\<exists>t F t' G. terminal_new pr s = Inr (Some t, s\<lparr>fb := F\<rparr>) \<and> emit (term_putb pr) bs (t, s\<lparr>fb := F\<rparr>) = Inr (t', s\<lparr>fb := G\<rparr>) \<and>
    length G = length (fb s) \<and> text_shown w h pb bs (s\<lparr>fb := G\<rparr>)"
proof -
  let ?t = "fresh_term w h pb"
  obtain rest where "framebuffers s = Some ((w, h, pb) # rest)" "screen_fits w h pb s"
    using assms by (auto simp: screen_of_def)
  then obtain F where F: "terminal_new pr s = Inr (Some ?t, s\<lparr>fb := F\<rparr>)" "length F = length (fb s)"
    "views (?t, s\<lparr>fb := F\<rparr>) (0, 0, \<lambda>y x. COLOR_BG)"
    using terminal_new_eq by blast
  obtain ts where ts: "emit (term_putb pr) bs (?t, s\<lparr>fb := F\<rparr>) = Inr ts" "same_term (?t, s\<lparr>fb := F\<rparr>) ts"
    "views ts (text_puts (font s) ?t bs (0, 0, \<lambda>y x. COLOR_BG))"
    using emit_views [OF F(3), of pr bs] by auto
  obtain c r G where G: "ts = (?t\<lparr>tcol := c, trow := r\<rparr>, s\<lparr>fb := G\<rparr>)" "length G = length (fb s)"
    using ts(2) F(2) by (cases ts) (auto simp: same_term_def)
  obtain c' r' P where P: "text_puts (font s) ?t bs (0, 0, \<lambda>y x. COLOR_BG) = (c', r', P)" by (metis prod_cases3)
  have "shows_picture ?t (s\<lparr>fb := G\<rparr>) P" using ts(3) by (simp add: P views_def G(1) shows_picture_def)
  then have "text_shown w h pb bs (s\<lparr>fb := G\<rparr>)" by (simp add: text_shown_def P)
  then show ?thesis using F(1) ts(1) G by blast
qed

lemma show_count_ok:
  assumes "no_screen s \<or> screen_of w h pb s"
  shows "\<exists>F. show_count pr title count s = Inr (s\<lparr>fb := F\<rparr>) \<and> length F = length (fb s) \<and>
    (screen_of w h pb s \<longrightarrow> text_shown w h pb (count_text title count) (s\<lparr>fb := F\<rparr>))"
proof (cases "screen_of w h pb s")
  case True
  have "unat count < 10 ^ 10" using unsigned_less [of count, where ?'a = nat] by simp
  then have dec: "put_dec pr 10 (term_putb pr) (unat count) ts = emit (term_putb pr) (dec_text (unat count)) ts" for ts :: "'a tty"
    by (rule put_dec_eq)
  have "show_count pr title count s = andThen (terminal_new pr s) (\<lambda>(t, s). case t of None \<Rightarrow> Inr s
      | Some t \<Rightarrow> andThen (emit (term_putb pr) (count_text title count) (t, s)) (\<lambda>ts. Inr (snd ts)))"
    by (simp only: show_count_def count_text_def term_print_def dec emit_append andThen_assoc cong: andThen_cong option.case_cong prod.case_cong)
  then show ?thesis using emit_fresh [OF True, of pr "count_text title count"] True by fastforce
next
  case False
  then have "no_screen s" using assms by blast
  then have "show_count pr title count s = Inr s" by (auto simp: show_count_def no_screen_def terminal_new_def)
  then show ?thesis using False by (intro exI [of _ "fb s"]) simp
qed

section \<open>Sleeping\<close>

lemma sleep_hands_over:
  fixes s :: "'a sched_state_scheme"
  assumes inv: "sched_inv s" and c: "current s \<noteq> 0" and ms: "unat ms * 100 < usize_lim" "n = max (ms * 100 div 1000) 1"
    and fits: "pr = Dev \<longrightarrow> unat (tick_count s) + unat n < usize_lim"
  shows "\<exists>j bs. j < 32 \<and> j \<noteq> current s \<and> tstate (tasks s ! j) = Ready \<and>
    sleep_ms pr ms s = Inr (Some (current s, j), s\<lparr>tasks := (tasks s)[current s := (tasks s ! current s)\<lparr>tstate := Blocked, sleep_until := tick_count s + n\<rparr>,
      j := runs (tasks s ! j)], rflags_reg := cli (rflags_reg s), current := j, ticks_on_current := 0,
      io_log := tx_log (dev_in s) (io_log s) bs\<rparr>)"
proof -
  note d = sched_invD [OF inv]
  let ?c = "current s" and ?t = "(tasks s ! current s)\<lparr>tstate := Blocked, sleep_until := tick_count s + n\<rparr>"
  define s1 where "s1 = set_task ?c ?t (cli_insn s)"
  have s1: "tasks s1 = (tasks s)[?c := ?t]" "current s1 = ?c" "dev_in s1 = dev_in s" "io_log s1 = io_log s" "\<not> task_lock s1"
    "s1 = s\<lparr>tasks := (tasks s)[?c := ?t], rflags_reg := cli (rflags_reg s)\<rparr>"
    using d by (simp_all add: s1_def set_task_def cli_insn_def)
  have ok: "table_ok s1" using d(1,2,4) by (auto simp: table_ok_def s1 dest!: subsetD [OF set_update_subset_insert])
  have g: "serial_good s1" using d(3) by (simp add: s1)
  have m: "wmul pr ms (ucast TICKS_PER_SECOND) = Inr (ms * 100)" "wadd pr (ticks s) n = Inr (tick_count s + n)"
    using ms(1) fits by (auto simp: wmul_def wadd_def TICKS_PER_SECOND_def ticks_def)
  have run: "sleep_ms pr ms s = schedule pr s1"
    using d(1,2) by (simp add: sleep_ms_def m(1) m(2) [unfolded ms(2)] s1_def ms(2) Let_def block_until_def get_task_def cli_insn_def)
  have demote: "demote (tasks s1) ?c = tasks s1" using d(1,2) by (simp add: demote_def s1(1))
  have "tstate (tasks s1 ! 0) = Ready" using d(10) [OF c] c by (simp add: s1(1))
  then have "\<not> (\<forall>j < 32. tstate (tasks s1 ! j) \<noteq> Ready)" using zero_less_numeral by blast
  then have "chosen (tasks s1) ?c \<noteq> None" unfolding chosen_def demote by (simp only: find_rotation_None [OF d(2)] not_False_eq_True)
  then obtain j where j: "chosen (tasks s1) ?c = Some j" by auto
  then have j2: "j < 32" "tstate (tasks s1 ! j) = Ready"
    using iffD1 [OF find_rotation_Some [OF d(2)] j [unfolded chosen_def demote]] by blast+
  have jc: "j \<noteq> ?c" using j2(2) d(1,2) by (auto simp: s1(1))
  have "\<exists>bs. schedule pr s1 = Inr (Some (?c, j), s1\<lparr>tasks := (tasks s1)[j := runs (tasks s1 ! j)], current := j,
            ticks_on_current := 0, io_log := tx_log (dev_in s) (io_log s) bs\<rparr>)"
    using schedule_result [OF ok s1(5) g, of pr] jc by (simp add: s1(2-4) j demote)
  then obtain bs where "schedule pr s1 = Inr (Some (?c, j), s1\<lparr>tasks := (tasks s1)[j := runs (tasks s1 ! j)], current := j,
            ticks_on_current := 0, io_log := tx_log (dev_in s) (io_log s) bs\<rparr>)" ..
  then have "sleep_ms pr ms s = Inr (Some (?c, j), s\<lparr>tasks := (tasks s)[?c := ?t, j := runs (tasks s ! j)], rflags_reg := cli (rflags_reg s),
      current := j, ticks_on_current := 0, io_log := tx_log (dev_in s) (io_log s) bs\<rparr>)"
    unfolding run using jc by (simp add: s1(1,6))
  moreover have "tstate (tasks s ! j) = Ready" using j2(2) jc by (simp add: s1(1))
  ultimately show ?thesis using j2(1) jc by blast
qed


section \<open>The rounds\<close>

text \<open>What a round leaves: its message on the serial line and on the screen, and the task asleep.\<close>

definition round_done ::
    "string \<Rightarrow> string \<Rightarrow> u64 \<Rightarrow> u32 \<Rightarrow> nat \<Rightarrow> nat \<Rightarrow> nat \<Rightarrow> 'a screen_state_scheme \<Rightarrow> nat \<Rightarrow> 'a screen_state_scheme \<Rightarrow> bool" where
  "round_done tag title n count w h pb s j s' \<longleftrightarrow>
     sched_inv s' \<and> current s' = j \<and> j \<noteq> current s \<and> tstate (tasks s ! j) = Ready \<and>
     tstate (tasks s' ! current s) = Blocked \<and> sleep_until (tasks s' ! current s) = tick_count s + n \<and>
     (\<exists>bs. com1_out (io_log s') = com1_out (io_log s) @ crlf (asc tag) @ dec_text (unat count) @ crlf [10] @ bs) \<and>
     (screen_of w h pb s \<longrightarrow> text_shown w h pb (count_text title count) s')"

lemma demo_round_ok:
  fixes s :: "'a screen_state_scheme"
  assumes inv: "sched_inv s" and c: "current s \<noteq> 0" and scr: "no_screen s \<or> screen_of w h pb s"
    and ms: "unat ms * 100 < usize_lim" "n = max (ms * 100 div 1000) 1"
    and fits: "pr = Dev \<longrightarrow> unat (tick_count s) + unat n < usize_lim \<and> unat (tick_count s) + unat ms + 1 < usize_lim"
    and count: "\<not> (pr = Dev \<and> count = -1)"
  shows "\<exists>j s'. demo_round pr tag title ms count s = Inr (Some (current s, j), count + 1, s') \<and> round_done tag title n count w h pb s j s'"
proof -
  note d = sched_invD [OF inv]
  let ?g = "\<lambda>l. s\<lparr>io_log := l\<rparr>" and ?tx = "tx_log (dev_in s)"
  have g: "serial_good (?g l)" for l using d(3) by simp
  have u: "unat count < usize_lim" using unsigned_less [of count, where ?'a = nat] by simp
  define l where "l = ?tx (?tx (?tx (io_log s) (crlf (map of_char tag))) (dec_text (unat count))) (crlf (map of_char ''\<newline>''))"
  have 1: "serial_print tag s = Inr (?g (?tx (io_log s) (crlf (map of_char tag))))" by (rule serial_print_eq [OF d(3)])
  have 2: "serial_print_usize pr (unat count) (?g l) = Inr (?g (?tx l (dec_text (unat count))))" for l
    using serial_print_usize_eq [OF g u, of pr l] by simp
  have 3: "serial_print ''\<newline>'' (?g l) = Inr (?g (?tx l (crlf (map of_char ''\<newline>''))))" for l
    using serial_print_eq [OF g, of "''\<newline>''" l] by simp
  have out: "com1_out l = com1_out (io_log s) @ crlf (asc tag) @ dec_text (unat count) @ crlf [10]"
    by (simp add: l_def asc_def)
  have scr1: "no_screen (?g l) \<or> screen_of w h pb (?g l)" using scr by (simp add: no_screen_def screen_of_def screen_fits_def)
  obtain F where F: "show_count pr title count (?g l) = Inr (s\<lparr>io_log := l, fb := F\<rparr>)" "length F = length (fb s)"
    "screen_of w h pb s \<longrightarrow> text_shown w h pb (count_text title count) (s\<lparr>io_log := l, fb := F\<rparr>)"
    using show_count_ok [OF scr1, of pr title count] by (auto simp: screen_of_def screen_fits_def)
  let ?s2 = "s\<lparr>io_log := l, fb := F\<rparr>"
  have inv2: "sched_inv ?s2" by (rule sched_inv_same [OF inv]) (simp_all add: vm_part_def)
  have c2: "current ?s2 \<noteq> 0" and al: "allowed pr (Sleep ms) ?s2" and f2: "pr = Dev \<longrightarrow> unat (tick_count ?s2) + unat n < usize_lim"
    using c fits ms(1) by (simp_all add: allowed_def)
  obtain j bs where j: "j < 32" "j \<noteq> current s" "tstate (tasks s ! j) = Ready"
    "sleep_ms pr ms ?s2 = Inr (Some (current s, j), ?s2\<lparr>tasks := (tasks s)[current s := (tasks s ! current s)\<lparr>tstate := Blocked, sleep_until := tick_count s + n\<rparr>,
      j := runs (tasks s ! j)], rflags_reg := cli (rflags_reg s), current := j, ticks_on_current := 0, io_log := tx_log (dev_in s) l bs\<rparr>)"
    using sleep_hands_over [OF inv2 c2 ms f2] by auto
  let ?s' = "?s2\<lparr>tasks := (tasks s)[current s := (tasks s ! current s)\<lparr>tstate := Blocked, sleep_until := tick_count s + n\<rparr>,
      j := runs (tasks s ! j)], rflags_reg := cli (rflags_reg s), current := j, ticks_on_current := 0, io_log := tx_log (dev_in s) l bs\<rparr>"
  have "wadd pr count 1 = Inr (count + 1)"
  proof -
    have "unat count + 1 < 2 ^ 32" if "count \<noteq> -1"
      using that word_order.not_eq_extremum [of count]
      by (simp add: word_less_nat_alt unsigned_minus_1_eq_mask mask_eq_exp_minus_1)
    then show ?thesis using count by (auto simp: wadd_def)
  qed
  then have "demo_round pr tag title ms count s = Inr (Some (current s, j), count + 1, ?s')"
    by (simp only: demo_round_def 1 2 3 l_def [symmetric] F(1) j(4) andThen.simps prod.case)
  moreover have "sched_inv ?s'" using sleep_ok [OF inv2 c2 al, of undefined] unfolding j(4) by blast
  moreover have "com1_out (io_log ?s') = com1_out (io_log s) @ crlf (asc tag) @ dec_text (unat count) @ crlf [10] @ bs"
    using out by simp
  moreover have "text_shown w h pb bs ?s' = text_shown w h pb bs ?s2" for bs by (simp add: text_shown_def shows_picture_def)
  ultimately show ?thesis using j(2,3) F(3) d(1,2) by (intro exI [of _ j] exI [of _ ?s']) (simp add: round_done_def)
qed


lemma demo_round_overflows:
  fixes s :: "'a screen_state_scheme"
  assumes g: "serial_good s" and scr: "no_screen s \<or> screen_of w h pb s"
  shows "demo_round Dev tag title ms (-1) s = Inl Overflow"
proof -
  let ?g = "\<lambda>l. s\<lparr>io_log := l\<rparr>"
  have scr1: "no_screen (?g l) \<or> screen_of w h pb (?g l)" for l using scr by (simp add: no_screen_def screen_of_def screen_fits_def)
  have g1: "serial_good (?g l)" for l using g by simp
  have u: "unat (-1 :: u32) < usize_lim" by (rule word_usize)
  obtain l1 where 1: "serial_print tag s = Inr (?g l1)" using printsD [OF prints_basic(1) g] by blast
  obtain l2 where 2: "serial_print_usize Dev (unat (-1 :: u32)) (?g l1) = Inr (?g l2)" using printsD [OF prints_basic(3) [OF u] g1] by fastforce
  obtain l3 where 3: "serial_print ''\<newline>'' (?g l2) = Inr (?g l3)" using printsD [OF prints_basic(1) g1] by fastforce
  obtain F where 4: "show_count Dev title (-1) (?g l3) = Inr (s\<lparr>io_log := l3, fb := F\<rparr>)"
    using show_count_ok [OF scr1, of Dev title "-1" l3] by auto
  have 5: "wadd Dev (-1 :: u32) 1 = Inl Overflow" by (simp add: wadd_def unsigned_minus_1_eq_mask mask_eq_exp_minus_1)
  show ?thesis by (simp only: demo_round_def 1 2 3 4 5 andThen.simps)
qed

section \<open>Panics\<close>

definition panic_bytes :: "(string \<times> nat) option \<Rightarrow> u8 list" where
  "panic_bytes loc = crlf (asc ''\<newline>!!! KERNEL PANIC !!!\<newline>'') @ (case loc of None \<Rightarrow> []
     | Some (file, lineno) \<Rightarrow> crlf (asc ''at: '' @ asc file @ asc '':'') @ dec_text lineno @ crlf [10])"

definition panic_shown :: "nat \<Rightarrow> nat \<Rightarrow> nat \<Rightarrow> (string \<times> nat) option \<Rightarrow> 'a screen_state_scheme \<Rightarrow> bool" where
  "panic_shown w h pb loc s \<longleftrightarrow>
     (\<exists>c r P. text_puts (font s) (fresh_term w h pb) (case loc of None \<Rightarrow> [] | Some (file, _) \<Rightarrow> asc ''at: '' @ asc file @ [10])
       (text_puts (font s) (panic_term w h pb) (asc ''\<newline>KERNEL PANIC\<newline>'') (0, 0, \<lambda>y x. COLOR_BG)) = (c, r, P) \<and>
       shows_picture (fresh_term w h pb) s P)"

lemma crlf_append: "crlf (as @ bs) = crlf as @ crlf bs"
  by (simp add: crlf_def)

lemma panic_serial_eq:
  fixes s :: "'a machine_scheme"
  assumes g: "serial_good s" and n: "\<And>file lineno. loc = Some (file, lineno) \<Longrightarrow> lineno < usize_lim"
  shows "\<exists>l. panic_serial pr loc s = Inr (s\<lparr>io_log := l\<rparr>) \<and> com1_out l = com1_out (io_log s) @ panic_bytes loc"
proof (cases loc)
  case None
  then show ?thesis using g by (simp add: panic_serial_def serial_print_eq panic_bytes_def asc_def del: tx_log.simps list.map)
      (intro exI conjI, rule refl, simp)
next
  case (Some p)
  obtain f k where p: "p = (f, k)" by (cases p)
  have n: "k < usize_lim" using assms(2) Some p by blast
  then show ?thesis using g
    by (simp add: panic_serial_def Some p serial_print_eq serial_print_usize_eq panic_bytes_def asc_def crlf_append del: tx_log.simps list.map)
      (intro exI conjI, rule refl, simp)
qed

text \<open>The location on the screen, in the colours the terminal has then.\<close>

definition loc_bytes :: "(string \<times> nat) option \<Rightarrow> u8 list" where
  "loc_bytes loc = (case loc of None \<Rightarrow> [] | Some (file, _) \<Rightarrow> asc ''at: '' @ asc file @ [10])"

lemma panic_location:
  "(case loc of None \<Rightarrow> Inr ts | Some (file, _) \<Rightarrow>
      andThen (term_print pr ''at: '' ts) (\<lambda>ts. andThen (term_print pr file ts) (term_print pr ''\<newline>''))) =
   emit (term_putb pr) (loc_bytes loc) ts"
proof (cases loc)
  case (Some p)
  have "asc ''\<newline>'' = [10]" by (simp add: asc_def)
  then show ?thesis
    by (cases p) (simp only: Some option.case prod.case loc_bytes_def term_print_def [abs_def] emit_append [abs_def])
qed (simp add: loc_bytes_def)

lemma text_puts_moved: "text_puts h (t\<lparr>tcol := c, trow := r\<rparr>) bs v = text_puts h t bs v"
proof -
  have "same_term (t, s) (t\<lparr>tcol := c, trow := r\<rparr>, s)" for s :: screen_state
    using same_termI [of "fb s" s t r c] by simp
  from same_termD [OF this] show ?thesis unfolding text_puts_def by simp
qed

lemma panic_screen_eq:
  fixes s :: "'a sys_state_scheme"
  assumes "screen_of w h pb s"
  shows "\<exists>t F t1 F1 t2 G. terminal_new pr s = Inr (Some t, s\<lparr>fb := F\<rparr>) \<and>
    term_print pr ''\<newline>KERNEL PANIC\<newline>'' (set_color COLOR_PANIC COLOR_BG (t, s\<lparr>fb := F\<rparr>)) = Inr (t1, s\<lparr>fb := F1\<rparr>) \<and>
    emit (term_putb pr) (loc_bytes loc) (set_color COLOR_FG COLOR_BG (t1, s\<lparr>fb := F1\<rparr>)) = Inr (t2, s\<lparr>fb := G\<rparr>) \<and>
    length G = length (fb s) \<and> panic_shown w h pb loc (s\<lparr>fb := G\<rparr>)"
proof -
  let ?t = "fresh_term w h pb" and ?p = "panic_term w h pb" and ?m = "asc ''\<newline>KERNEL PANIC\<newline>''"
  obtain rest where "framebuffers s = Some ((w, h, pb) # rest)" "screen_fits w h pb s"
    using assms by (auto simp: screen_of_def)
  then obtain F where F: "terminal_new pr s = Inr (Some ?t, s\<lparr>fb := F\<rparr>)" "length F = length (fb s)"
    "views (?t, s\<lparr>fb := F\<rparr>) (0, 0, \<lambda>y x. COLOR_BG)"
    using terminal_new_eq by blast
  have col: "set_color COLOR_PANIC COLOR_BG (?t, s) = (?p, s)" for s :: "'a sys_state_scheme"
    by (simp add: set_color_def panic_term_def)
  have "views (?p, s\<lparr>fb := F\<rparr>) (0, 0, \<lambda>y x. COLOR_BG)" unfolding panic_term_def by (rule views_recoloured [OF F(3)])
  from emit_views [OF this, of pr ?m] obtain ts where ts: "emit (term_putb pr) ?m (?p, s\<lparr>fb := F\<rparr>) = Inr ts"
    "same_term (?p, s\<lparr>fb := F\<rparr>) ts" "views ts (text_puts (font s) ?p ?m (0, 0, \<lambda>y x. COLOR_BG))" by auto
  obtain c r F1 where 1: "ts = (?p\<lparr>tcol := c, trow := r\<rparr>, s\<lparr>fb := F1\<rparr>)" "length F1 = length (fb s)"
    using ts(2) F(2) by (cases ts) (auto simp: same_term_def)
  let ?t1 = "?t\<lparr>tcol := c, trow := r\<rparr>" and ?v = "text_puts (font s) ?p ?m (0, 0, \<lambda>y x. COLOR_BG)"
  have "?t1 = (?p\<lparr>tcol := c, trow := r\<rparr>)\<lparr>tfg := COLOR_FG, tbg := COLOR_BG\<rparr>" by (simp add: panic_term_def fresh_term_def)
  moreover from this have "views (?t1, s\<lparr>fb := F1\<rparr>) ?v" using views_recoloured [OF ts(3) [unfolded 1(1)]] by simp
  ultimately have recol: "set_color COLOR_FG COLOR_BG (?p\<lparr>tcol := c, trow := r\<rparr>, s\<lparr>fb := F1\<rparr>) = (?t1, s\<lparr>fb := F1\<rparr>)"
    and v1: "views (?t1, s\<lparr>fb := F1\<rparr>) ?v" by (simp_all add: set_color_def)
  from emit_views [OF v1, of pr "loc_bytes loc"] obtain us where us: "emit (term_putb pr) (loc_bytes loc) (?t1, s\<lparr>fb := F1\<rparr>) = Inr us"
    "same_term (?t1, s\<lparr>fb := F1\<rparr>) us" "views us (text_puts (font s) ?t1 (loc_bytes loc) ?v)" by auto
  obtain c' r' G where 2: "us = (?t1\<lparr>tcol := c', trow := r'\<rparr>, s\<lparr>fb := G\<rparr>)" "length G = length (fb s)"
    using us(2) 1(2) by (cases us) (auto simp: same_term_def)
  obtain c2 r2 P where P: "text_puts (font s) ?t (loc_bytes loc) ?v = (c2, r2, P)" by (metis prod_cases3)
  have "shows_picture ?t (s\<lparr>fb := G\<rparr>) P"
    using us(3) unfolding text_puts_moved P by (simp add: views_def 2(1) shows_picture_def)
  then have "panic_shown w h pb loc (s\<lparr>fb := G\<rparr>)" using P by (simp add: panic_shown_def loc_bytes_def)
  moreover have "term_print pr ''\<newline>KERNEL PANIC\<newline>'' (set_color COLOR_PANIC COLOR_BG (?t, s\<lparr>fb := F\<rparr>)) =
      Inr (?p\<lparr>tcol := c, trow := r\<rparr>, s\<lparr>fb := F1\<rparr>)"
    using ts(1) by (simp add: col term_print_def 1(1))
  ultimately show ?thesis using F(1) recol us(1) 2 by metis
qed


lemma panic_result:
  fixes s :: "'a sys_state_scheme"
  assumes g: "serial_good s" and scr: "no_screen s \<or> screen_of w h pb s"
    and n: "\<And>f k. loc = Some (f, k) \<Longrightarrow> k < usize_lim"
  shows "\<exists>l F. panic pr loc s = Inr (Halted, s\<lparr>io_log := l, fb := F, rflags_reg := cli (rflags_reg s)\<rparr>) \<and>
    com1_out l = com1_out (io_log s) @ panic_bytes loc \<and> length F = length (fb s) \<and>
    (screen_of w h pb s \<longrightarrow> panic_shown w h pb loc (s\<lparr>fb := F\<rparr>))"
proof -
  have idem: "cli (cli f) = cli f" for f by (simp add: cli_def and.assoc)
  let ?c = "s\<lparr>rflags_reg := cli (rflags_reg s)\<rparr>"
  obtain l where l: "panic_serial pr loc (cli_insn s) = Inr (?c\<lparr>io_log := l\<rparr>)" "com1_out l = com1_out (io_log s) @ panic_bytes loc"
    using panic_serial_eq [of ?c loc pr] g n by (auto simp: cli_insn_def)
  let ?s = "?c\<lparr>io_log := l\<rparr>"
  show ?thesis
  proof (cases "screen_of w h pb s")
    case True
    then have "screen_of w h pb ?s" by (simp add: screen_of_def screen_fits_def)
    from panic_screen_eq [OF this, of pr loc] obtain t F t1 F1 t2 G where x: "terminal_new pr ?s = Inr (Some t, ?s\<lparr>fb := F\<rparr>)"
      "term_print pr ''\<newline>KERNEL PANIC\<newline>'' (set_color COLOR_PANIC COLOR_BG (t, ?s\<lparr>fb := F\<rparr>)) = Inr (t1, ?s\<lparr>fb := F1\<rparr>)"
      "emit (term_putb pr) (loc_bytes loc) (set_color COLOR_FG COLOR_BG (t1, ?s\<lparr>fb := F1\<rparr>)) = Inr (t2, ?s\<lparr>fb := G\<rparr>)"
      "length G = length (fb ?s)" "panic_shown w h pb loc (?s\<lparr>fb := G\<rparr>)" by blast
    have "panic pr loc s = Inr (halt_forever (?s\<lparr>fb := G\<rparr>))"
      by (simp only: panic_def panic_location l(1) x(1-3) andThen.simps prod.case option.case Let_def snd_conv)
    moreover have "panic_shown w h pb loc (s\<lparr>fb := G\<rparr>)" using x(5) by (simp add: panic_shown_def shows_picture_def)
    ultimately show ?thesis using l(2) x(4) by (intro exI [of _ l] exI [of _ G]) (simp add: halt_forever_def cli_insn_def idem)
  next
    case False
    then have "no_screen ?s" using scr by (simp add: no_screen_def)
    then have "terminal_new pr ?s = Inr (None, ?s)" by (auto simp: no_screen_def terminal_new_def)
    then have "panic pr loc s = Inr (halt_forever ?s)"
      by (simp only: panic_def l(1) andThen.simps prod.case option.case)
    then show ?thesis using l(2) False by (intro exI [of _ l] exI [of _ "fb s"]) (simp add: halt_forever_def cli_insn_def idem)
  qed
qed

section \<open>Properties\<close>

text \<open>C32: a round of a demo task, in any kernel that keeps the scheduler's invariant and with or without a screen: it
  sends its message with the count in decimal on the serial line, shows the same count on a cleared screen,
  counts up and hands the processor to another task that was ready, itself asleep for 50 (task a) or 70
  (task b) ticks, the invariant kept. Only with 2^32 - 1 rounds behind it does it panic, and only where
  overflow is checked.\<close>

theorem demo_rounds:
  fixes s :: "'a screen_state_scheme"
  assumes "sched_inv s" and "current s \<noteq> 0" and "no_screen s \<or> screen_of w h pb s" and "unat (tick_count s) + 701 < usize_lim"
  shows "if pr = Dev \<and> count = -1 then task_a_round pr count s = Inl Overflow \<and> task_b_round pr count s = Inl Overflow
    else (\<exists>j s'. task_a_round pr count s = Inr (Some (current s, j), count + 1, s') \<and>
        round_done ''[task_a] tick'' ''Process A (count='' 50 count w h pb s j s') \<and>
      (\<exists>j s'. task_b_round pr count s = Inr (Some (current s, j), count + 1, s') \<and>
        round_done ''[task_b] tick'' ''Process B (count='' 70 count w h pb s j s')"
proof (cases "pr = Dev \<and> count = -1")
  case True
  then show ?thesis using demo_round_overflows [OF sched_invD(3) [OF assms(1)] assms(3)] by (simp add: task_a_round_def task_b_round_def)
next
  case False
  have "unat (500 :: u64) * 100 < usize_lim" "(50 :: u64) = max (500 * 100 div 1000) 1"
    "unat (700 :: u64) * 100 < usize_lim" "(70 :: u64) = max (700 * 100 div 1000) 1"
    "pr = Dev \<longrightarrow> unat (tick_count s) + unat (50 :: u64) < usize_lim \<and> unat (tick_count s) + unat (500 :: u64) + 1 < usize_lim"
    "pr = Dev \<longrightarrow> unat (tick_count s) + unat (70 :: u64) < usize_lim \<and> unat (tick_count s) + unat (700 :: u64) + 1 < usize_lim"
    using assms(4) by simp_all
  note n = this
  show ?thesis
    unfolding if_not_P [OF False] task_a_round_def task_b_round_def
    by (intro conjI demo_round_ok [OF assms(1-3) n(1,2,5) False] demo_round_ok [OF assms(1-3) n(3,4,6) False])
qed

text \<open>The first task of the booted machine, once it runs.\<close>

lemma small_machine_runs: "\<exists>s :: sys_state. sched_inv s \<and> current s \<noteq> 0 \<and> no_screen s \<and> tick_count s = 0"
proof -
  obtain s :: sys_state where b: "booted (\<lambda>v. 0) 0 0 0 0 s" using small_machine_boots [of "\<lambda>v. 0" 0 0 0 0] by blast
  then have inv: "sched_inv s" and c: "current s = 0" and r: "tstate (tasks s ! 1) = Ready" by (simp_all add: booted_def)
  obtain n sw s2 where h: "handed_over s n sw s2" using schedule_hands_over [OF sched_inv_leaving [OF inv]] by blast
  have "tstate (demote (tasks s) (current s) ! 1) = Ready" using r c by (simp add: demote_def)
  then have "cdist 0 n \<le> cdist 0 1" "current s2 = n" using h c unfolding handed_over_def by auto
  then have "current s2 \<noteq> 0" by (intro notI) (simp add: cdist_def)
  moreover have inv2: "sched_inv s2" by (rule handed_over_inv [OF h sched_inv_leaving [OF inv]])
  moreover have "sched_inv (s2\<lparr>framebuffers := None, tick_count := 0\<rparr>)"
    by (rule sched_inv_same [OF inv2]) (simp_all add: vm_part_def)
  ultimately show ?thesis by (intro exI [of _ "s2\<lparr>framebuffers := None, tick_count := 0\<rparr>"]) (simp add: no_screen_def)
qed

theorem demo_rounds_witness:
  "\<exists>(s :: sys_state) j s'. task_a_round Dev 9 s = Inr (Some (current s, j), 10, s') \<and> sched_inv s'"
proof -
  obtain s :: sys_state where s: "sched_inv s" "current s \<noteq> 0" "no_screen s" "tick_count s = 0" using small_machine_runs by blast
  have "unat (tick_count s) + 701 < usize_lim" by (simp add: s(4))
  from demo_rounds [OF s(1,2) disjI1 [OF s(3), of "screen_of 0 0 0 s"] this, of Dev 9]
  show ?thesis by (simp add: round_done_def) blast
qed

text \<open>C31: the panic handler always gets its message out and stops: from any state with a working serial port, with or
  without a screen, and whatever state the rest of the kernel is in, it sends the message and the location on
  the serial line, shows them on a cleared screen (the headline in the panic colour), changes nothing else and
  ends in \<open>cli; hlt\<close> with interrupts off.\<close>

theorem panic_halts:
  fixes s :: "'a sys_state_scheme"
  assumes "serial_good s" and "no_screen s \<or> screen_of w h pb s" and "lineno < usize_lim"
  shows "\<exists>l F. panic pr (Some (path, lineno)) s = Inr (Halted, s\<lparr>io_log := l, fb := F, rflags_reg := cli (rflags_reg s)\<rparr>) \<and>
    com1_out l = com1_out (io_log s) @ panic_bytes (Some (path, lineno)) \<and> length F = length (fb s) \<and>
    (screen_of w h pb s \<longrightarrow> panic_shown w h pb (Some (path, lineno)) (s\<lparr>fb := F\<rparr>)) \<and>
    \<not> bit (cli (rflags_reg s)) IF_bit"
proof -
  have "\<not> bit (cli f) IF_bit" for f by (simp add: cli_def bit_simps IF_bit_def)
  then show ?thesis using panic_result [OF assms(1,2), of "Some (path, lineno)" pr] assms(3) by auto
qed

theorem panic_halts_witness:
  "\<exists>l F. panic Dev (Some (''src/main.rs'', 86)) (small_sys\<lparr>dev_in := (\<lambda>l p. 0xff), io_log := []\<rparr>) =
      Inr (Halted, small_sys\<lparr>dev_in := (\<lambda>l p. 0xff), io_log := l, fb := F, rflags_reg := cli (rflags_reg small_sys)\<rparr>) \<and>
    com1_out l = panic_bytes (Some (''src/main.rs'', 86))"
proof -
  let ?s = "small_sys\<lparr>dev_in := (\<lambda>l p. 0xff), io_log := []\<rparr>"
  have "serial_good ?s" "screen_of 16 32 64 ?s"
    using small_sys_screen by (simp_all add: uart_ready_ff screen_of_def screen_fits_def)
  from panic_halts [OF this(1) disjI2 [OF this(2)], of 86 Dev "''src/main.rs''"] show ?thesis by auto
qed

end
