(* ===== verification/Memtest.thy ===== *)
theory Memtest
  imports Boot
begin

text \<open>
  The shell's \<open>memtest\<close> command (\<open>shell/simple_shell.rs\<close>) against the heap: what the command reports, and
  that it leaves the heap's clients alone.
\<close>

section \<open>Room\<close>

text \<open>A free block of \<open>M\<close> bytes.\<close>

definition roomy :: "nat \<Rightarrow> (nat \<times> bool) list \<Rightarrow> bool" where
  "roomy M bs \<longleftrightarrow> (\<exists>sz. (sz, False) \<in> set bs \<and> M \<le> sz)"

lemma roomy_Cons: "roomy M ((sz, u) # bs) \<longleftrightarrow> \<not> u \<and> M \<le> sz \<or> roomy M bs"
  by (auto simp: roomy_def)

lemma roomy_mono: "roomy M bs \<Longrightarrow> K \<le> M \<Longrightarrow> roomy K bs"
  by (auto simp: roomy_def intro: order_trans)

lemma first_fit_roomy:
  assumes "roomy M bs" and "n + HEADER_SIZE + ALIGN < M"
  shows "\<exists>p bs'. first_fit n a bs = Some (p, bs') \<and> roomy (M - n - HEADER_SIZE) bs'"
  using assms(1)
proof (induction bs arbitrary: a)
  case (Cons b bs)
  obtain sz u where b: "b = (sz, u)" by fastforce
  show ?case
  proof (cases "\<not> u \<and> n \<le> sz")
    case True
    then show ?thesis
    proof (cases "n + HEADER_SIZE + ALIGN < sz")
      case split: True
      show ?thesis
      proof (cases "M \<le> sz")
        case True
        then show ?thesis using \<open>\<not> u \<and> n \<le> sz\<close> split by (simp add: b roomy_Cons diff_le_mono)
      next
        case False
        then have "roomy M bs" using Cons.prems by (simp add: b roomy_Cons)
        then have "roomy (M - n - HEADER_SIZE) bs" by (rule roomy_mono) simp
        then show ?thesis using \<open>\<not> u \<and> n \<le> sz\<close> split by (simp add: b roomy_Cons)
      qed
    next
      case False
      then have "roomy M bs" using Cons.prems assms(2) by (auto simp: b roomy_Cons)
      then have "roomy (M - n - HEADER_SIZE) bs" by (rule roomy_mono) simp
      then show ?thesis using True False by (simp add: b roomy_Cons)
    qed
  next
    case False
    then have "roomy M bs" using Cons.prems assms(2) by (auto simp: b roomy_Cons)
    from Cons.IH [OF this, of "a + HEADER_SIZE + sz"] show ?thesis using False by (auto simp: b roomy_Cons)
  qed
qed (simp add: roomy_def)

lemma release_roomy: "roomy M bs \<Longrightarrow> roomy M (release p a bs)"
proof (induction bs arbitrary: a)
  case (Cons b bs)
  obtain sz u where b: "b = (sz, u)" by fastforce
  have "roomy M (merge_next sz bs)" if "roomy M ((sz, u) # bs)"
    using that by (cases "(sz, bs)" rule: merge_next.cases) (auto simp: roomy_Cons)
  then show ?case using Cons by (auto simp: b roomy_Cons)
qed (simp add: roomy_def)

section \<open>The command's steps\<close>

text \<open>Between two steps only the heap, the bytes in it and the screen differ from the start \<open>s\<close>.\<close>

definition testing :: "terminal \<Rightarrow> 'a sys_state_scheme \<Rightarrow> view \<Rightarrow> nat \<Rightarrow> (nat \<times> nat) set \<Rightarrow> (nat \<Rightarrow> u8 option) \<Rightarrow>
    'a console \<Rightarrow> bool" where
  "testing t s v M L B = (\<lambda>(t', s'). views (t', s') v \<and> geo t' = geo t \<and> heap_inv s' \<and> live_blocks s' = L \<and> bytes s' = B \<and>
     (\<exists>bs. heap_blocks s' bs \<and> roomy M bs) \<and>
     (\<exists>H F. s' = s\<lparr>headers := H, bytes := B, fb := F\<rparr> \<and> length F = length (fb s)))"

lemma testingI:
  assumes "views (t', s') v" "geo t' = geo t" "heap_inv s'" "live_blocks s' = L" "heap_blocks s' bs" "roomy M bs"
    "s' = s\<lparr>headers := H, bytes := B, fb := F\<rparr>" "length F = length (fb s)"
  shows "testing t s v M L B (t', s')"
proof -
  have "bytes s' = B" by (simp add: assms(7))
  then show ?thesis using assms unfolding testing_def prod.case by blast
qed

lemma testingE:
  assumes "testing t s v M L B (t', s')"
  obtains bs H F where "views (t', s') v" "geo t' = geo t" "heap_inv s'" "live_blocks s' = L" "heap_blocks s' bs" "roomy M bs"
    "s' = s\<lparr>headers := H, bytes := B, fb := F\<rparr>" "length F = length (fb s)"
  using assms unfolding testing_def prod.case by blast

text \<open>The heap does not see the bytes and the screen.\<close>

lemma heap_unseen:
  fixes s' :: "'a sys_state_scheme"
  shows "heap_inv (s'\<lparr>bytes := B', fb := F\<rparr>) = heap_inv s'" "heap_blocks (s'\<lparr>bytes := B', fb := F\<rparr>) bs = heap_blocks s' bs"
    "live_blocks (s'\<lparr>bytes := B', fb := F\<rparr>) = live_blocks s'"
proof -
  have "vm_part (s'\<lparr>bytes := B', fb := F\<rparr>) = vm_part s'" by (simp add: vm_part_def)
  note c = heap_inv_cong [OF this]
  show "heap_inv (s'\<lparr>bytes := B', fb := F\<rparr>) = heap_inv s'" "heap_blocks (s'\<lparr>bytes := B', fb := F\<rparr>) bs = heap_blocks s' bs" for bs
    by (rule c; simp)+
  then show "live_blocks (s'\<lparr>bytes := B', fb := F\<rparr>) = live_blocks s'" by (simp add: live_blocks_def)
qed

lemma views_headers: "views (t, s\<lparr>headers := H\<rparr>) v = views (t, s) v" for s :: "'a sys_state_scheme"
  by (cases v) (simp add: views_def term_ok_def shows_picture_def)

lemma print_step:
  fixes s :: "'a sys_state_scheme"
  assumes "testing t s v M L B ts"
  shows "\<exists>ts'. emit (term_putb pr) txt ts = Inr ts' \<and> testing t s (text_puts (font s) t txt v) M L B ts'"
proof -
  obtain t1 s1 where ts: "ts = (t1, s1)" by fastforce
  from assms [unfolded ts] obtain bs H F where d: "views (t1, s1) v" "geo t1 = geo t" "heap_inv s1" "live_blocks s1 = L"
    "heap_blocks s1 bs" "roomy M bs" "s1 = s\<lparr>headers := H, bytes := B, fb := F\<rparr>" "length F = length (fb s)"
    by (rule testingE)
  obtain t2 s2 where 2: "emit (term_putb pr) txt (t1, s1) = Inr (t2, s2)" "same_term (t1, s1) (t2, s2)"
    "views (t2, s2) (text_puts (font s1) t1 txt v)"
    using emit_answers d(1) by blast
  obtain c r G where G: "s2 = s1\<lparr>fb := G\<rparr>" "length G = length (fb s1)" "t2 = t1\<lparr>tcol := c, trow := r\<rparr>"
    using 2(2) by (auto simp: same_term_def)
  have "text_puts (font s) t1 = text_puts (font s) t" using d(2) by (metis geo_simps(2))
  moreover have "font s1 = font s" by (simp add: d(7))
  ultimately have "views (t2, s2) (text_puts (font s) t txt v)" using 2(3) by simp
  moreover have "geo t2 = geo t" by (simp add: G(3) d(2))
  moreover have "s1\<lparr>fb := G\<rparr> = s1\<lparr>bytes := bytes s1, fb := G\<rparr>" by simp
  then have "heap_inv s2" "live_blocks s2 = L" "heap_blocks s2 bs"
    using heap_unseen [where s' = s1 and B' = "bytes s1" and F = G] d(3-5) by (simp_all add: G(1))
  moreover have "s2 = s\<lparr>headers := H, bytes := B, fb := G\<rparr>" by (simp add: G(1) d(7))
  moreover have "length G = length (fb s)" using G(2) d(8) by (simp add: d(7))
  ultimately have "testing t s (text_puts (font s) t txt v) M L B (t2, s2)" using d(6) by (intro testingI)
  then show ?thesis using 2(1) ts by blast
qed

lemma malloc_step:
  fixes s :: "'a sys_state_scheme"
  assumes "testing t s v M L B ts" and n: "0 < n" "round_up16 n + HEADER_SIZE + ALIGN < M" "n \<le> 2 ^ 39"
  shows "\<exists>p sz ts'. malloc pr n ts = Inr (p, ts') \<and> testing t s v (M - round_up16 n - HEADER_SIZE) (insert (p, sz) L) B ts' \<and>
    n \<le> sz \<and> (p, sz) \<notin> L \<and> 0 < p"
proof -
  obtain t1 s1 where ts: "ts = (t1, s1)" by fastforce
  from assms(1) [unfolded ts] obtain bs H F where d: "views (t1, s1) v" "geo t1 = geo t" "heap_inv s1" "live_blocks s1 = L"
    "heap_blocks s1 bs" "roomy M bs" "s1 = s\<lparr>headers := H, bytes := B, fb := F\<rparr>" "length F = length (fb s)"
    by (rule testingE)
  obtain p bs' where ff: "first_fit (round_up16 n) (heap_head s1) bs = Some (p, bs')" "roomy (M - round_up16 n - HEADER_SIZE) bs'"
    using first_fit_roomy [OF d(6) n(2)] by blast
  have n': "n \<le> 2 ^ 40" using n(3) by simp
  obtain H' where H': "kmalloc pr n s1 = Some (Inr (p, s1\<lparr>headers := H'\<rparr>))" "heap_inv (s1\<lparr>headers := H'\<rparr>)"
    "heap_blocks (s1\<lparr>headers := H'\<rparr>) bs'"
    using kmalloc_fits [OF d(3,5) n(1) n' ff(1), of pr] by blast
  have "heap_head s1 + HEADER_SIZE \<le> p" by (rule first_fit_ge [OF ff(1)])
  then have p: "0 < p" by simp
  obtain sz where sz: "n \<le> sz" "(p, sz) \<notin> L" "live_blocks (s1\<lparr>headers := H'\<rparr>) = insert (p, sz) L"
    using kmalloc_block [OF d(3) n(1,3) H'(1)] d(4) by blast
  have "views (t1, s1\<lparr>headers := H'\<rparr>) v" using d(1) by (simp add: views_headers)
  moreover have "s1\<lparr>headers := H'\<rparr> = s\<lparr>headers := H', bytes := B, fb := F\<rparr>" by (simp add: d(7))
  ultimately have "testing t s v (M - round_up16 n - HEADER_SIZE) (insert (p, sz) L) B (t1, s1\<lparr>headers := H'\<rparr>)"
    using d(2,8) H'(2,3) sz(3) ff(2) by (intro testingI)
  moreover have "malloc pr n ts = Inr (p, (t1, s1\<lparr>headers := H'\<rparr>))" by (simp add: malloc_def ts or_hang_def H'(1))
  ultimately show ?thesis using sz(1,2) p by blast
qed

lemma free_step:
  fixes s :: "'a sys_state_scheme"
  assumes "testing t s v M L B ts" and "(p, sz) \<in> L"
  shows "\<exists>ts'. free_ptr pr p ts = Inr ts' \<and> testing t s v M (L - {(p, sz)}) B ts'"
proof -
  obtain t1 s1 where ts: "ts = (t1, s1)" by fastforce
  from assms(1) [unfolded ts] obtain bs H F where d: "views (t1, s1) v" "geo t1 = geo t" "heap_inv s1" "live_blocks s1 = L"
    "heap_blocks s1 bs" "roomy M bs" "s1 = s\<lparr>headers := H, bytes := B, fb := F\<rparr>" "length F = length (fb s)"
    by (rule testingE)
  have "(p, sz) \<in> live_blocks s1" using assms(2) d(4) by simp
  then obtain H' where H': "kfree pr p s1 = Inr (s1\<lparr>headers := H'\<rparr>)" "heap_inv (s1\<lparr>headers := H'\<rparr>)"
    "heap_blocks (s1\<lparr>headers := H'\<rparr>) (release p (heap_head s1) bs)" "live_blocks (s1\<lparr>headers := H'\<rparr>) = L - {(p, sz)}"
    using kfree_live [OF d(3,5), of p sz pr] d(4) by blast
  have "views (t1, s1\<lparr>headers := H'\<rparr>) v" using d(1) by (simp add: views_headers)
  moreover have "s1\<lparr>headers := H'\<rparr> = s\<lparr>headers := H', bytes := B, fb := F\<rparr>" by (simp add: d(7))
  ultimately have "testing t s v M (L - {(p, sz)}) B (t1, s1\<lparr>headers := H'\<rparr>)"
    using d(2,8) H'(2-4) release_roomy [OF d(6)] by (intro testingI)
  moreover have "free_ptr pr p ts = Inr (t1, s1\<lparr>headers := H'\<rparr>)" by (simp add: free_ptr_def ts H'(1))
  ultimately show ?thesis by blast
qed

definition patch :: "nat \<Rightarrow> u8 \<Rightarrow> nat \<Rightarrow> (nat \<Rightarrow> u8 option) \<Rightarrow> nat \<Rightarrow> u8 option" where
  "patch p b n B = (\<lambda>a. if p \<le> a \<and> a < p + n then Some b else B a)"

lemma write_step:
  fixes s :: "'a sys_state_scheme"
  assumes "testing t s v M L B (t1, s1)" and "(p, sz) \<in> L" "n \<le> sz" "0 < p"
  shows "\<exists>s2. write_bytes p b n s1 = Inr s2 \<and> testing t s v M L (patch p b n B) (t1, s2)"
proof -
  from assms(1) obtain bs H F where d: "views (t1, s1) v" "geo t1 = geo t" "heap_inv s1" "live_blocks s1 = L"
    "heap_blocks s1 bs" "roomy M bs" "s1 = s\<lparr>headers := H, bytes := B, fb := F\<rparr>" "length F = length (fb s)"
    by (rule testingE)
  define H' where "H' = (\<lambda>x. if x < p + n \<and> p < x + HEADER_SIZE then None else headers s1 x)"
  have "client_write s1 (s1\<lparr>headers := H'\<rparr>)"
    unfolding client_write_def
  proof (rule exI [of _ H'], rule exI [of _ "stray s1"], intro conjI allI impI)
    fix x assume "\<forall>(p, sz) \<in> live_blocks s1. x + HEADER_SIZE \<le> p \<or> p + sz \<le> x"
    then have "x + HEADER_SIZE \<le> p \<or> p + sz \<le> x" using d(4) assms(2) by blast
    then show "H' x = headers s1 x" using assms(3) by (auto simp: H'_def)
  qed simp_all
  note w = client_write_keeps [OF d(3,5) this]
  let ?s2 = "s1\<lparr>headers := H', bytes := patch p b n B\<rparr>"
  have "?s2 = (s1\<lparr>headers := H'\<rparr>)\<lparr>bytes := patch p b n B, fb := fb (s1\<lparr>headers := H'\<rparr>)\<rparr>" by simp
  then have h: "heap_inv ?s2" "live_blocks ?s2 = L" "heap_blocks ?s2 bs"
    using heap_unseen [where s' = "s1\<lparr>headers := H'\<rparr>" and B' = "patch p b n B" and F = "fb (s1\<lparr>headers := H'\<rparr>)"] w(1-3) d(4) by simp_all
  have "views (t1, ?s2) v" using d(1) by (cases v) (simp add: views_def term_ok_def shows_picture_def)
  moreover have "?s2 = s\<lparr>headers := H', bytes := patch p b n B, fb := F\<rparr>" by (simp add: d(7))
  ultimately have "testing t s v M L (patch p b n B) (t1, ?s2)" using d(2,6,8) h by (intro testingI)
  moreover have b: "bytes s1 = B" by (simp add: d(7))
  have "p \<noteq> 0" using assms(4) by simp
  then have "write_bytes p b n s1 = Inr (s1\<lparr>bytes := patch p b n (bytes s1), headers := H'\<rparr>)"
    by (simp only: write_bytes_def H'_def patch_def if_False)
  then have "write_bytes p b n s1 = Inr ?s2" unfolding b by simp
  ultimately show ?thesis by blast
qed

lemma check_step: "\<forall>i \<in> set is. bytes s (p + i) = Some b \<Longrightarrow> check_bytes is p b ok s = Inr ok"
  by (induction "is" arbitrary: ok) (simp_all add: load_byte_def)

text \<open>Four new blocks, apart from each other and from those in \<open>L\<close>, as large as the command asks for.\<close>

definition four_blocks :: "(nat \<times> nat) set \<Rightarrow> nat \<times> nat \<Rightarrow> nat \<times> nat \<Rightarrow> nat \<times> nat \<Rightarrow> nat \<times> nat \<Rightarrow> bool" where
  "four_blocks L a b c d \<longleftrightarrow> a \<notin> L \<and> b \<notin> L \<and> c \<notin> L \<and> d \<notin> L \<and> distinct [a, b, c, d] \<and>
     64 \<le> snd a \<and> 128 \<le> snd b \<and> 1024 \<le> snd c \<and> 37 \<le> snd d \<and> 0 < fst a \<and> 0 < fst b \<and> 0 < fst c \<and> 0 < fst d \<and>
     (\<forall>x \<in> {a, b, c, d}. \<forall>y \<in> L \<union> {a, b, c, d}. x \<noteq> y \<longrightarrow> fst x + snd x < fst y \<or> fst y + snd y < fst x)"

text \<open>The four patterns, byte by byte.\<close>

definition patterns :: "nat \<Rightarrow> nat \<Rightarrow> nat \<Rightarrow> nat \<Rightarrow> (nat \<Rightarrow> u8 option) \<Rightarrow> nat \<Rightarrow> u8 option" where
  "patterns a b c d B = patch d 0xDD 37 (patch c 0xCC 1024 (patch b 0xBB 128 (patch a 0xAA 64 B)))"

lemma memtest_sizes: "round_up16 64 = 64" "round_up16 128 = 128" "round_up16 1024 = 1024" "round_up16 37 = 48" "round_up16 1152 = 1152"
  by (simp_all add: round_up16_def)

lemma live_blocks_inside:
  assumes "heap_inv s" "(p, m) \<in> live_blocks s"
  shows "heap_head s \<le> p" "p + m \<le> heap_end s"
proof -
  obtain bs where hb: "heap_blocks s bs" using assms(1) by (auto simp: heap_inv_def)
  have l: "(p, m) \<in> live (heap_head s) bs" using assms(2) by (simp add: live_blocks_eq [OF hb])
  show "heap_head s \<le> p" using live_ge [OF l] by simp
  have "chain (headers s) (heap_head s) (heap_end s) bs" using hb by (simp add: heap_blocks_def)
  then show "p + m \<le> heap_end s" by (rule live_le [OF _ l])
qed

lemma memtest_allocs:
  fixes s :: "'a sys_state_scheme"
  assumes "testing t s v 4096 L B ts"
  shows "\<exists>a b c d t' s'. four_blocks L a b c d \<and> testing t s v 2736 (insert d (insert c (insert b (insert a L)))) B (t', s') \<and>
    (\<forall>x \<in> {a, b, c, d}. heap_head s \<le> fst x \<and> fst x + snd x \<le> heap_end s) \<and>
    (\<forall>k. andThen (malloc pr 64 ts) (\<lambda>(a, ts). andThen (malloc pr 128 ts) (\<lambda>(b, ts). andThen (malloc pr 1024 ts) (\<lambda>(c, ts).
      andThen (malloc pr 37 ts) (\<lambda>(d, (t, s)). k a b c d t s)))) = k (fst a) (fst b) (fst c) (fst d) t' s')"
proof -
  obtain a la ts2 where 2: "malloc pr 64 ts = Inr (a, ts2)" "testing t s v 4008 (insert (a, la) L) B ts2"
    "64 \<le> la" "(a, la) \<notin> L" "0 < a"
    using malloc_step [OF assms, of 64 pr] by (auto simp: memtest_sizes)
  obtain b lb ts3 where 3: "malloc pr 128 ts2 = Inr (b, ts3)" "testing t s v 3856 (insert (b, lb) (insert (a, la) L)) B ts3"
    "128 \<le> lb" "(b, lb) \<notin> insert (a, la) L" "0 < b"
    using malloc_step [OF 2(2), of 128 pr] by (auto simp: memtest_sizes)
  obtain c lc ts4 where 4: "malloc pr 1024 ts3 = Inr (c, ts4)"
    "testing t s v 2808 (insert (c, lc) (insert (b, lb) (insert (a, la) L))) B ts4"
    "1024 \<le> lc" "(c, lc) \<notin> insert (b, lb) (insert (a, la) L)" "0 < c"
    using malloc_step [OF 3(2), of 1024 pr] by (auto simp: memtest_sizes)
  let ?L = "\<lambda>x. insert x (insert (c, lc) (insert (b, lb) (insert (a, la) L)))"
  obtain d ld ts5 where 5: "malloc pr 37 ts4 = Inr (d, ts5)" "testing t s v 2736 (?L (d, ld)) B ts5"
    "37 \<le> ld" "(d, ld) \<notin> insert (c, lc) (insert (b, lb) (insert (a, la) L))" "0 < d"
    using malloc_step [OF 4(2), of 37 pr] by (auto simp: memtest_sizes)
  obtain t5 s5 where ts5: "ts5 = (t5, s5)" by fastforce
  from 5(2) [unfolded ts5] have "heap_inv s5" "live_blocks s5 = ?L (d, ld)" by (auto elim!: testingE)
  moreover from 5(2) [unfolded ts5] have ends: "heap_head s5 = heap_head s" "heap_end s5 = heap_end s"
    by (auto elim!: testingE)
  ultimately have inside: "heap_head s \<le> fst x \<and> fst x + snd x \<le> heap_end s" if "x \<in> ?L (d, ld)" for x
    using live_blocks_inside [of s5 "fst x" "snd x"] that by (metis prod.collapse)
  from 5(2) [unfolded ts5] have "heap_inv s5" "live_blocks s5 = ?L (d, ld)" by (auto elim!: testingE)
  then have "fst x + snd x < fst y \<or> fst y + snd y < fst x" if "x \<in> ?L (d, ld)" "y \<in> ?L (d, ld)" "x \<noteq> y" for x y
    using live_blocks_disjoint [of s5 "fst x" "snd x" "fst y" "snd y"] that by (metis prod.collapse)
  then have "\<forall>x \<in> {(a, la), (b, lb), (c, lc), (d, ld)}. \<forall>y \<in> L \<union> {(a, la), (b, lb), (c, lc), (d, ld)}.
      x \<noteq> y \<longrightarrow> fst x + snd x < fst y \<or> fst y + snd y < fst x" by blast
  moreover have "(b, lb) \<notin> L" "(c, lc) \<notin> L" "(d, ld) \<notin> L" using 3(4) 4(4) 5(4) by blast+
  moreover have "distinct [(a, la), (b, lb), (c, lc), (d, ld)]" using 3(4) 4(4) 5(4) by simp blast
  ultimately have "four_blocks L (a, la) (b, lb) (c, lc) (d, ld)"
    using 2(3-5) 3(3,5) 4(3,5) 5(3,5) unfolding four_blocks_def fst_conv snd_conv by - (intro conjI; assumption)
  moreover have "\<forall>k. andThen (malloc pr 64 ts) (\<lambda>(a, ts). andThen (malloc pr 128 ts) (\<lambda>(b, ts). andThen (malloc pr 1024 ts) (\<lambda>(c, ts).
      andThen (malloc pr 37 ts) (\<lambda>(d, (t, s)). k a b c d t s)))) = k a b c d t5 s5"
    by (intro allI) (simp only: 2(1) 3(1) 4(1) 5(1) ts5 andThen.simps prod.case)
  moreover have "\<forall>x \<in> {(a, la), (b, lb), (c, lc), (d, ld)}. heap_head s \<le> fst x \<and> fst x + snd x \<le> heap_end s"
    using inside by blast
  ultimately show ?thesis using 5(2) unfolding ts5
    by - (rule exI [of _ "(a, la)"], rule exI [of _ "(b, lb)"], rule exI [of _ "(c, lc)"], rule exI [of _ "(d, ld)"],
      rule exI [of _ t5], rule exI [of _ s5], unfold fst_conv, intro conjI; assumption)
qed

lemma four_blocks_apart:
  assumes "four_blocks L a b c d"
  shows "fst a + snd a < fst b \<or> fst b + snd b < fst a" "fst a + snd a < fst c \<or> fst c + snd c < fst a"
    "fst a + snd a < fst d \<or> fst d + snd d < fst a" "fst b + snd b < fst c \<or> fst c + snd c < fst b"
    "fst b + snd b < fst d \<or> fst d + snd d < fst b" "fst c + snd c < fst d \<or> fst d + snd d < fst c"
proof -
  have ne: "a \<noteq> b" "a \<noteq> c" "a \<noteq> d" "b \<noteq> c" "b \<noteq> d" "c \<noteq> d" using assms by (auto simp: four_blocks_def)
  have far: "\<forall>x \<in> {a, b, c, d}. \<forall>y \<in> L \<union> {a, b, c, d}. x \<noteq> y \<longrightarrow> fst x + snd x < fst y \<or> fst y + snd y < fst x"
    using assms unfolding four_blocks_def by (elim conjE) assumption
  show "fst a + snd a < fst b \<or> fst b + snd b < fst a" "fst a + snd a < fst c \<or> fst c + snd c < fst a"
    "fst a + snd a < fst d \<or> fst d + snd d < fst a" "fst b + snd b < fst c \<or> fst c + snd c < fst b"
    "fst b + snd b < fst d \<or> fst d + snd d < fst b" "fst c + snd c < fst d \<or> fst d + snd d < fst c"
    by (rule far [rule_format]; use ne in simp)+
qed

lemma four_blocks_outside:
  assumes f: "four_blocks L a b c d" and x: "(p, n) \<in> L" "p \<le> x" "x < p + n"
  shows "\<not> (fst a \<le> x \<and> x < fst a + 64)" "\<not> (fst b \<le> x \<and> x < fst b + 128)" "\<not> (fst c \<le> x \<and> x < fst c + 1024)"
    "\<not> (fst d \<le> x \<and> x < fst d + 37)"
proof -
  have "fst y + snd y < p \<or> p + n < fst y" if "y \<in> {a, b, c, d}" for y
  proof -
    have "\<forall>x \<in> {a, b, c, d}. \<forall>y \<in> L \<union> {a, b, c, d}. x \<noteq> y \<longrightarrow> fst x + snd x < fst y \<or> fst y + snd y < fst x" "y \<noteq> (p, n)"
      using f x(1) that by (auto simp: four_blocks_def)
    then show ?thesis using x(1) that by (metis UnI1 fst_conv snd_conv)
  qed
  then have far: "fst a + snd a < p \<or> p + n < fst a" "fst b + snd b < p \<or> p + n < fst b" "fst c + snd c < p \<or> p + n < fst c"
    "fst d + snd d < p \<or> p + n < fst d" by blast+
  have sz: "64 \<le> snd a" "128 \<le> snd b" "1024 \<le> snd c" "37 \<le> snd d" using f by (simp_all add: four_blocks_def)
  show "\<not> (fst a \<le> x \<and> x < fst a + 64)" "\<not> (fst b \<le> x \<and> x < fst b + 128)" "\<not> (fst c \<le> x \<and> x < fst c + 1024)"
    "\<not> (fst d \<le> x \<and> x < fst d + 37)" using far sz x(2,3) by linarith+
qed

lemma memtest_patterns:
  fixes s :: "'a sys_state_scheme"
  assumes f: "four_blocks L a b c d" and tst: "testing t s v M (insert d (insert c (insert b (insert a L)))) B (t1, s1)"
  shows "\<exists>s'. testing t s v M (insert d (insert c (insert b (insert a L)))) (patterns (fst a) (fst b) (fst c) (fst d) B) (t1, s') \<and>
    (\<forall>k. andThen (write_bytes (fst a) 0xAA 64 s1) (\<lambda>s. andThen (write_bytes (fst b) 0xBB 128 s) (\<lambda>s.
     andThen (write_bytes (fst c) 0xCC 1024 s) (\<lambda>s. andThen (write_bytes (fst d) 0xDD 37 s) (\<lambda>s.
     andThen (check_bytes [0..<64] (fst a) 0xAA True s) (\<lambda>ok. andThen (check_bytes [0..<128] (fst b) 0xBB ok s) (\<lambda>ok.
     andThen (check_bytes [0..<1024] (fst c) 0xCC ok s) (\<lambda>ok. andThen (check_bytes [0..<37] (fst d) 0xDD ok s) (\<lambda>ok. k ok s)))))))) = k True s')"
proof -
  obtain pa la pb lb pc lc pd ld where p: "a = (pa, la)" "b = (pb, lb)" "c = (pc, lc)" "d = (pd, ld)" by (metis surj_pair)
  have sz: "64 \<le> la" "128 \<le> lb" "1024 \<le> lc" "37 \<le> ld" and pos: "0 < pa" "0 < pb" "0 < pc" "0 < pd"
    using f by (simp_all add: four_blocks_def p)
  have dis: "pa + la < pb \<or> pb + lb < pa" "pa + la < pc \<or> pc + lc < pa" "pa + la < pd \<or> pd + ld < pa"
    "pb + lb < pc \<or> pc + lc < pb" "pb + lb < pd \<or> pd + ld < pb" "pc + lc < pd \<or> pd + ld < pc"
    using four_blocks_apart [OF f, unfolded p] by simp_all
  let ?L = "insert d (insert c (insert b (insert a L)))"
  obtain s2 where 2: "write_bytes pa 0xAA 64 s1 = Inr s2" "testing t s v M ?L (patch pa 0xAA 64 B) (t1, s2)"
    using write_step [OF tst _ sz(1) pos(1)] p by blast
  obtain s3 where 3: "write_bytes pb 0xBB 128 s2 = Inr s3" "testing t s v M ?L (patch pb 0xBB 128 (patch pa 0xAA 64 B)) (t1, s3)"
    using write_step [OF 2(2) _ sz(2) pos(2)] p by blast
  obtain s4 where 4: "write_bytes pc 0xCC 1024 s3 = Inr s4"
    "testing t s v M ?L (patch pc 0xCC 1024 (patch pb 0xBB 128 (patch pa 0xAA 64 B))) (t1, s4)"
    using write_step [OF 3(2) _ sz(3) pos(3)] p by blast
  define B' where "B' = patterns pa pb pc pd B"
  note B'_def = B'_def [unfolded patterns_def]
  obtain s5 where 5: "write_bytes pd 0xDD 37 s4 = Inr s5" "testing t s v M ?L B' (t1, s5)"
    using write_step [OF 4(2) _ sz(4) pos(4)] p unfolding B'_def by blast
  have B': "bytes s5 = B'" using 5(2) by (auto elim!: testingE)
  have "B' (pa + i) = Some 0xAA" if "i < 64" for i using that dis(1-3) sz unfolding B'_def patch_def by auto
  moreover have "B' (pb + i) = Some 0xBB" if "i < 128" for i using that dis(4,5) sz unfolding B'_def patch_def by auto
  moreover have "B' (pc + i) = Some 0xCC" if "i < 1024" for i using that dis(6) sz unfolding B'_def patch_def by auto
  moreover have "B' (pd + i) = Some 0xDD" if "i < 37" for i using that unfolding B'_def patch_def by simp
  ultimately have ok: "check_bytes [0..<64] pa 0xAA True s5 = Inr True" "check_bytes [0..<128] pb 0xBB True s5 = Inr True"
    "check_bytes [0..<1024] pc 0xCC True s5 = Inr True" "check_bytes [0..<37] pd 0xDD True s5 = Inr True"
    by (intro check_step; simp add: B')+
  show ?thesis
    using 5(2) unfolding p fst_conv patterns_def B'_def
    by (intro exI [of _ s5] conjI allI) (simp_all only: 2(1) 3(1) 4(1) 5(1) ok andThen.simps)
qed

text \<open>The command frees the second and the third block, takes one as large as both, and frees all.\<close>

lemma memtest_cleanup:
  fixes s :: "'a sys_state_scheme"
  assumes f: "four_blocks L a b c d" and tst: "testing t s v 2736 (insert d (insert c (insert b (insert a L)))) B ts"
  shows "\<exists>ts'. testing t s (text_puts (font s) t (asc ''  Coalesce test : PASS\<newline>'') v) 1560 L B ts' \<and>
    (\<forall>k. andThen (free_ptr pr (fst b) ts) (\<lambda>ts. andThen (free_ptr pr (fst c) ts) (\<lambda>ts.
     andThen (malloc pr 1152 ts) (\<lambda>(e, ts).
     andThen (term_print pr (if e \<noteq> 0 then ''  Coalesce test : PASS\<newline>'' else ''  Coalesce test : FAIL\<newline>'') ts) (\<lambda>ts.
     andThen (free_ptr pr (fst a) ts) (\<lambda>ts. andThen (free_ptr pr (fst d) ts) (\<lambda>ts. andThen (free_ptr pr e ts) k)))))) = k ts')"
proof -
  have ne: "a \<noteq> b" "a \<noteq> c" "a \<noteq> d" "b \<noteq> c" "b \<noteq> d" "c \<noteq> d" and nin: "a \<notin> L" "b \<notin> L" "c \<notin> L" "d \<notin> L"
    using f by (auto simp: four_blocks_def)
  have free: "\<exists>ts'. free_ptr pr (fst x) ts = Inr ts' \<and> testing t s v M (A - {x}) B ts'" if "testing t s v M A B ts" "x \<in> A" for x M A v ts
    using free_step [of t s v M A B ts "fst x" "snd x" pr] that by simp
  obtain ts1 where 1: "free_ptr pr (fst b) ts = Inr ts1" "testing t s v 2736 (insert d (insert c (insert b (insert a L))) - {b}) B ts1"
    using free [OF tst, of b] by blast
  obtain ts2 where 2: "free_ptr pr (fst c) ts1 = Inr ts2" "testing t s v 2736 (insert d (insert c (insert b (insert a L))) - {b} - {c}) B ts2"
    using free [OF 1(2), of c] ne(4) by blast
  have L2: "insert d (insert c (insert b (insert a L))) - {b} - {c} = insert d (insert a L)" using ne nin by blast
  obtain p le ts3 where 3: "malloc pr 1152 ts2 = Inr (p, ts3)" "testing t s v 1560 (insert (p, le) (insert d (insert a L))) B ts3"
    "(p, le) \<notin> insert d (insert a L)" "0 < p"
    using malloc_step [OF 2(2) [unfolded L2], of 1152 pr] by (auto simp: memtest_sizes)
  let ?w = "text_puts (font s) t (asc ''  Coalesce test : PASS\<newline>'') v"
  obtain ts4 where 4: "emit (term_putb pr) (asc ''  Coalesce test : PASS\<newline>'') ts3 = Inr ts4"
    "testing t s ?w 1560 (insert (p, le) (insert d (insert a L))) B ts4"
    using print_step [OF 3(2)] by blast
  obtain ts5 where 5: "free_ptr pr (fst a) ts4 = Inr ts5" "testing t s ?w 1560 (insert (p, le) (insert d (insert a L)) - {a}) B ts5"
    using free [OF 4(2), of a] by blast
  obtain ts6 where 6: "free_ptr pr (fst d) ts5 = Inr ts6" "testing t s ?w 1560 (insert (p, le) (insert d (insert a L)) - {a} - {d}) B ts6"
    using free [OF 5(2), of d] ne(3) by blast
  have L6: "insert (p, le) (insert d (insert a L)) - {a} - {d} = insert (p, le) L" using ne nin 3(3) by blast
  obtain ts7 where 7: "free_ptr pr p ts6 = Inr ts7" "testing t s ?w 1560 (insert (p, le) L - {(p, le)}) B ts7"
    using free [OF 6(2) [unfolded L6], of "(p, le)"] by auto
  have L7: "insert (p, le) L - {(p, le)} = L" using 3(3) by blast
  have p: "(p \<noteq> 0) = True" using 3(4) by simp
  show ?thesis
    using 7(2) [unfolded L7]
    by (intro exI [of _ ts7] conjI allI) (simp_all only: 1(1) 2(1) 3(1) p if_True term_print_def 4(1) 5(1) 6(1) 7(1) andThen.simps prod.case)
qed

definition memtest_report :: "nat \<Rightarrow> (nat \<times> bool) list \<Rightarrow> u8 list" where
  "memtest_report a bs = asc ''Running heap allocator test...\<newline>'' @ asc ''  Pattern check : PASS\<newline>'' @
     asc ''  Coalesce test : PASS\<newline>'' @ asc ''Test complete. Heap dump follows:\<newline>'' @ heap_text a bs"

lemma dump_step:
  fixes s :: "'a sys_state_scheme"
  assumes "testing t s v M L B ts"
  shows "\<exists>t' s' bs. kmalloc_dump pr ts = Inr (t', s') \<and> testing t s (text_puts (font s) t (heap_text (heap_head s) bs) v) M L B (t', s') \<and>
    heap_blocks s' bs"
proof -
  obtain t1 s1 where ts: "ts = (t1, s1)" by fastforce
  from assms [unfolded ts] obtain bs H F where d: "views (t1, s1) v" "heap_blocks s1 bs" "s1 = s\<lparr>headers := H, bytes := B, fb := F\<rparr>"
    by (auto elim!: testingE)
  have tok: "term_ok (t1, s1)" using d(1) by (cases v) (simp add: views_def)
  have hd: "heap_head s1 = heap_head s" by (simp add: d(3))
  obtain t2 s2 where 2: "emit (term_putb pr) (heap_text (heap_head s) bs) (t1, s1) = Inr (t2, s2)"
    "testing t s (text_puts (font s) t (heap_text (heap_head s) bs) v) M L B (t2, s2)"
    using print_step [OF assms, of pr "heap_text (heap_head s) bs"] unfolding ts by force
  obtain t3 s3 where "emit (term_putb pr) (heap_text (heap_head s) bs) (t1, s1) = Inr (t3, s3)" "same_term (t1, s1) (t3, s3)"
    by (rule emit_answers [OF d(1)])
  then have "same_term (t1, s1) (t2, s2)" using 2(1) by simp
  then obtain G where G: "s2 = s1\<lparr>bytes := bytes s1, fb := G\<rparr>" by (auto simp: same_term_def)
  have "heap_blocks s2 bs" unfolding G heap_unseen(2) by (rule d(2))
  moreover have "kmalloc_dump pr ts = Inr (t2, s2)" using kmalloc_dump_emit [OF d(2) tok, of pr] 2(1) by (simp add: ts hd)
  ultimately show ?thesis using 2(2) by blast
qed


lemma memtest_result:
  fixes s :: "'a sys_state_scheme"
  assumes v: "views (t, s) v" and inv: "heap_inv s" and bs: "heap_blocks s bs" "roomy 4096 bs"
  shows "\<exists>t' s' bs' a b c d. cmd_memtest pr (t, s) = Inr (t', s') \<and> heap_inv s' \<and> heap_blocks s' bs' \<and> live_blocks s' = live_blocks s \<and>
    views (t', s') (text_puts (font s) t (memtest_report (heap_head s) bs') v) \<and>
    four_blocks (live_blocks s) a b c d \<and> (\<forall>x \<in> {a, b, c, d}. heap_head s \<le> fst x \<and> fst x + snd x \<le> heap_end s) \<and>
    bytes s' = patterns (fst a) (fst b) (fst c) (fst d) (bytes s) \<and>
    (\<forall>(p, n) \<in> live_blocks s. \<forall>x. p \<le> x \<and> x < p + n \<longrightarrow> bytes s' x = bytes s x) \<and>
    (\<exists>H F. s' = s\<lparr>headers := H, bytes := bytes s', fb := F\<rparr>)"
proof -
  let ?p = "\<lambda>txt. text_puts (font s) t (asc txt)" and ?L = "live_blocks s"
  have 0: "testing t s v 4096 ?L (bytes s) (t, s)"
    by (rule testingI [OF v refl inv refl bs, where H = "headers s" and F = "fb s"]) simp_all
  obtain ts1 where 1: "term_print pr ''Running heap allocator test...\<newline>'' (t, s) = Inr ts1"
    "testing t s (?p ''Running heap allocator test...\<newline>'' v) 4096 ?L (bytes s) ts1"
    using print_step [OF 0] unfolding term_print_def by blast
  define v1 where "v1 = ?p ''Running heap allocator test...\<newline>'' v"
  obtain a b c d t2 s2 where 2: "four_blocks ?L a b c d" "testing t s v1 2736 (insert d (insert c (insert b (insert a ?L)))) (bytes s) (t2, s2)"
    "\<forall>x \<in> {a, b, c, d}. heap_head s \<le> fst x \<and> fst x + snd x \<le> heap_end s"
    "\<forall>k :: _ \<Rightarrow> _ \<Rightarrow> _ \<Rightarrow> _ \<Rightarrow> _ \<Rightarrow> _ \<Rightarrow> 'a console res. andThen (malloc pr 64 ts1) (\<lambda>(a, ts). andThen (malloc pr 128 ts) (\<lambda>(b, ts). andThen (malloc pr 1024 ts) (\<lambda>(c, ts).
      andThen (malloc pr 37 ts) (\<lambda>(d, (t, s)). k a b c d t s)))) = k (fst a) (fst b) (fst c) (fst d) t2 s2"
    using memtest_allocs [OF 1(2), of pr] unfolding v1_def by blast
  define B where "B = patterns (fst a) (fst b) (fst c) (fst d) (bytes s)"
  obtain s3 where 3: "testing t s v1 2736 (insert d (insert c (insert b (insert a ?L)))) B (t2, s3)"
    "\<forall>k :: _ \<Rightarrow> _ \<Rightarrow> 'a console res. andThen (write_bytes (fst a) 0xAA 64 s2) (\<lambda>s. andThen (write_bytes (fst b) 0xBB 128 s) (\<lambda>s.
     andThen (write_bytes (fst c) 0xCC 1024 s) (\<lambda>s. andThen (write_bytes (fst d) 0xDD 37 s) (\<lambda>s.
     andThen (check_bytes [0..<64] (fst a) 0xAA True s) (\<lambda>ok. andThen (check_bytes [0..<128] (fst b) 0xBB ok s) (\<lambda>ok.
     andThen (check_bytes [0..<1024] (fst c) 0xCC ok s) (\<lambda>ok. andThen (check_bytes [0..<37] (fst d) 0xDD ok s) (\<lambda>ok. k ok s)))))))) = k True s3"
    using memtest_patterns [OF 2(1,2)] unfolding B_def by blast
  obtain ts4 where 4: "term_print pr ''  Pattern check : PASS\<newline>'' (t2, s3) = Inr ts4"
    "testing t s (?p ''  Pattern check : PASS\<newline>'' v1) 2736 (insert d (insert c (insert b (insert a ?L)))) B ts4"
    using print_step [OF 3(1)] unfolding term_print_def by blast
  define v4 where "v4 = ?p ''  Pattern check : PASS\<newline>'' v1"
  obtain ts5 where 5: "testing t s (?p ''  Coalesce test : PASS\<newline>'' v4) 1560 ?L B ts5"
    "\<forall>k :: _ \<Rightarrow> 'a console res. andThen (free_ptr pr (fst b) ts4) (\<lambda>ts. andThen (free_ptr pr (fst c) ts) (\<lambda>ts.
     andThen (malloc pr 1152 ts) (\<lambda>(e, ts).
     andThen (term_print pr (if e \<noteq> 0 then ''  Coalesce test : PASS\<newline>'' else ''  Coalesce test : FAIL\<newline>'') ts) (\<lambda>ts.
     andThen (free_ptr pr (fst a) ts) (\<lambda>ts. andThen (free_ptr pr (fst d) ts) (\<lambda>ts. andThen (free_ptr pr e ts) k)))))) = k ts5"
    using memtest_cleanup [OF 2(1) 4(2), of pr] unfolding v4_def by blast
  obtain ts6 where 6: "term_print pr ''Test complete. Heap dump follows:\<newline>'' ts5 = Inr ts6"
    "testing t s (?p ''Test complete. Heap dump follows:\<newline>'' (?p ''  Coalesce test : PASS\<newline>'' v4)) 1560 ?L B ts6"
    using print_step [OF 5(1)] unfolding term_print_def by blast
  obtain t' s' bs' where 7: "kmalloc_dump pr ts6 = Inr (t', s')" "heap_blocks s' bs'"
    "testing t s (text_puts (font s) t (heap_text (heap_head s) bs') (?p ''Test complete. Heap dump follows:\<newline>'' (?p ''  Coalesce test : PASS\<newline>'' v4))) 1560 ?L B (t', s')"
    using dump_step [OF 6(2)] by blast
  have run: "cmd_memtest pr (t, s) = Inr (t', s')"
    by (simp only: cmd_memtest_def 1(1) 2(4) 3(2) if_True 4(1) 5(2) 6(1) 7(1) andThen.simps)
  have out: "text_puts (font s) t (heap_text (heap_head s) bs') (?p ''Test complete. Heap dump follows:\<newline>'' (?p ''  Coalesce test : PASS\<newline>'' v4)) =
      text_puts (font s) t (memtest_report (heap_head s) bs') v"
    by (simp only: v4_def v1_def memtest_report_def) (simp only: text_puts_def fold_append comp_apply)
  obtain H F where fin: "heap_inv s'" "live_blocks s' = ?L" "s' = s\<lparr>headers := H, bytes := B, fb := F\<rparr>"
    and shown: "views (t', s') (text_puts (font s) t (memtest_report (heap_head s) bs') v)"
    by (rule testingE [OF 7(3) [unfolded out]])
  have B: "bytes s' = B" by (simp add: fin(3))
  have same: "\<exists>H F. s' = s\<lparr>headers := H, bytes := bytes s', fb := F\<rparr>" using fin(3) unfolding B by blast
  have "B x = bytes s x" if "(p, n) \<in> ?L" "p \<le> x" "x < p + n" for p n x
    using four_blocks_outside [OF 2(1) that] by (simp only: B_def patterns_def patch_def if_False)
  then have keep: "\<forall>(p, n) \<in> ?L. \<forall>x. p \<le> x \<and> x < p + n \<longrightarrow> bytes s' x = bytes s x" unfolding B by blast
  show ?thesis
    by (rule exI [of _ t'], rule exI [of _ s'], rule exI [of _ bs'], rule exI [of _ a], rule exI [of _ b], rule exI [of _ c],
      rule exI [of _ d], intro conjI run fin(1,2) shown 7(2) 2(1,3) keep same) (rule B [unfolded B_def])
qed


section \<open>Property\<close>

text \<open>C30: The memory test, on the heap as it is. On any console whose terminal shows a picture, with a well-formed heap that has
  4 KiB free in one block and any blocks in use, \<open>memtest\<close> ends without a fault: its four blocks are new, lie in the heap and
  overlap neither each other nor a block in use, and the bytes of memory are afterwards those from before with the four patterns
  written into them, so every block in use has its contents unchanged. Both checks report success (the second one whether
  or not freed neighbours were joined), the report with the heap dump is added to what the screen showed, and the heap is
  well-formed again with exactly the blocks in use that were in use before; nothing but block headers, those bytes and the
  screen has changed.\<close>

theorem memtest_passes:
  fixes s :: "'a sys_state_scheme"
  assumes "views (t, s) v" and "heap_inv s" and "heap_blocks s bs" and "(sz, False) \<in> set bs" "4096 \<le> sz"
  shows "\<exists>t' s' bs' a b c d. cmd_memtest pr (t, s) = Inr (t', s') \<and> heap_inv s' \<and> heap_blocks s' bs' \<and> live_blocks s' = live_blocks s \<and>
    views (t', s') (text_puts (font s) t (memtest_report (heap_head s) bs') v) \<and>
    four_blocks (live_blocks s) a b c d \<and> (\<forall>x \<in> {a, b, c, d}. heap_head s \<le> fst x \<and> fst x + snd x \<le> heap_end s) \<and>
    bytes s' = patterns (fst a) (fst b) (fst c) (fst d) (bytes s) \<and>
    (\<forall>(p, n) \<in> live_blocks s. \<forall>x. p \<le> x \<and> x < p + n \<longrightarrow> bytes s' x = bytes s x) \<and>
    (\<exists>H F. s' = s\<lparr>headers := H, bytes := bytes s', fb := F\<rparr>)"
  by (rule memtest_result [OF assms(1-3)]) (use assms(4,5) in \<open>auto simp: roomy_def\<close>)

theorem memtest_passes_witness:
  "\<exists>(s :: sys_state) t' s'. heap_inv s \<and> cmd_memtest Dev (small_term, s) = Inr (t', s') \<and> heap_inv s' \<and> live_blocks s' = live_blocks s"
proof -
  obtain s0 :: sys_state where b: "booted (\<lambda>v. 0) 0 0 0 0 s0" using small_machine_boots [of "\<lambda>v. 0" 0 0 0 0] by blast
  let ?s = "s0\<lparr>fb := replicate 512 0, font := FONT_HEADER @ replicate 4096 0\<rparr>"
  have "vm_part ?s = vm_part s0" by (simp add: vm_part_def)
  note c = heap_inv_cong [OF this]
  have h: "heap_inv ?s" "heap_blocks ?s [(1024 * 1024 - 24, False)]" using b c by (simp_all add: booted_def)
  have "views (small_term, ?s) (0, 0, \<lambda>y x. 0)"
    by (simp add: views_def term_ok_def shows_picture_def small_term_def FONT_HEADER_def)
  from memtest_passes [OF this h, of "1024 * 1024 - 24" Dev] h(1) show ?thesis by auto
qed

end
