(* ===== verification/Spec2Isabelle.thy ===== *)
theory Spec2Isabelle
  imports Demo Memtest
begin

text \<open>
  A verification library for the kernel under \<open>src/src/\<close>, a 64-bit kernel for x86 written in Rust that is
  started by the Limine boot loader. It runs kernel tasks on one processor, preempted by the timer.

  \<^bold>\<open>The program and the theories.\<close> Each theory models one part, with the names of the source, and imports the
  parts it calls.

  \<^item> \<open>Prelude\<close>: build profiles, faults as values, the kernel's integer arithmetic.
  \<^item> \<open>Format\<close>: the number-to-text loops that the serial port, the terminal and the shell repeat
    (\<open>print_hex64\<close>, \<open>print_usize\<close>), and the interface of a byte sink (\<open>byte_sink\<close>, \<open>logged_sink\<close>).
  \<^item> \<open>Serial\<close>: \<open>device/serial.rs\<close> and the port accesses of \<open>device/keyboard.rs\<close>.
  \<^item> \<open>Pmm\<close>: \<open>memory/pmm.rs\<close>, the bitmap of page frames; the interface \<open>frame_allocator\<close>.
  \<^item> \<open>Vmm\<close>: \<open>memory/vmm.rs\<close>, the four levels of page tables in a memory of 64-bit cells.
  \<^item> \<open>Heap\<close>: \<open>memory/heap.rs\<close>, the list of blocks behind \<open>kmalloc\<close>; the interface \<open>block_allocator\<close>.
  \<^item> \<open>Cpu\<close>: the registers and the few instructions of the assembly in \<open>interrupt/idt.rs\<close> and
    \<open>multitask/scheduler.rs\<close>.
  \<^item> \<open>Idt\<close>: the descriptor table, the stubs and \<open>common_stub\<close> of \<open>interrupt/idt.rs\<close>.
  \<^item> \<open>Keyboard\<close>: \<open>device/keyboard.rs\<close>; the interface \<open>byte_queue\<close> of its ring buffer.
  \<^item> \<open>Spinlock\<close>: \<open>multitask/spinlock.rs\<close>, for any number of processors.
  \<^item> \<open>Task\<close>, \<open>Scheduler\<close>, \<open>Multitask\<close>: \<open>multitask/task.rs\<close> and \<open>multitask/scheduler.rs\<close>; the operations, the
    context switch, and the invariant of the task table over every sequence of kernel events.
  \<^item> \<open>Pit\<close>: \<open>interrupt/pit.rs\<close>. \<open>Pic\<close>: \<open>interrupt/pic.rs\<close>, interpreted by a model of the 8259.
  \<^item> \<open>Terminal\<close>: \<open>ui/terminal.rs\<close>, refining text on a picture.
  \<^item> \<open>Syscall\<close>: the dispatcher of \<open>interrupt/syscall.rs\<close>. \<open>Interrupts\<close>: \<open>common_handler\<close> of \<open>interrupt/idt.rs\<close>.
  \<^item> \<open>Parsing\<close>, \<open>Shell\<close>: \<open>shell/simple_shell.rs\<close> and the system call wrappers it calls.
  \<^item> \<open>Memtest\<close>: the shell's \<open>memtest\<close> command against the heap.
  \<^item> \<open>Boot\<close>: \<open>_start\<close> of \<open>main.rs\<close>. \<open>Demo\<close>: \<open>multitask/demo_tasks.rs\<close> and the panic handler of \<open>main.rs\<close>.
  \<^item> This theory: the path of a keystroke through the whole kernel.

  \<^bold>\<open>State.\<close> The kernel keeps its state in statics. They are one record that each theory extends:
  \<open>machine\<close> (the history of the port bus, and the devices as a function of it), \<open>pmm_state\<close>, \<open>vmm_state\<close> (memory,
  \<open>CR3\<close>, TLB invalidations), \<open>heap_state\<close> (the block headers, and as the input
  \<open>stray\<close> what other mapped memory looks like when it is read as a header), \<open>idt_state\<close>, \<open>kbd_state\<close>, \<open>task_state\<close>, \<open>sched_state\<close>,
  \<open>screen_state\<close> (framebuffer, font), \<open>pic_state\<close> (model-specific registers, local APIC) and \<open>sys_state\<close> (memory
  behind user pointers, \<open>CR2\<close>). An operation takes the state and returns it updated; it is polymorphic in the fields
  of later parts, so that it visibly leaves them alone. Values that are local to a function in the source, such as
  a \<open>Terminal\<close> or the shell's line, are passed beside the state.

  \<^bold>\<open>Faults.\<close> An operation returns \<open>Inl\<close> of a fault for a panic (\<open>expect\<close>, \<open>assert\<close>, overflow in a debug
  build, an index out of range, a division by zero) and for a wait that no device ends, and \<open>Inr\<close> otherwise. The build
  profile is a parameter: \<open>Dev\<close> checks overflow, \<open>Release\<close> wraps. \<open>usize\<close> is a natural number
  below 2 ^ 64 with both behaviours written out; other integers are words of their width.

  \<^bold>\<open>Loops.\<close> Loops over a range or a slice are structural recursions, so they end. Loops that wait for a device
  or walk a list in memory are partial functions whose value \<open>None\<close> is not returning: \<open>wait_ready\<close> (the
  serial port), \<open>hlt_until\<close> (the timer), the walks of the heap, \<open>drain_keys\<close> and the shell's loop. That they return is
  proved: for the serial port when the transmitter becomes ready after some number of polls (\<open>serial_good\<close>),
  for the heap from its invariant, for the shell from the ring buffer's, for the timer when ticks arrive. The waits for
  the keyboard controller are bounded in the source by 100000 polls and are modelled with that bound.

  \<^bold>\<open>Concurrency.\<close> There is one processor. An operation runs to its end before the next event; this is the
  code's own discipline where it disables interrupts or holds \<open>TASK_LOCK\<close>, and an assumption elsewhere: for the
  shell, the heap and the terminal, and for \<open>new_kernel_task\<close>, which is called with interrupts on and takes no lock.
  The boot sequence behind \<open>sti\<close> is stated without an interrupt in between; beside that, every sequence of
  events from the state at \<open>sti\<close>, task creations among ticks, is shown to keep the scheduler's invariant. A switch to another task is returned to the caller as
  the pair of slots it happened between; \<open>Multitask\<close> composes events from all tasks in any order, \<open>Cpu\<close> and
  \<open>Scheduler\<close> show that the switch itself saves and restores the registers. \<open>Spinlock\<close> interleaves its steps freely.

  \<^bold>\<open>What is shown.\<close>
  \<^item> Memory: the allocator hands out no frame twice and gives back what it took; mapping a page changes exactly that
    page and keeps the tables a tree apart from the free frames; the heap's blocks tile its mapped range, live
    blocks never overlap, allocation is first fit and fails only when the frames run out.
  \<^item> Tasks: over every sequence of ticks, creations, yields, sleeps, exits and waits the table keeps one running
    task, an idle task that can run, distinct pids and disjoint stacks; a ready task runs within 93 ticks
    (31 other slots, 3 ticks each); the choice is round robin; sleepers and waiters wake when they should.
  \<^item> Interrupts: the stubs give back the interrupted registers; each hardware interrupt is handled once and
    acknowledged; no exception returns; system calls return their result in \<open>RAX\<close>.
  \<^item> Devices: text arrives on the line and on the screen as its specification says; keys arrive in order.
  \<^item> Shell: its parsers invert the printers, its line stays within the buffer, a session refines a line editor, and its
    memory test reports success and leaves the other blocks alone.
  \<^item> The whole: the kernel boots into a state that satisfies these invariants, and a keystroke has the effect on
    the screen that the shell's specification gives it.

  \<^bold>\<open>Parameters.\<close> What is not under \<open>src/\<close> is an argument: the Limine responses (memory map, direct-map offset,
  framebuffer), the devices' answers, the addresses that the linker assigns to stubs, tables and entry functions, the
  glyphs of the font, and what other tasks do while the shell sleeps.

  \<^bold>\<open>Memory.\<close> The cells of the page tables and the task stacks, the block headers, the bytes behind pointers and the pixels
  are separate maps from addresses. This is exact as long as the regions do not overlap: the tables and stacks
  are reached through the direct map, the heap lies at \<open>HEAP_START\<close>, 4 GiB behind the usual start of the direct
  map, so it assumes that the direct map ends below. Page tables may contain large pages, as the boot loader's do. The code's walk
  does not test for them, so the properties of a walk ask that the walk of their address meets none
  (\<open>small_path\<close>); the boot sequence asks it of the heap's window and of the local APIC's page, and the heap's
  invariant keeps it.

  \<^bold>\<open>Not modelled.\<close> The module files hold no code. The linker script, the Cargo files and the font are data.
  \<open>write_cr3\<close> and \<open>read_flags\<close> are never called; \<open>force_release\<close>, which is not called either, is only defined. \<open>idle_task\<close> only halts, which is the absence of an event of slot 0.
  What the processor does after a fault inside the fault handler, or when a stack grows out of its frames, is
  outside the model; the commands that cause it end in a value that says so.
\<close>

section \<open>From the keyboard to the screen\<close>

text \<open>One keyboard interrupt after another; the bytes the controller returns to them, and the bus history after them.\<close>

fun key_interrupts :: "profile \<Rightarrow> interrupt_frame list \<Rightarrow> 'a sys_state_scheme \<Rightarrow> 'a sys_state_scheme res" where
  "key_interrupts pr [] s = Inr s"
| "key_interrupts pr (fr # frs) s = andThen (common_handler pr fr s) (\<lambda>(out, s). key_interrupts pr frs s)"

fun scancodes :: "(io_event list \<Rightarrow> u16 \<Rightarrow> u8) \<Rightarrow> io_event list \<Rightarrow> nat \<Rightarrow> u8 list" where
  "scancodes d l 0 = []"
| "scancodes d l (Suc n) = d l 0x60 # scancodes d (l @ [In 0x60 (d l 0x60), Out 0x20 0x20]) n"

lemma key_interrupts_eq:
  assumes "scan_all (scancodes (dev_in s) (io_log s) (length frs)) (global_keyboard s) = Inr K"
    and "\<forall>fr \<in> set frs. vector fr = 33" and "length (irq_handles s) = 16" and "irq_handles s ! 1 = Some On_irq1"
  shows "\<exists>l. key_interrupts pr frs s = Inr (s\<lparr>global_keyboard := K, io_log := l\<rparr>)"
  using assms
proof (induction frs arbitrary: s)
  case Nil
  then show ?case by (intro exI [of _ "io_log s"]) simp
next
  case (Cons fr frs)
  let ?sc = "dev_in s (io_log s) 0x60"
  obtain k where k: "handle_scancode ?sc (global_keyboard s) = Inr k"
    "scan_all (scancodes (dev_in s) (io_log s @ [In 0x60 ?sc, Out 0x20 0x20]) (length frs)) k = Inr K"
    using Cons.prems(1) by (auto elim!: andThen_InrE)
  let ?s = "s\<lparr>global_keyboard := k, io_log := io_log s @ [In 0x60 ?sc, Out 0x20 0x20]\<rparr>"
  obtain l where "key_interrupts pr frs ?s = Inr (?s\<lparr>global_keyboard := K, io_log := l\<rparr>)"
    using Cons.IH [of ?s] k(2) Cons.prems(2-4) by auto
  moreover have "common_handler pr fr s = Inr (Resume fr, ?s)" by (rule key_irq [OF _ Cons.prems(3,4) k(1)]) (use Cons.prems(2) in simp)
  ultimately show ?case by auto
qed

lemma type_key_cong:
  fixes s :: "'a sys_state_scheme"
  shows "type_key bs (s\<lparr>global_keyboard := K, io_log := l\<rparr>) = type_key bs s"
proof -
  let ?s = "s\<lparr>global_keyboard := K, io_log := l\<rparr>"
  have "meminfo_text ?s = meminfo_text s" "uptime_text ?s = uptime_text s" "heap_head ?s = heap_head s" "font ?s = font s"
    by (simp_all add: meminfo_text_def uptime_text_def free_pages_def ticks_def)
  note same = this
  have "answer bs ?s = answer bs s" by (intro ext) (simp only: answer_def reply_def same)
  then show ?thesis by (intro ext) (simp only: type_key_def same)
qed

text \<open>C9: From the keyboard to the screen, across the interrupt dispatch, the keyboard driver, the shell and the terminal: with an
  empty ring buffer, any number of keyboard interrupts whose scancodes type at most 255 characters, none of the
  entered lines naming a command that waits, faults or changes the memory, followed by the shell's loop over the
  pending keys. Every interrupt is served without a fault, and the line, the colours and every visible pixel
  are then what typing exactly those characters, with shift where it was held, gives in the shell's specification.\<close>

theorem keystrokes_answered:
  fixes s :: "'a sys_state_scheme"
  assumes keys: "ks = typed (shift (global_keyboard s)) (scancodes (dev_in s) (io_log s) (length frs))" "length ks \<le> 255"
    and frs: "\<forall>fr \<in> set frs. vector fr = 33" and irqs: "length (irq_handles s) = 16" "irq_handles s ! 1 = Some On_irq1"
    and ok: "kbd_inv s" "kbd_pending s = []" "shell_ok sh" "views (t, s) v" "pmm_inv s" "heap_blocks s bs"
    and quiet: "quiet (line sh) ks"
  shows "\<exists>s1 sh' t' s' v'. key_interrupts pr frs s = Inr s1 \<and> drain_keys pr env sh (t, s1) = Some (Inr (Done, sh', (t', s'))) \<and>
    kbd_pending s' = [] \<and> views (t', s') v' \<and> fold (type_key bs s) ks (line sh, geo t, v) = (line sh', geo t', v')"
proof -
  obtain K where K: "scan_all (scancodes (dev_in s) (io_log s) (length frs)) (global_keyboard s) = Inr K" "kb_inv (kbuffer K)"
    "pending (kbuffer K) = ks"
    using scan_all_eq [OF ok(1) [unfolded kbd_inv_def], of "scancodes (dev_in s) (io_log s) (length frs)"] keys
    unfolding ok(2) [unfolded kbd_pending_def] by auto
  obtain l where l: "key_interrupts pr frs s = Inr (s\<lparr>global_keyboard := K, io_log := l\<rparr>)"
    using key_interrupts_eq [OF K(1) frs irqs] by blast
  let ?s1 = "s\<lparr>global_keyboard := K, io_log := l\<rparr>"
  have 1: "kbd_inv ?s1" "kbd_pending ?s1 = ks" using K(2,3) by (simp_all add: kbd_inv_def kbd_pending_def)
  have 2: "views (t, ?s1) v" using ok(4) by (cases v) (simp add: views_def term_ok_def shows_picture_def)
  have 3: "pmm_inv ?s1" "heap_blocks ?s1 bs" using ok(5,6) by (simp_all add: pmm_inv_def free_pages_def heap_blocks_def)
  obtain sh' t' s' v' where "drain_keys pr env sh (t, ?s1) = Some (Inr (Done, sh', (t', s')))" "kbd_pending s' = []" "views (t', s') v'"
    "fold (type_key bs ?s1) (kbd_pending ?s1) (line sh, geo t, v) = (line sh', geo t', v')"
    using drain_refines [OF ok(3) 2 3 1(1), of pr env] quiet unfolding 1(2) by blast
  then show ?thesis using l unfolding type_key_cong 1(2) by blast
qed

text \<open>A device that returns one scancode after another.\<close>

definition key_device :: "u8 list \<Rightarrow> io_event list \<Rightarrow> u16 \<Rightarrow> u8" where
  "key_device scs l p = (let n = length (filter (\<lambda>e. \<exists>v. e = In 0x60 v) l) in if n < length scs then scs ! n else 0xff)"

theorem keystrokes_answered_witness:
  "\<exists>(s :: sys_state) s1 sh' t' s'. key_interrupts Dev (replicate 4 (undefined\<lparr>vector := 33\<rparr>)) s = Inr s1 \<and>
     drain_keys Dev idle_env shell_new (small_term, s1) = Some (Inr (Done, sh', (t', s'))) \<and> line sh' = [72]"
proof -
  define s where "s = (small_console [])\<lparr>dev_in := key_device [0x1c, 0x2a, 0x23, 0xAA], io_log := [], irq_handles := replicate 16 (Some On_irq1)\<rparr>"
  note c = small_console_ok [of "[]", simplified]
  have kb: "shift (global_keyboard s) = False" by (simp add: s_def small_console_def keyboard_new_def)
  have sc: "scancodes (dev_in s) (io_log s) 4 = [0x1c, 0x2a, 0x23, 0xAA]"
    by (simp add: s_def numeral_eq_Suc key_device_def)
  have ty: "typed False [0x1c, 0x2a, 0x23, 0xAA] = [10, 72]" by code_simp
  have ok: "kbd_inv s" "kbd_pending s = []" "views (small_term, s) (0, 0, \<lambda>y x. 0)" "pmm_inv s" "heap_blocks s [(4072, False)]"
    using c by (simp_all add: s_def kbd_inv_def kbd_pending_def views_def term_ok_def shows_picture_def pmm_inv_def free_pages_def heap_blocks_def)
  have q: "quiet (line shell_new) [10, 72]" by (simp add: shell_new_ok answered_def verb_of_def strip_def word1_def asc_def)
  let ?frs = "replicate 4 (undefined\<lparr>vector := 33\<rparr>)"
  have keys: "[10, 72] = typed (shift (global_keyboard s)) (scancodes (dev_in s) (io_log s) (length ?frs))"
    by (simp only: length_replicate kb sc ty)
  have "\<forall>fr \<in> set ?frs. vector fr = 33" "length (irq_handles s) = 16" "irq_handles s ! 1 = Some On_irq1" "length [10 :: u8, 72] \<le> 255"
    by (simp_all add: s_def)
  from keystrokes_answered [OF keys this(4,1-3) ok(1,2) shell_new_ok(1) ok(3-5) q, of Dev idle_env]
  obtain s1 sh' t' s' v' where 1: "key_interrupts Dev ?frs s = Inr s1"
    "drain_keys Dev idle_env shell_new (small_term, s1) = Some (Inr (Done, sh', (t', s')))"
    "fold (type_key [(4072, False)] s) [10, 72] (line shell_new, geo small_term, (0, 0, \<lambda>y x. 0)) = (line sh', geo t', v')" by blast
  have "fold edit_line [10, 72] (line shell_new) = [72]" by (simp add: shell_new_ok edit_line_def)
  then have "line sh' = [72]" using arg_cong [OF 1(3), of fst] unfolding fold_type_key_line by simp
  then show ?thesis using 1(1,2) by blast
qed

end
